(* ===== verification/Prelude.thy ===== *)
theory Prelude
  imports "HOL-Library.Word"
begin

text \<open>
  The shared base of the development: names for the machine types the C sources use, the
  byte-order functions both hash components read their input with, and the generic lemmas on
  words, rotations and lists that the component theories rest on.
\<close>

unbundle bit_operations_syntax

type_synonym byte = "8 word"
type_synonym u32 = "32 word"
type_synonym u64 = "64 word"

named_theorems rotation_simps \<open>rotations written with two shifts, as library rotations\<close>

section \<open>Rotations\<close>

lemma shifts_word_rotl:
  fixes x :: "'w::len word"
  assumes "0 < s" and "s < LENGTH('w)"
  shows "push_bit s x OR drop_bit (LENGTH('w) - s) x = word_rotl s x"
proof (rule bit_word_eqI)
  fix n assume n: "n < LENGTH('w)"
  show "bit (push_bit s x OR drop_bit (LENGTH('w) - s) x) n = bit (word_rotl s x) n"
  proof (cases "s \<le> n")
    case True
    have "(n + (LENGTH('w) - s)) mod LENGTH('w) = n - s"
      using True n assms by (simp add: mod_if)
    moreover have "\<not> bit x (n + (LENGTH('w) - s))"
      using True assms by (auto dest: bit_imp_le_length)
    ultimately show ?thesis using True n assms by (simp add: bit_simps add.commute)
  next
    case False
    then have "(n + (LENGTH('w) - s)) mod LENGTH('w) = n + (LENGTH('w) - s)"
      using n assms by simp
    then show ?thesis using False n assms by (simp add: bit_simps add.commute)
  qed
qed

lemma word_rotl_0 [rotation_simps]: "word_rotl 0 (x :: 'w::len word) = x"
  by transfer simp

section \<open>Little-endian words\<close>

primrec le_word :: "byte list \<Rightarrow> 'w::len word" where
  "le_word [] = 0"
| "le_word (b # bs) = ucast b OR push_bit 8 (le_word bs)"

lemma bit_le_word:
  "bit (le_word bs :: 'w::len word) n \<longleftrightarrow>
     n < LENGTH('w) \<and> n div 8 < length bs \<and> bit (bs ! (n div 8)) (n mod 8)"
proof (induction bs arbitrary: n)
  case Nil
  show ?case by simp
next
  case (Cons b bs)
  show ?case
  proof (cases "n < 8")
    case True
    then show ?thesis by (auto simp: bit_simps)
  next
    case False
    then have "n div 8 = Suc ((n - 8) div 8)" and "n mod 8 = (n - 8) mod 8"
      by (simp_all add: div_if mod_if [of n 8])
    with False show ?thesis
      by (auto simp: bit_simps Cons.IH dest: bit_imp_le_length)
  qed
qed

lemma le_word_append_zeros: "le_word (bs @ replicate k 0) = le_word bs"
  by (rule bit_word_eqI) (auto simp: bit_le_word nth_append)

section \<open>Words as natural numbers\<close>

lemma unat_less_exp: "unat (x :: 'w::len word) < 2 ^ LENGTH('w)"
  by simp

lemma unat_minus_1: "unat (- 1 :: 'w::len word) = 2 ^ LENGTH('w) - 1"
  by (simp add: unsigned_minus_1_eq_mask mask_eq_exp_minus_1)

lemma unat_minus_1_minus: "unat (- 1 - b :: 'w::len word) = 2 ^ LENGTH('w) - 1 - unat b"
proof -
  have "unat b \<le> 2 ^ LENGTH('w) - 1" using unat_less_exp [of b] by linarith
  then show ?thesis by (simp add: unat_sub_if_size word_size unat_minus_1)
qed

lemma unat_drop_bit: "unat (drop_bit k x :: 'w::len word) = unat x div 2 ^ k"
  by (simp only: unsigned_drop_bit_eq) (simp add: take_bit_nat_eq_self drop_bit_eq_div)

lemma unat_exp: "k < LENGTH('w) \<Longrightarrow> unat (2 ^ k :: 'w::len word) = 2 ^ k"
  using unat_of_nat [of "2 ^ k", where 'a='w] by simp

section \<open>Data refinement\<close>

text \<open>
  The contract between a representation and what it stands for: under an invariant, an operation
  that returns does to the abstract value what its specification says, and it aborts exactly when
  the specification does. Runs of operations inherit the contract.
\<close>

fun run :: "('op \<Rightarrow> 's \<Rightarrow> 's option) \<Rightarrow> 'op list \<Rightarrow> 's \<Rightarrow> 's option" where
  "run exec [] s = Some s"
| "run exec (op # ops) s = (case exec op s of None \<Rightarrow> None | Some s' \<Rightarrow> run exec ops s')"

locale refinement =
  fixes inv :: "'s \<Rightarrow> bool" and abs :: "'s \<Rightarrow> 'a"
    and ok :: "'op \<Rightarrow> bool"
    and exec :: "'op \<Rightarrow> 's \<Rightarrow> 's option" and spec :: "'op \<Rightarrow> 'a \<Rightarrow> 'a option"
  assumes exec_spec: "inv s \<Longrightarrow> ok op \<Longrightarrow> map_option abs (exec op s) = spec op (abs s)"
    and exec_inv: "inv s \<Longrightarrow> ok op \<Longrightarrow> exec op s = Some s' \<Longrightarrow> inv s'"
begin

lemma run_spec:
  "inv s \<Longrightarrow> list_all ok ops \<Longrightarrow> map_option abs (run exec ops s) = run spec ops (abs s)"
proof (induction ops arbitrary: s)
  case (Cons op ops)
  then have e: "map_option abs (exec op s) = spec op (abs s)" by (simp add: exec_spec)
  show ?case
  proof (cases "exec op s")
    case (Some s')
    then have "inv s'" using Cons.prems exec_inv [of s op s'] by simp
    then show ?thesis using Cons Some e by (simp flip: e)
  qed (use e in \<open>simp flip: e\<close>)
qed simp

lemma run_inv:
  "inv s \<Longrightarrow> list_all ok ops \<Longrightarrow> run exec ops s = Some s' \<Longrightarrow> inv s'"
  by (induction ops arbitrary: s) (auto split: option.splits dest: exec_inv)

end

end
