(* ===== verification/Keccak.thy ===== *)
theory Keccak
  imports Prelude
begin

text \<open>
  The Keccak primitives of the proof-of-work library (ethash/lib/keccak): the unrolled
  permutations of keccakf800.c and keccakf1600.c and the sponge of keccak.c. The C arrays of 25
  words are lists of length 25, the C locals keep their names (\<open>Do'\<close> for \<open>Do\<close>), and an assignment
  to a reused local is a new \<open>let\<close>. The host is little-endian, so \<open>to_le64\<close> is the identity.
\<close>

section \<open>keccakf800.c\<close>

definition rol32 :: "32 word \<Rightarrow> nat \<Rightarrow> 32 word" where
  "rol32 x s = push_bit s x OR drop_bit (32 - s) x"

definition round_constants32 :: "32 word list" where
  "round_constants32 = [
     0x00000001, 0x00008082, 0x0000808A, 0x80008000,
     0x0000808B, 0x80000001, 0x80008081, 0x00008009,
     0x0000008A, 0x00000088, 0x80008009, 0x8000000A,
     0x8000808B, 0x0000008B, 0x00008089, 0x00008003,
     0x00008002, 0x00000080, 0x0000800A, 0x8000000A,
     0x80008081, 0x00008080]"

definition keccakf800_round_A_E :: "32 word \<Rightarrow> 32 word list \<Rightarrow> 32 word list" where
  "keccakf800_round_A_E rc s =
    (let Aba = s ! 0; Abe = s ! 1; Abi = s ! 2; Abo = s ! 3; Abu = s ! 4;
         Aga = s ! 5; Age = s ! 6; Agi = s ! 7; Ago = s ! 8; Agu = s ! 9;
         Aka = s ! 10; Ake = s ! 11; Aki = s ! 12; Ako = s ! 13; Aku = s ! 14;
         Ama = s ! 15; Ame = s ! 16; Ami = s ! 17; Amo = s ! 18; Amu = s ! 19;
         Asa = s ! 20; Ase = s ! 21; Asi = s ! 22; Aso = s ! 23; Asu = s ! 24;
         Ba = Aba XOR Aga XOR Aka XOR Ama XOR Asa;
         Be = Abe XOR Age XOR Ake XOR Ame XOR Ase;
         Bi = Abi XOR Agi XOR Aki XOR Ami XOR Asi;
         Bo = Abo XOR Ago XOR Ako XOR Amo XOR Aso;
         Bu = Abu XOR Agu XOR Aku XOR Amu XOR Asu;
         Da = Bu XOR rol32 Be 1;
         De = Ba XOR rol32 Bi 1;
         Di = Be XOR rol32 Bo 1;
         Do' = Bi XOR rol32 Bu 1;
         Du = Bo XOR rol32 Ba 1;
         Ba = Aba XOR Da;
         Be = rol32 (Age XOR De) 12;
         Bi = rol32 (Aki XOR Di) 11;
         Bo = rol32 (Amo XOR Do') 21;
         Bu = rol32 (Asu XOR Du) 14;
         Eba = Ba XOR (NOT Be AND Bi) XOR rc;
         Ebe = Be XOR (NOT Bi AND Bo);
         Ebi = Bi XOR (NOT Bo AND Bu);
         Ebo = Bo XOR (NOT Bu AND Ba);
         Ebu = Bu XOR (NOT Ba AND Be);
         Ba = rol32 (Abo XOR Do') 28;
         Be = rol32 (Agu XOR Du) 20;
         Bi = rol32 (Aka XOR Da) 3;
         Bo = rol32 (Ame XOR De) 13;
         Bu = rol32 (Asi XOR Di) 29;
         Ega = Ba XOR (NOT Be AND Bi);
         Ege = Be XOR (NOT Bi AND Bo);
         Egi = Bi XOR (NOT Bo AND Bu);
         Ego = Bo XOR (NOT Bu AND Ba);
         Egu = Bu XOR (NOT Ba AND Be);
         Ba = rol32 (Abe XOR De) 1;
         Be = rol32 (Agi XOR Di) 6;
         Bi = rol32 (Ako XOR Do') 25;
         Bo = rol32 (Amu XOR Du) 8;
         Bu = rol32 (Asa XOR Da) 18;
         Eka = Ba XOR (NOT Be AND Bi);
         Eke = Be XOR (NOT Bi AND Bo);
         Eki = Bi XOR (NOT Bo AND Bu);
         Eko = Bo XOR (NOT Bu AND Ba);
         Eku = Bu XOR (NOT Ba AND Be);
         Ba = rol32 (Abu XOR Du) 27;
         Be = rol32 (Aga XOR Da) 4;
         Bi = rol32 (Ake XOR De) 10;
         Bo = rol32 (Ami XOR Di) 15;
         Bu = rol32 (Aso XOR Do') 24;
         Ema = Ba XOR (NOT Be AND Bi);
         Eme = Be XOR (NOT Bi AND Bo);
         Emi = Bi XOR (NOT Bo AND Bu);
         Emo = Bo XOR (NOT Bu AND Ba);
         Emu = Bu XOR (NOT Ba AND Be);
         Ba = rol32 (Abi XOR Di) 30;
         Be = rol32 (Ago XOR Do') 23;
         Bi = rol32 (Aku XOR Du) 7;
         Bo = rol32 (Ama XOR Da) 9;
         Bu = rol32 (Ase XOR De) 2;
         Esa = Ba XOR (NOT Be AND Bi);
         Ese = Be XOR (NOT Bi AND Bo);
         Esi = Bi XOR (NOT Bo AND Bu);
         Eso = Bo XOR (NOT Bu AND Ba);
         Esu = Bu XOR (NOT Ba AND Be)
     in [Eba, Ebe, Ebi, Ebo, Ebu,
         Ega, Ege, Egi, Ego, Egu,
         Eka, Eke, Eki, Eko, Eku,
         Ema, Eme, Emi, Emo, Emu,
         Esa, Ese, Esi, Eso, Esu])"

definition keccakf800_round_E_A :: "32 word \<Rightarrow> 32 word list \<Rightarrow> 32 word list" where
  "keccakf800_round_E_A rc s =
    (let Eba = s ! 0; Ebe = s ! 1; Ebi = s ! 2; Ebo = s ! 3; Ebu = s ! 4;
         Ega = s ! 5; Ege = s ! 6; Egi = s ! 7; Ego = s ! 8; Egu = s ! 9;
         Eka = s ! 10; Eke = s ! 11; Eki = s ! 12; Eko = s ! 13; Eku = s ! 14;
         Ema = s ! 15; Eme = s ! 16; Emi = s ! 17; Emo = s ! 18; Emu = s ! 19;
         Esa = s ! 20; Ese = s ! 21; Esi = s ! 22; Eso = s ! 23; Esu = s ! 24;
         Ba = Eba XOR Ega XOR Eka XOR Ema XOR Esa;
         Be = Ebe XOR Ege XOR Eke XOR Eme XOR Ese;
         Bi = Ebi XOR Egi XOR Eki XOR Emi XOR Esi;
         Bo = Ebo XOR Ego XOR Eko XOR Emo XOR Eso;
         Bu = Ebu XOR Egu XOR Eku XOR Emu XOR Esu;
         Da = Bu XOR rol32 Be 1;
         De = Ba XOR rol32 Bi 1;
         Di = Be XOR rol32 Bo 1;
         Do' = Bi XOR rol32 Bu 1;
         Du = Bo XOR rol32 Ba 1;
         Ba = Eba XOR Da;
         Be = rol32 (Ege XOR De) 12;
         Bi = rol32 (Eki XOR Di) 11;
         Bo = rol32 (Emo XOR Do') 21;
         Bu = rol32 (Esu XOR Du) 14;
         Aba = Ba XOR (NOT Be AND Bi) XOR rc;
         Abe = Be XOR (NOT Bi AND Bo);
         Abi = Bi XOR (NOT Bo AND Bu);
         Abo = Bo XOR (NOT Bu AND Ba);
         Abu = Bu XOR (NOT Ba AND Be);
         Ba = rol32 (Ebo XOR Do') 28;
         Be = rol32 (Egu XOR Du) 20;
         Bi = rol32 (Eka XOR Da) 3;
         Bo = rol32 (Eme XOR De) 13;
         Bu = rol32 (Esi XOR Di) 29;
         Aga = Ba XOR (NOT Be AND Bi);
         Age = Be XOR (NOT Bi AND Bo);
         Agi = Bi XOR (NOT Bo AND Bu);
         Ago = Bo XOR (NOT Bu AND Ba);
         Agu = Bu XOR (NOT Ba AND Be);
         Ba = rol32 (Ebe XOR De) 1;
         Be = rol32 (Egi XOR Di) 6;
         Bi = rol32 (Eko XOR Do') 25;
         Bo = rol32 (Emu XOR Du) 8;
         Bu = rol32 (Esa XOR Da) 18;
         Aka = Ba XOR (NOT Be AND Bi);
         Ake = Be XOR (NOT Bi AND Bo);
         Aki = Bi XOR (NOT Bo AND Bu);
         Ako = Bo XOR (NOT Bu AND Ba);
         Aku = Bu XOR (NOT Ba AND Be);
         Ba = rol32 (Ebu XOR Du) 27;
         Be = rol32 (Ega XOR Da) 4;
         Bi = rol32 (Eke XOR De) 10;
         Bo = rol32 (Emi XOR Di) 15;
         Bu = rol32 (Eso XOR Do') 24;
         Ama = Ba XOR (NOT Be AND Bi);
         Ame = Be XOR (NOT Bi AND Bo);
         Ami = Bi XOR (NOT Bo AND Bu);
         Amo = Bo XOR (NOT Bu AND Ba);
         Amu = Bu XOR (NOT Ba AND Be);
         Ba = rol32 (Ebi XOR Di) 30;
         Be = rol32 (Ego XOR Do') 23;
         Bi = rol32 (Eku XOR Du) 7;
         Bo = rol32 (Ema XOR Da) 9;
         Bu = rol32 (Ese XOR De) 2;
         Asa = Ba XOR (NOT Be AND Bi);
         Ase = Be XOR (NOT Bi AND Bo);
         Asi = Bi XOR (NOT Bo AND Bu);
         Aso = Bo XOR (NOT Bu AND Ba);
         Asu = Bu XOR (NOT Ba AND Be)
     in [Aba, Abe, Abi, Abo, Abu,
         Aga, Age, Agi, Ago, Agu,
         Aka, Ake, Aki, Ako, Aku,
         Ama, Ame, Ami, Amo, Amu,
         Asa, Ase, Asi, Aso, Asu])"

function keccakf800_loop :: "nat \<Rightarrow> 32 word list \<Rightarrow> 32 word list" where
  "keccakf800_loop round s =
     (if round < 22
      then keccakf800_loop (round + 2)
             (keccakf800_round_E_A (round_constants32 ! (round + 1))
               (keccakf800_round_A_E (round_constants32 ! round) s))
      else s)"
  by pat_completeness auto
termination
  by (relation "measure (\<lambda>(round, s). 22 - round)") auto

declare keccakf800_loop.simps [simp del]

definition ethash_keccakf800 :: "32 word list \<Rightarrow> 32 word list" where
  "ethash_keccakf800 state = keccakf800_loop 0 state"

section \<open>keccakf1600.c\<close>

definition rol64 :: "64 word \<Rightarrow> nat \<Rightarrow> 64 word" where
  "rol64 x s = push_bit s x OR drop_bit (64 - s) x"

definition round_constants64 :: "64 word list" where
  "round_constants64 = [
     0x0000000000000001, 0x0000000000008082, 0x800000000000808A, 0x8000000080008000,
     0x000000000000808B, 0x0000000080000001, 0x8000000080008081, 0x8000000000008009,
     0x000000000000008A, 0x0000000000000088, 0x0000000080008009, 0x000000008000000A,
     0x000000008000808B, 0x800000000000008B, 0x8000000000008089, 0x8000000000008003,
     0x8000000000008002, 0x8000000000000080, 0x000000000000800A, 0x800000008000000A,
     0x8000000080008081, 0x8000000000008080, 0x0000000080000001, 0x8000000080008008]"

definition keccakf1600_round_A_E :: "64 word \<Rightarrow> 64 word list \<Rightarrow> 64 word list" where
  "keccakf1600_round_A_E rc s =
    (let Aba = s ! 0; Abe = s ! 1; Abi = s ! 2; Abo = s ! 3; Abu = s ! 4;
         Aga = s ! 5; Age = s ! 6; Agi = s ! 7; Ago = s ! 8; Agu = s ! 9;
         Aka = s ! 10; Ake = s ! 11; Aki = s ! 12; Ako = s ! 13; Aku = s ! 14;
         Ama = s ! 15; Ame = s ! 16; Ami = s ! 17; Amo = s ! 18; Amu = s ! 19;
         Asa = s ! 20; Ase = s ! 21; Asi = s ! 22; Aso = s ! 23; Asu = s ! 24;
         Ba = Aba XOR Aga XOR Aka XOR Ama XOR Asa;
         Be = Abe XOR Age XOR Ake XOR Ame XOR Ase;
         Bi = Abi XOR Agi XOR Aki XOR Ami XOR Asi;
         Bo = Abo XOR Ago XOR Ako XOR Amo XOR Aso;
         Bu = Abu XOR Agu XOR Aku XOR Amu XOR Asu;
         Da = Bu XOR rol64 Be 1;
         De = Ba XOR rol64 Bi 1;
         Di = Be XOR rol64 Bo 1;
         Do' = Bi XOR rol64 Bu 1;
         Du = Bo XOR rol64 Ba 1;
         Ba = Aba XOR Da;
         Be = rol64 (Age XOR De) 44;
         Bi = rol64 (Aki XOR Di) 43;
         Bo = rol64 (Amo XOR Do') 21;
         Bu = rol64 (Asu XOR Du) 14;
         Eba = Ba XOR (NOT Be AND Bi) XOR rc;
         Ebe = Be XOR (NOT Bi AND Bo);
         Ebi = Bi XOR (NOT Bo AND Bu);
         Ebo = Bo XOR (NOT Bu AND Ba);
         Ebu = Bu XOR (NOT Ba AND Be);
         Ba = rol64 (Abo XOR Do') 28;
         Be = rol64 (Agu XOR Du) 20;
         Bi = rol64 (Aka XOR Da) 3;
         Bo = rol64 (Ame XOR De) 45;
         Bu = rol64 (Asi XOR Di) 61;
         Ega = Ba XOR (NOT Be AND Bi);
         Ege = Be XOR (NOT Bi AND Bo);
         Egi = Bi XOR (NOT Bo AND Bu);
         Ego = Bo XOR (NOT Bu AND Ba);
         Egu = Bu XOR (NOT Ba AND Be);
         Ba = rol64 (Abe XOR De) 1;
         Be = rol64 (Agi XOR Di) 6;
         Bi = rol64 (Ako XOR Do') 25;
         Bo = rol64 (Amu XOR Du) 8;
         Bu = rol64 (Asa XOR Da) 18;
         Eka = Ba XOR (NOT Be AND Bi);
         Eke = Be XOR (NOT Bi AND Bo);
         Eki = Bi XOR (NOT Bo AND Bu);
         Eko = Bo XOR (NOT Bu AND Ba);
         Eku = Bu XOR (NOT Ba AND Be);
         Ba = rol64 (Abu XOR Du) 27;
         Be = rol64 (Aga XOR Da) 36;
         Bi = rol64 (Ake XOR De) 10;
         Bo = rol64 (Ami XOR Di) 15;
         Bu = rol64 (Aso XOR Do') 56;
         Ema = Ba XOR (NOT Be AND Bi);
         Eme = Be XOR (NOT Bi AND Bo);
         Emi = Bi XOR (NOT Bo AND Bu);
         Emo = Bo XOR (NOT Bu AND Ba);
         Emu = Bu XOR (NOT Ba AND Be);
         Ba = rol64 (Abi XOR Di) 62;
         Be = rol64 (Ago XOR Do') 55;
         Bi = rol64 (Aku XOR Du) 39;
         Bo = rol64 (Ama XOR Da) 41;
         Bu = rol64 (Ase XOR De) 2;
         Esa = Ba XOR (NOT Be AND Bi);
         Ese = Be XOR (NOT Bi AND Bo);
         Esi = Bi XOR (NOT Bo AND Bu);
         Eso = Bo XOR (NOT Bu AND Ba);
         Esu = Bu XOR (NOT Ba AND Be)
     in [Eba, Ebe, Ebi, Ebo, Ebu,
         Ega, Ege, Egi, Ego, Egu,
         Eka, Eke, Eki, Eko, Eku,
         Ema, Eme, Emi, Emo, Emu,
         Esa, Ese, Esi, Eso, Esu])"

definition keccakf1600_round_E_A :: "64 word \<Rightarrow> 64 word list \<Rightarrow> 64 word list" where
  "keccakf1600_round_E_A rc s =
    (let Eba = s ! 0; Ebe = s ! 1; Ebi = s ! 2; Ebo = s ! 3; Ebu = s ! 4;
         Ega = s ! 5; Ege = s ! 6; Egi = s ! 7; Ego = s ! 8; Egu = s ! 9;
         Eka = s ! 10; Eke = s ! 11; Eki = s ! 12; Eko = s ! 13; Eku = s ! 14;
         Ema = s ! 15; Eme = s ! 16; Emi = s ! 17; Emo = s ! 18; Emu = s ! 19;
         Esa = s ! 20; Ese = s ! 21; Esi = s ! 22; Eso = s ! 23; Esu = s ! 24;
         Ba = Eba XOR Ega XOR Eka XOR Ema XOR Esa;
         Be = Ebe XOR Ege XOR Eke XOR Eme XOR Ese;
         Bi = Ebi XOR Egi XOR Eki XOR Emi XOR Esi;
         Bo = Ebo XOR Ego XOR Eko XOR Emo XOR Eso;
         Bu = Ebu XOR Egu XOR Eku XOR Emu XOR Esu;
         Da = Bu XOR rol64 Be 1;
         De = Ba XOR rol64 Bi 1;
         Di = Be XOR rol64 Bo 1;
         Do' = Bi XOR rol64 Bu 1;
         Du = Bo XOR rol64 Ba 1;
         Ba = Eba XOR Da;
         Be = rol64 (Ege XOR De) 44;
         Bi = rol64 (Eki XOR Di) 43;
         Bo = rol64 (Emo XOR Do') 21;
         Bu = rol64 (Esu XOR Du) 14;
         Aba = Ba XOR (NOT Be AND Bi) XOR rc;
         Abe = Be XOR (NOT Bi AND Bo);
         Abi = Bi XOR (NOT Bo AND Bu);
         Abo = Bo XOR (NOT Bu AND Ba);
         Abu = Bu XOR (NOT Ba AND Be);
         Ba = rol64 (Ebo XOR Do') 28;
         Be = rol64 (Egu XOR Du) 20;
         Bi = rol64 (Eka XOR Da) 3;
         Bo = rol64 (Eme XOR De) 45;
         Bu = rol64 (Esi XOR Di) 61;
         Aga = Ba XOR (NOT Be AND Bi);
         Age = Be XOR (NOT Bi AND Bo);
         Agi = Bi XOR (NOT Bo AND Bu);
         Ago = Bo XOR (NOT Bu AND Ba);
         Agu = Bu XOR (NOT Ba AND Be);
         Ba = rol64 (Ebe XOR De) 1;
         Be = rol64 (Egi XOR Di) 6;
         Bi = rol64 (Eko XOR Do') 25;
         Bo = rol64 (Emu XOR Du) 8;
         Bu = rol64 (Esa XOR Da) 18;
         Aka = Ba XOR (NOT Be AND Bi);
         Ake = Be XOR (NOT Bi AND Bo);
         Aki = Bi XOR (NOT Bo AND Bu);
         Ako = Bo XOR (NOT Bu AND Ba);
         Aku = Bu XOR (NOT Ba AND Be);
         Ba = rol64 (Ebu XOR Du) 27;
         Be = rol64 (Ega XOR Da) 36;
         Bi = rol64 (Eke XOR De) 10;
         Bo = rol64 (Emi XOR Di) 15;
         Bu = rol64 (Eso XOR Do') 56;
         Ama = Ba XOR (NOT Be AND Bi);
         Ame = Be XOR (NOT Bi AND Bo);
         Ami = Bi XOR (NOT Bo AND Bu);
         Amo = Bo XOR (NOT Bu AND Ba);
         Amu = Bu XOR (NOT Ba AND Be);
         Ba = rol64 (Ebi XOR Di) 62;
         Be = rol64 (Ego XOR Do') 55;
         Bi = rol64 (Eku XOR Du) 39;
         Bo = rol64 (Ema XOR Da) 41;
         Bu = rol64 (Ese XOR De) 2;
         Asa = Ba XOR (NOT Be AND Bi);
         Ase = Be XOR (NOT Bi AND Bo);
         Asi = Bi XOR (NOT Bo AND Bu);
         Aso = Bo XOR (NOT Bu AND Ba);
         Asu = Bu XOR (NOT Ba AND Be)
     in [Aba, Abe, Abi, Abo, Abu,
         Aga, Age, Agi, Ago, Agu,
         Aka, Ake, Aki, Ako, Aku,
         Ama, Ame, Ami, Amo, Amu,
         Asa, Ase, Asi, Aso, Asu])"

function keccakf1600_loop :: "nat \<Rightarrow> 64 word list \<Rightarrow> 64 word list" where
  "keccakf1600_loop round s =
     (if round < 24
      then keccakf1600_loop (round + 2)
             (keccakf1600_round_E_A (round_constants64 ! (round + 1))
               (keccakf1600_round_A_E (round_constants64 ! round) s))
      else s)"
  by pat_completeness auto
termination
  by (relation "measure (\<lambda>(round, s). 24 - round)") auto

declare keccakf1600_loop.simps [simp del]

definition ethash_keccakf1600 :: "64 word list \<Rightarrow> 64 word list" where
  "ethash_keccakf1600 state = keccakf1600_loop 0 state"

section \<open>The sponge of keccak.c\<close>

definition load_le :: "byte list \<Rightarrow> u64" where
  "load_le data = le_word (take 8 data)"

text \<open>
  The inner \<open>for\<close> loop over the words of one block and the tail loop over the remaining whole
  words both do \<open>state[i] ^= load_le(data)\<close> for consecutive \<open>i\<close>.
\<close>

fun keccak_absorb_words :: "nat \<Rightarrow> nat \<Rightarrow> u64 list \<Rightarrow> byte list \<Rightarrow> u64 list" where
  "keccak_absorb_words i 0 state data = state"
| "keccak_absorb_words i (Suc n) state data =
     keccak_absorb_words (Suc i) n (state[i := state ! i XOR load_le data]) (drop 8 data)"

function keccak_absorb_blocks :: "nat \<Rightarrow> u64 list \<Rightarrow> byte list \<Rightarrow> u64 list \<times> byte list" where
  "keccak_absorb_blocks block_size state data =
     (if 0 < block_size \<and> block_size \<le> length data
      then keccak_absorb_blocks block_size
             (ethash_keccakf1600 (keccak_absorb_words 0 (block_size div 8) state data))
             (drop block_size data)
      else (state, data))"
  by pat_completeness auto
termination
  by (relation "measure (\<lambda>(b, s, d). length d)") auto

declare keccak_absorb_blocks.simps [simp del]

function keccak_tail_words :: "nat \<Rightarrow> u64 list \<Rightarrow> byte list \<Rightarrow> nat \<times> u64 list \<times> byte list" where
  "keccak_tail_words state_iter state data =
     (if 8 \<le> length data
      then keccak_tail_words (Suc state_iter)
             (state[state_iter := state ! state_iter XOR load_le data]) (drop 8 data)
      else (state_iter, state, data))"
  by pat_completeness auto
termination
  by (relation "measure (\<lambda>(i, s, d). length d)") auto

declare keccak_tail_words.simps [simp del]

fun keccak_tail_bytes :: "nat \<Rightarrow> byte list \<Rightarrow> byte list \<Rightarrow> nat \<times> byte list" where
  "keccak_tail_bytes last_word_iter last_word [] = (last_word_iter, last_word)"
| "keccak_tail_bytes last_word_iter last_word (d # data) =
     keccak_tail_bytes (Suc last_word_iter) (last_word[last_word_iter := d]) data"

definition keccak :: "nat \<Rightarrow> byte list \<Rightarrow> u64 list" where
  "keccak bits data =
     (let hash_size = bits div 8;
          block_size = (1600 - bits * 2) div 8;
          (state, data) = keccak_absorb_blocks block_size (replicate 25 0) data;
          (state_iter, state, data) = keccak_tail_words 0 state data;
          (last_word_iter, last_word) = keccak_tail_bytes 0 (replicate 8 0) data;
          last_word = last_word[last_word_iter := 0x01];
          state = state[state_iter := state ! state_iter XOR le_word last_word];
          j = block_size div 8 - 1;
          state = state[j := state ! j XOR 0x8000000000000000]
      in take (hash_size div 8) (ethash_keccakf1600 state))"

definition ethash_keccak256 :: "byte list \<Rightarrow> u64 list" where
  "ethash_keccak256 data = keccak 256 data"

definition ethash_keccak512 :: "byte list \<Rightarrow> u64 list" where
  "ethash_keccak512 data = keccak 512 data"

section \<open>The permutation of the Keccak specification\<close>

text \<open>
  The five step mappings over a state of 25 lanes, lane \<open>(x, y)\<close> at index \<open>5 * y + x\<close>. The
  rotation offsets come from the walk \<open>(x, y) \<mapsto> (y, 2x + 3y)\<close> and the round constants from the
  eight-bit LFSR, so that the tables of the C files are checked and not repeated here.
\<close>

type_synonym 'w lanes = "nat \<Rightarrow> 'w word"

definition theta :: "'w::len lanes \<Rightarrow> 'w lanes" where
  "theta a =
    (let c = (\<lambda>x. a x XOR a (x + 5) XOR a (x + 10) XOR a (x + 15) XOR a (x + 20));
         d = (\<lambda>x. c ((x + 4) mod 5) XOR word_rotl 1 (c ((x + 1) mod 5)))
     in (\<lambda>i. a i XOR d (i mod 5)))"

fun rho_walk :: "nat \<Rightarrow> nat \<times> nat" where
  "rho_walk 0 = (1, 0)"
| "rho_walk (Suc t) = (case rho_walk t of (x, y) \<Rightarrow> (y, (2 * x + 3 * y) mod 5))"

definition rho_offset :: "nat \<Rightarrow> nat" where
  "rho_offset i =
    (case find (\<lambda>t. rho_walk t = (i mod 5, i div 5)) [0..<24] of
       None \<Rightarrow> 0 | Some t \<Rightarrow> (t + 1) * (t + 2) div 2)"

definition rho :: "'w::len lanes \<Rightarrow> 'w lanes" where
  "rho a = (\<lambda>i. word_rotl (rho_offset i mod LENGTH('w)) (a i))"

definition pi_step :: "'w::len lanes \<Rightarrow> 'w lanes" where
  "pi_step a = (\<lambda>i. a (5 * (i mod 5) + (i mod 5 + 3 * (i div 5)) mod 5))"

definition chi :: "'w::len lanes \<Rightarrow> 'w lanes" where
  "chi a = (\<lambda>i. a i XOR (NOT (a (5 * (i div 5) + (i mod 5 + 1) mod 5))
                     AND a (5 * (i div 5) + (i mod 5 + 2) mod 5)))"

definition iota :: "'w::len word \<Rightarrow> 'w lanes \<Rightarrow> 'w lanes" where
  "iota rc a = (\<lambda>i. if i = 0 then a i XOR rc else a i)"

definition keccak_round_spec :: "'w::len word \<Rightarrow> 'w word list \<Rightarrow> 'w word list" where
  "keccak_round_spec rc s = map (iota rc (chi (pi_step (rho (theta (\<lambda>i. s ! i)))))) [0..<25]"

fun lfsr_step :: "bool list \<Rightarrow> bool list" where
  "lfsr_step [r0, r1, r2, r3, r4, r5, r6, r7] =
     [r7, r0, r1, r2, r3 \<noteq> r7, r4 \<noteq> r7, r5 \<noteq> r7, r6]"
| "lfsr_step r = r"

definition rc_bit :: "nat \<Rightarrow> bool" where
  "rc_bit t = hd ((lfsr_step ^^ (t mod 255)) (True # replicate 7 False))"

definition round_constant_spec :: "nat \<Rightarrow> nat \<Rightarrow> 'w::len word" where
  "round_constant_spec l ir =
     fold (\<lambda>j w. if rc_bit (j + 7 * ir) then set_bit (2 ^ j - 1) w else w) [0..<Suc l] 0"

definition keccak_f_spec :: "nat \<Rightarrow> nat \<Rightarrow> 'w::len word list \<Rightarrow> 'w word list" where
  "keccak_f_spec l nr s = fold (\<lambda>ir. keccak_round_spec (round_constant_spec l ir)) [0..<nr] s"

section \<open>The sponge of the Keccak specification\<close>

text \<open>
  \<open>pad10*1\<close> on whole bytes: a byte 0x01 after the message, zero bytes up to a multiple of the
  rate, and the top bit of the last byte set. Each block of the padded message is XORed into
  the first lanes of the state, little-endian, and the permutation runs.
\<close>

definition pad_block :: "nat \<Rightarrow> byte list \<Rightarrow> byte list" where
  "pad_block rate rest =
     (let p = rest @ [0x01] @ replicate (rate - Suc (length rest)) 0
      in p[rate - 1 := p ! (rate - 1) XOR 0x80])"

definition absorb :: "u64 list \<Rightarrow> byte list \<Rightarrow> u64 list" where
  "absorb st blk =
     keccak_f_spec 6 24
       (map (\<lambda>i. st ! i XOR le_word (take 8 (drop (8 * i) blk))) [0..<25])"

function sponge_absorb :: "nat \<Rightarrow> u64 list \<Rightarrow> byte list \<Rightarrow> u64 list" where
  "sponge_absorb rate st msg =
     (if 0 < rate \<and> rate \<le> length msg
      then sponge_absorb rate (absorb st (take rate msg)) (drop rate msg)
      else absorb st (pad_block rate msg))"
  by pat_completeness auto
termination
  by (relation "measure (\<lambda>(r, s, d). length d)") auto

declare sponge_absorb.simps [simp del]

section \<open>The unrolled rounds are the specified rounds\<close>

lemma rol32_rotl [rotation_simps]: "0 < s \<Longrightarrow> s < 32 \<Longrightarrow> rol32 x s = word_rotl s x"
  using shifts_word_rotl [of s x] by (simp add: rol32_def)

lemma rol64_rotl [rotation_simps]: "0 < s \<Longrightarrow> s < 64 \<Longrightarrow> rol64 x s = word_rotl s x"
  using shifts_word_rotl [of s x] by (simp add: rol64_def)

lemma rho_offset_values:
  "rho_offset 0 = 0" "rho_offset (Suc 0) = 1" "rho_offset 2 = 190" "rho_offset 3 = 28"
  "rho_offset 4 = 91" "rho_offset 5 = 36" "rho_offset 6 = 300" "rho_offset 7 = 6"
  "rho_offset 8 = 55" "rho_offset 9 = 276" "rho_offset 10 = 3" "rho_offset 11 = 10"
  "rho_offset 12 = 171" "rho_offset 13 = 153" "rho_offset 14 = 231" "rho_offset 15 = 105"
  "rho_offset 16 = 45" "rho_offset 17 = 15" "rho_offset 18 = 21" "rho_offset 19 = 136"
  "rho_offset 20 = 210" "rho_offset 21 = 66" "rho_offset 22 = 253" "rho_offset 23 = 120"
  "rho_offset 24 = 78"
  by code_simp+

lemma upt_25: "[0..<25] = [0, 1, 2, 3, 4, 5, 6, 7, 8, 9, 10, 11, 12, 13, 14, 15, 16, 17, 18,
   19, 20, 21, 22, 23, 24]"
  by code_simp

lemmas keccak_round_unfold =
  keccak_round_spec_def Let_def upt_25

lemmas keccak_step_defs =
  iota_def chi_def pi_step_def rho_def theta_def rho_offset_values rotation_simps Let_def
  xor.assoc numeral_2_eq_2 [symmetric]

lemma keccakf800_round_A_E_spec: "keccakf800_round_A_E rc s = keccak_round_spec rc s"
  unfolding keccakf800_round_A_E_def keccak_round_unfold
  by (simp add: keccak_step_defs)

lemma keccakf800_round_E_A_spec: "keccakf800_round_E_A rc s = keccak_round_spec rc s"
  unfolding keccakf800_round_E_A_def keccak_round_unfold
  by (simp add: keccak_step_defs)

lemma keccakf1600_round_A_E_spec: "keccakf1600_round_A_E rc s = keccak_round_spec rc s"
  unfolding keccakf1600_round_A_E_def keccak_round_unfold
  by (simp add: keccak_step_defs)

lemma keccakf1600_round_E_A_spec: "keccakf1600_round_E_A rc s = keccak_round_spec rc s"
  unfolding keccakf1600_round_E_A_def keccak_round_unfold
  by (simp add: keccak_step_defs)

lemma round_constants32_spec: "map (round_constant_spec 5) [0..<22] = round_constants32"
  by code_simp

lemma round_constants64_spec: "map (round_constant_spec 6) [0..<24] = round_constants64"
  by code_simp

lemma nth_round_constants32: "i < 22 \<Longrightarrow> round_constants32 ! i = round_constant_spec 5 i"
  by (simp flip: round_constants32_spec)

lemma nth_round_constants64: "i < 24 \<Longrightarrow> round_constants64 ! i = round_constant_spec 6 i"
  by (simp flip: round_constants64_spec)

lemma keccakf800_loop_spec:
  "even round \<Longrightarrow> round \<le> 22 \<Longrightarrow> keccakf800_loop round s =
     fold (\<lambda>ir. keccak_round_spec (round_constant_spec 5 ir)) [round..<22] s"
proof (induction round s rule: keccakf800_loop.induct)
  case (1 round s)
  show ?case
  proof (cases "round < 22")
    case True
    with "1.prems" have "Suc round < 22" by presburger
    then have "[round..<22] = round # Suc round # [round + 2..<22]"
      by (simp add: upt_conv_Cons)
    then show ?thesis
      using "1.IH" [OF True] "1.prems" True \<open>Suc round < 22\<close>
      by (simp add: keccakf800_loop.simps [of round] keccakf800_round_A_E_spec
          keccakf800_round_E_A_spec nth_round_constants32)
  next
    case False
    with "1.prems" show ?thesis by (subst keccakf800_loop.simps) simp
  qed
qed

lemma keccakf1600_loop_spec:
  "even round \<Longrightarrow> round \<le> 24 \<Longrightarrow> keccakf1600_loop round s =
     fold (\<lambda>ir. keccak_round_spec (round_constant_spec 6 ir)) [round..<24] s"
proof (induction round s rule: keccakf1600_loop.induct)
  case (1 round s)
  show ?case
  proof (cases "round < 24")
    case True
    with "1.prems" have "Suc round < 24" by presburger
    then have "[round..<24] = round # Suc round # [round + 2..<24]"
      by (simp add: upt_conv_Cons)
    then show ?thesis
      using "1.IH" [OF True] "1.prems" True \<open>Suc round < 24\<close>
      by (simp add: keccakf1600_loop.simps [of round] keccakf1600_round_A_E_spec
          keccakf1600_round_E_A_spec nth_round_constants64)
  next
    case False
    with "1.prems" show ?thesis by (subst keccakf1600_loop.simps) simp
  qed
qed

text \<open>C16: the hand-unrolled 32-bit permutation of keccakf800.c computes Keccak-f[800]: 22 rounds of
  the five step mappings with the rotation offsets and round constants of the specification.\<close>

theorem ethash_keccakf800_correct: "ethash_keccakf800 s = keccak_f_spec 5 22 s"
  using keccakf800_loop_spec [of 0 s] by (simp add: ethash_keccakf800_def keccak_f_spec_def)


lemma ethash_keccakf1600_correct_aux: "ethash_keccakf1600 s = keccak_f_spec 6 24 s"
  using keccakf1600_loop_spec [of 0 s] by (simp add: ethash_keccakf1600_def keccak_f_spec_def)

section \<open>The sponge loops are the specified sponge\<close>

lemma length_keccak_round_spec [simp]: "length (keccak_round_spec rc s) = 25"
  by (simp add: keccak_round_spec_def)

lemma length_keccak_f_spec [simp]: "0 < nr \<Longrightarrow> length (keccak_f_spec l nr s) = 25"
  by (cases nr) (simp_all add: keccak_f_spec_def)

lemma length_absorb [simp]: "length (absorb st blk) = 25"
  by (simp add: absorb_def)

lemma length_keccak_absorb_words [simp]:
  "length (keccak_absorb_words i n st data) = length st"
  by (induction n arbitrary: i st data) simp_all

lemma nth_keccak_absorb_words:
  "i + n \<le> length st \<Longrightarrow> k < length st \<Longrightarrow>
   keccak_absorb_words i n st data ! k =
     (if i \<le> k \<and> k < i + n then st ! k XOR load_le (drop (8 * (k - i)) data) else st ! k)"
proof (induction n arbitrary: i st data)
  case 0
  then show ?case by auto
next
  case (Suc n)
  show ?case
  proof (cases "k = i")
    case True
    with Suc show ?thesis by auto
  next
    case False
    then have "Suc i \<le> k \<Longrightarrow> 8 + 8 * (k - Suc i) = 8 * (k - i)" by simp
    with Suc False show ?thesis by (auto simp: drop_drop add.commute)
  qed
qed

lemma keccak_absorb_block:
  assumes "length st = 25" and "n \<le> 25" and "8 * n \<le> length data"
  shows "ethash_keccakf1600 (keccak_absorb_words 0 n st data) = absorb st (take (8 * n) data)"
proof -
  have "keccak_absorb_words 0 n st data =
      map (\<lambda>i. st ! i XOR le_word (take 8 (drop (8 * i) (take (8 * n) data)))) [0..<25]"
  proof (rule nth_equalityI)
    fix k assume "k < length (keccak_absorb_words 0 n st data)"
    moreover have "8 * n - 8 * k = 8 * (n - k)" by simp
    ultimately show "keccak_absorb_words 0 n st data ! k = map (\<lambda>i. st ! i XOR
        le_word (take 8 (drop (8 * i) (take (8 * n) data)))) [0..<25] ! k"
      using assms by (cases "k < n")
        (simp_all add: nth_keccak_absorb_words load_le_def drop_take take_take min_def)
  qed (use assms in simp)
  then show ?thesis by (simp add: absorb_def ethash_keccakf1600_correct_aux)
qed

lemma keccak_tail_words_eq:
  "keccak_tail_words i st data =
     (i + length data div 8, keccak_absorb_words i (length data div 8) st data,
      drop (8 * (length data div 8)) data)"
proof (induction i st data rule: keccak_tail_words.induct)
  case (1 i st data)
  show ?case
  proof (cases "8 \<le> length data")
    case True
    then have "length data div 8 = Suc (length (drop 8 data) div 8)"
      by (simp add: le_div_geq)
    with 1 True show ?thesis by (simp add: keccak_tail_words.simps [of i] add.commute)
  next
    case False
    then show ?thesis by (simp add: keccak_tail_words.simps [of i])
  qed
qed

lemma keccak_tail_bytes_eq:
  "keccak_tail_bytes (length xs) (xs @ replicate (length data + m) 0) data =
     (length xs + length data, xs @ data @ replicate m 0)"
proof (induction data arbitrary: xs)
  case Nil
  show ?case by simp
next
  case (Cons d data)
  show ?case using Cons.IH [of "xs @ [d]"] by (simp add: list_update_append)
qed

lemma keccak_last_word:
  assumes "length data < 8"
  shows "case keccak_tail_bytes 0 (replicate 8 0) data of
           (i, w) \<Rightarrow> le_word (w[i := 0x01]) = le_word (data @ [0x01])"
proof -
  define m where "m = 7 - length data"
  have m: "8 = length data + Suc m" using assms by (simp add: m_def)
  have "keccak_tail_bytes 0 (replicate 8 0) data = (length data, data @ replicate (Suc m) 0)"
    using keccak_tail_bytes_eq [of "[]" data "Suc m"] unfolding m by simp
  then show ?thesis
    using le_word_append_zeros [of "data @ [0x01]" m] by (simp add: list_update_append)
qed

lemma bit_0x80: "bit (0x80 :: byte) n \<longleftrightarrow> n = 7"
proof -
  have "(0x80 :: byte) = push_bit 7 1" by simp
  then show ?thesis by (simp only: bit_push_bit_iff) (auto simp: bit_simps)
qed

lemma bit_top_lane: "bit (0x8000000000000000 :: u64) n \<longleftrightarrow> n = 63"
proof -
  have "(0x8000000000000000 :: u64) = push_bit 63 1" by simp
  then show ?thesis by (simp only: bit_push_bit_iff) (auto simp: bit_simps)
qed

lemma nth_pad_block:
  assumes "length rest < rate" and "k < rate"
  shows "pad_block rate rest ! k =
    (if k < length rest then rest ! k else if k = length rest then 0x01 else 0) XOR
    (if k = rate - 1 then 0x80 else 0)"
  using assms by (auto simp: pad_block_def Let_def nth_append nth_list_update nth_Cons')

lemma length_pad_block: "length rest < rate \<Longrightarrow> length (pad_block rate rest) = rate"
  by (simp add: pad_block_def Let_def)

lemma pad_block_lane:
  assumes rest: "length rest < 8 * n"
  shows "le_word (take 8 (drop (8 * i) (pad_block (8 * n) rest))) =
    (if i < length rest div 8 then le_word (take 8 (drop (8 * i) rest))
     else if i = length rest div 8 then le_word (drop (8 * i) rest @ [0x01]) else 0) XOR
    (if i = n - 1 then 0x8000000000000000 else (0 :: u64))"
proof (rule bit_word_eqI)
  fix m assume "m < LENGTH(64)"
  then have m: "m < 64" by simp
  define d r where "d = m div 8" and "r = m mod 8"
  have mdr: "m = 8 * d + r" by (simp add: d_def r_def)
  have d: "d < 8" and r: "r < 8" using m by (simp_all add: d_def r_def)
  have top: "m = 63 \<longleftrightarrow> d = 7 \<and> r = 7" using d r mdr by presburger
  have n0: "0 < n" using rest by auto
  have last: "8 * i + d = 8 * n - 1 \<longleftrightarrow> i = n - 1 \<and> d = 7"
    using n0 d by presburger
  have bound: "d < 8 * n - 8 * i \<longleftrightarrow> i < n" using d by auto
  let ?body = "if 8 * i + d < length rest then bit (rest ! (8 * i + d)) r
               else 8 * i + d = length rest \<and> r = 0"
  have pad: "bit (le_word (take 8 (drop (8 * i) (pad_block (8 * n) rest))) :: u64) m \<longleftrightarrow>
     i < n \<and> ?body \<noteq> (i = n - 1 \<and> d = 7 \<and> r = 7)"
  proof (cases "i < n")
    case True
    then have "8 * i + d < 8 * n" using d by auto
    with rest have "bit (pad_block (8 * n) rest ! (8 * i + d)) r \<longleftrightarrow>
        ?body \<noteq> (8 * i + d = 8 * n - 1 \<and> r = 7)"
      by (simp add: nth_pad_block bit_xor_iff bit_0x80 bit_1_iff del: bit_numeral_word_iff)
    then show ?thesis
      using True rest d m
      by (simp add: bit_le_word length_pad_block bound last [unfolded One_nat_def] d_def [symmetric] r_def [symmetric])
  next
    case False
    then show ?thesis using rest by (simp add: bit_le_word length_pad_block)
  qed
  have body: "bit (if i < length rest div 8 then le_word (take 8 (drop (8 * i) rest))
     else if i = length rest div 8 then le_word (drop (8 * i) rest @ [0x01]) else (0 :: u64)) m
     \<longleftrightarrow> ?body"
  proof -
    consider "8 * i + 8 \<le> length rest" | "8 * i \<le> length rest" "length rest < 8 * i + 8"
      | "length rest < 8 * i" by linarith
    then show ?thesis
    proof cases
      case 1
      then have "i < length rest div 8" by auto
      with 1 show ?thesis
        using d m by (simp add: bit_le_word d_def [symmetric] r_def [symmetric])
    next
      case 2
      then have "i = length rest div 8" by auto
      with 2 show ?thesis
        using d m by (simp add: bit_le_word nth_append nth_Cons' bit_1_iff d_def [symmetric]
            r_def [symmetric]) auto
    next
      case 3
      then have "length rest div 8 < i" by auto
      with 3 show ?thesis by simp
    qed
  qed
  have out: "\<not> ?body" if "\<not> i < n" using rest that by auto
  have lane: "bit (if i = n - 1 then 0x8000000000000000 else (0 :: u64)) m \<longleftrightarrow>
     i = n - 1 \<and> d = 7 \<and> r = 7"
    by (simp add: bit_top_lane top del: bit_numeral_word_iff)
  show "bit (le_word (take 8 (drop (8 * i) (pad_block (8 * n) rest))) :: u64) m =
    bit ((if i < length rest div 8 then le_word (take 8 (drop (8 * i) rest))
     else if i = length rest div 8 then le_word (drop (8 * i) rest @ [0x01]) else 0) XOR
    (if i = n - 1 then 0x8000000000000000 else (0 :: u64))) m"
    unfolding pad bit_xor_iff body lane using n0 out by (cases "i < n") (simp_all, linarith)
qed

lemma keccak_final_block:
  assumes st: "length st = 25" and n: "n \<le> 25" and rest: "length rest < 8 * n"
    and w: "le_word w = (le_word (drop (8 * (length rest div 8)) rest @ [0x01]) :: u64)"
  shows "(let s = keccak_absorb_words 0 (length rest div 8) st rest;
              q = length rest div 8;
              s = s[q := s ! q XOR le_word w]
          in s[n - 1 := s ! (n - 1) XOR 0x8000000000000000]) =
         map (\<lambda>i. st ! i XOR le_word (take 8 (drop (8 * i) (pad_block (8 * n) rest)))) [0..<25]"
proof -
  have "length rest div 8 < n" using rest by auto
  then show ?thesis
    using st n w
    by (intro nth_equalityI)
      (auto simp: Let_def pad_block_lane [OF rest] nth_list_update nth_keccak_absorb_words
        load_le_def xor.assoc)
qed

lemma sponge_absorb_blocks:
  assumes "rate = 8 * n" and "0 < n" and "n \<le> 25" and "length st = 25"
    and "keccak_absorb_blocks rate st data = (st', rest)"
  shows "length rest < rate \<and> length st' = 25 \<and>
    sponge_absorb rate st data = absorb st' (pad_block rate rest)"
  using assms
proof (induction rate st data rule: keccak_absorb_blocks.induct)
  case (1 rate st data)
  show ?case
  proof (cases "rate \<le> length data")
    case True
    have step: "ethash_keccakf1600 (keccak_absorb_words 0 (rate div 8) st data) =
        absorb st (take rate data)"
      using keccak_absorb_block [of st n data] True "1.prems" by simp
    then have "keccak_absorb_blocks rate (absorb st (take rate data)) (drop rate data) = (st', rest)"
      using "1.prems" True keccak_absorb_blocks.simps [of rate st data] by simp
    then have "length rest < rate \<and> length st' = 25 \<and>
        sponge_absorb rate (absorb st (take rate data)) (drop rate data) =
          absorb st' (pad_block rate rest)"
      using True "1.prems" by (intro "1.IH" [unfolded step]) simp_all
    moreover have "sponge_absorb rate st data =
        sponge_absorb rate (absorb st (take rate data)) (drop rate data)"
      using True "1.prems" by (subst sponge_absorb.simps) simp
    ultimately show ?thesis by simp
  next
    case False
    with "1.prems" show ?thesis
      by (subst (asm) keccak_absorb_blocks.simps, subst sponge_absorb.simps) simp
  qed
qed

lemma keccak_sponge:
  assumes rate: "(1600 - bits * 2) div 8 = 8 * n" and n: "0 < n" "n \<le> 25"
  shows "keccak bits data = take (bits div 64) (sponge_absorb (8 * n) (replicate 25 0) data)"
proof -
  obtain st rest where b: "keccak_absorb_blocks (8 * n) (replicate 25 0) data = (st, rest)"
    by (cases "keccak_absorb_blocks (8 * n) (replicate 25 0) data")
  from sponge_absorb_blocks [OF refl n _ b]
  have rest: "length rest < 8 * n" and st: "length st = 25"
    and sp: "sponge_absorb (8 * n) (replicate 25 0) data = absorb st (pad_block (8 * n) rest)"
    by simp_all
  obtain i w where t: "keccak_tail_bytes 0 (replicate 8 0) (drop (8 * (length rest div 8)) rest)
      = (i, w)"
    by (cases "keccak_tail_bytes 0 (replicate 8 0) (drop (8 * (length rest div 8)) rest)")
  have "length (drop (8 * (length rest div 8)) rest) < 8"
    by (simp add: minus_mult_div_eq_mod)
  from keccak_last_word [OF this] have w: "le_word (w[i := 0x01]) =
      (le_word (drop (8 * (length rest div 8)) rest @ [0x01]) :: u64)"
    by (simp add: t)
  have "bits div 8 div 8 = bits div 64" by (simp flip: div_mult2_eq)
  then show ?thesis
    using keccak_final_block [OF st n(2) rest w]
    by (simp add: keccak_def rate b keccak_tail_words_eq t sp Let_def absorb_def
        ethash_keccakf1600_correct_aux)
qed

text \<open>C9: the 64-bit permutation of keccakf1600.c and the sponge of keccak.c together compute Keccak-256
  of the message (rate 136, four output lanes), for messages of every length.\<close>

theorem ethash_keccak256_correct:
  "ethash_keccak256 data = take 4 (sponge_absorb 136 (replicate 25 0) data)"
  using keccak_sponge [of 256 17 data] by (simp add: ethash_keccak256_def)

text \<open>likewise Keccak-512 (rate 72, eight output lanes).\<close>

theorem ethash_keccak512_correct:
  "ethash_keccak512 data = take 8 (sponge_absorb 72 (replicate 25 0) data)"
  using keccak_sponge [of 512 9 data] by (simp add: ethash_keccak512_def)

end
