(* ===== verification/XXHash.thy ===== *)
theory XXHash
  imports Prelude
begin

text \<open>
  The xxHash library (xxhash/xxhash.c), 32- and 64-bit: the one-shot functions, the streaming
  state with \<open>reset\<close>, \<open>update\<close> and \<open>digest\<close>, and the canonical (big-endian) representation. Memory
  is a list of bytes; the byte order of the machine is the parameter \<open>host\<close>, read by
  \<open>XXH_CPU_LITTLE_ENDIAN\<close> in the source, and a NULL input pointer is \<open>None\<close>. The build options keep
  their defaults: \<open>XXH_ACCEPT_NULL_INPUT_POINTER\<close> and \<open>XXH_FORCE_NATIVE_FORMAT\<close> are 0. Aligned and
  unaligned reads give the same value, so the alignment argument is left out. A \<open>switch\<close> whose
  cases fall through is a tail call to the next label.
\<close>

datatype XXH_endianess = XXH_bigEndian | XXH_littleEndian

datatype XXH_errorcode = XXH_OK | XXH_ERROR

text \<open>\<open>memcpy(dst + off, src, length src)\<close> inside a buffer that is long enough.\<close>

definition memcpy :: "byte list \<Rightarrow> nat \<Rightarrow> byte list \<Rightarrow> byte list" where
  "memcpy dst off src = take off dst @ src @ drop (off + length src) dst"

text \<open>The \<open>do ... while (p <= limit)\<close> loop over whole stripes of \<open>w\<close> bytes.\<close>

function do_stripes :: "('v \<Rightarrow> byte list \<Rightarrow> 'v) \<Rightarrow> nat \<Rightarrow> 'v \<Rightarrow> byte list \<Rightarrow> 'v \<times> byte list" where
  "do_stripes f w v p =
     (let v = f v p; p = drop w p
      in if 0 < w \<and> w \<le> length p then do_stripes f w v p else (v, p))"
  by pat_completeness auto
termination
  by (relation "measure (\<lambda>(f, w, v, p). length p)") auto

declare do_stripes.simps [simp del]

section \<open>The 32-bit hash\<close>

definition XXH_read32 :: "XXH_endianess \<Rightarrow> byte list \<Rightarrow> u32" where
  "XXH_read32 host mem =
     (case host of XXH_littleEndian \<Rightarrow> le_word (take 4 mem) | XXH_bigEndian \<Rightarrow> le_word (rev (take 4 mem)))"

definition XXH_swap32 :: "u32 \<Rightarrow> u32" where
  "XXH_swap32 x =
     (push_bit 24 x AND 0xff000000) OR
     (push_bit 8 x AND 0x00ff0000) OR
     (drop_bit 8 x AND 0x0000ff00) OR
     (drop_bit 24 x AND 0x000000ff)"

definition XXH_readLE32 :: "XXH_endianess \<Rightarrow> byte list \<Rightarrow> XXH_endianess \<Rightarrow> u32" where
  "XXH_readLE32 host ptr endian =
     (if endian = XXH_littleEndian then XXH_read32 host ptr else XXH_swap32 (XXH_read32 host ptr))"

definition XXH_readBE32 :: "XXH_endianess \<Rightarrow> byte list \<Rightarrow> u32" where
  "XXH_readBE32 host ptr =
     (if host = XXH_littleEndian then XXH_swap32 (XXH_read32 host ptr) else XXH_read32 host ptr)"

definition PRIME32_1 :: u32 where "PRIME32_1 = 2654435761"
definition PRIME32_2 :: u32 where "PRIME32_2 = 2246822519"
definition PRIME32_3 :: u32 where "PRIME32_3 = 3266489917"
definition PRIME32_4 :: u32 where "PRIME32_4 = 668265263"
definition PRIME32_5 :: u32 where "PRIME32_5 = 374761393"

definition XXH_rotl32 :: "u32 \<Rightarrow> nat \<Rightarrow> u32" where
  "XXH_rotl32 x r = push_bit r x OR drop_bit (32 - r) x"

definition XXH32_round :: "u32 \<Rightarrow> u32 \<Rightarrow> u32" where
  "XXH32_round seed input =
     (let seed = seed + input * PRIME32_2;
          seed = XXH_rotl32 seed 13
      in seed * PRIME32_1)"

definition XXH32_avalanche :: "u32 \<Rightarrow> u32" where
  "XXH32_avalanche h32 =
     (let h32 = h32 XOR drop_bit 15 h32;
          h32 = h32 * PRIME32_2;
          h32 = h32 XOR drop_bit 13 h32;
          h32 = h32 * PRIME32_3;
          h32 = h32 XOR drop_bit 16 h32
      in h32)"

fun PROCESS1 :: "u32 \<times> byte list \<Rightarrow> u32 \<times> byte list" where
  "PROCESS1 (h32, p) =
     (let h32 = h32 + ucast (p ! 0) * PRIME32_5
      in (XXH_rotl32 h32 11 * PRIME32_1, drop 1 p))"

fun PROCESS4 :: "XXH_endianess \<Rightarrow> XXH_endianess \<Rightarrow> u32 \<times> byte list \<Rightarrow> u32 \<times> byte list" where
  "PROCESS4 host endian (h32, p) =
     (let h32 = h32 + XXH_readLE32 host p endian * PRIME32_3
      in (XXH_rotl32 h32 17 * PRIME32_4, drop 4 p))"

function XXH32_switch :: "XXH_endianess \<Rightarrow> XXH_endianess \<Rightarrow> nat \<Rightarrow> u32 \<times> byte list \<Rightarrow> u32" where
  "XXH32_switch host endian k s =
     (if k \<in> {12, 8, 13, 9, 14, 10, 15, 11, 7}
      then XXH32_switch host endian (k - 4) (PROCESS4 host endian s)
      else if k = 4 then XXH32_avalanche (fst (PROCESS4 host endian s))
      else if k = 5 then XXH32_avalanche (fst (PROCESS1 (PROCESS4 host endian s)))
      else if k = 6 then XXH32_avalanche (fst (PROCESS1 (PROCESS1 (PROCESS4 host endian s))))
      else if k \<in> {3, 2, 1} then XXH32_switch host endian (k - 1) (PROCESS1 s)
      else XXH32_avalanche (fst s))"
  by pat_completeness auto
termination
  by (relation "measure (\<lambda>(h, e, k, s). k)") auto

declare XXH32_switch.simps [simp del]

definition XXH32_finalize :: "XXH_endianess \<Rightarrow> u32 \<Rightarrow> byte list \<Rightarrow> nat \<Rightarrow> XXH_endianess \<Rightarrow> u32" where
  "XXH32_finalize host h32 ptr len endian = XXH32_switch host endian (len mod 16) (h32, ptr)"

fun XXH32_stripe ::
    "XXH_endianess \<Rightarrow> XXH_endianess \<Rightarrow> u32 \<times> u32 \<times> u32 \<times> u32 \<Rightarrow> byte list \<Rightarrow> u32 \<times> u32 \<times> u32 \<times> u32" where
  "XXH32_stripe host endian (v1, v2, v3, v4) p =
     (XXH32_round v1 (XXH_readLE32 host p endian),
      XXH32_round v2 (XXH_readLE32 host (drop 4 p) endian),
      XXH32_round v3 (XXH_readLE32 host (drop 8 p) endian),
      XXH32_round v4 (XXH_readLE32 host (drop 12 p) endian))"

definition XXH32_endian_align :: "XXH_endianess \<Rightarrow> byte list \<Rightarrow> u32 \<Rightarrow> XXH_endianess \<Rightarrow> u32" where
  "XXH32_endian_align host input seed endian =
     (let len = length input;
          (h32, p) =
            (if 16 \<le> len then
               let ((v1, v2, v3, v4), p) = do_stripes (XXH32_stripe host endian) 16
                     (seed + PRIME32_1 + PRIME32_2, seed + PRIME32_2, seed + 0, seed - PRIME32_1) input
               in (XXH_rotl32 v1 1 + XXH_rotl32 v2 7 + XXH_rotl32 v3 12 + XXH_rotl32 v4 18, p)
             else (seed + PRIME32_5, input));
          h32 = h32 + of_nat len
      in XXH32_finalize host h32 p (len mod 16) endian)"

definition XXH32 :: "XXH_endianess \<Rightarrow> byte list \<Rightarrow> u32 \<Rightarrow> u32" where
  "XXH32 host input seed =
     (if host = XXH_littleEndian then XXH32_endian_align host input seed XXH_littleEndian
      else XXH32_endian_align host input seed XXH_bigEndian)"

record XXH32_state =
  total_len_32 :: u32
  large_len :: bool
  v1_32 :: u32
  v2_32 :: u32
  v3_32 :: u32
  v4_32 :: u32
  mem32 :: "byte list"
  memsize32 :: nat

definition XXH32_reset :: "u32 \<Rightarrow> XXH32_state" where
  "XXH32_reset seed =
     \<lparr>total_len_32 = 0, large_len = False, v1_32 = seed + PRIME32_1 + PRIME32_2, v2_32 = seed + PRIME32_2,
      v3_32 = seed + 0, v4_32 = seed - PRIME32_1, mem32 = replicate 16 0, memsize32 = 0\<rparr>"

definition XXH32_update_endian ::
    "XXH_endianess \<Rightarrow> XXH32_state \<Rightarrow> byte list option \<Rightarrow> XXH_endianess \<Rightarrow> XXH_errorcode \<times> XXH32_state" where
  "XXH32_update_endian host state input endian =
    (case input of None \<Rightarrow> (XXH_ERROR, state)
     | Some p \<Rightarrow>
       let state = state\<lparr>total_len_32 := total_len_32 state + of_nat (length p)\<rparr>;
           state = state\<lparr>large_len := large_len state \<or> 16 \<le> length p \<or> 16 \<le> total_len_32 state\<rparr> in
       if memsize32 state + length p < 16
       then (XXH_OK, state\<lparr>mem32 := memcpy (mem32 state) (memsize32 state) p,
                           memsize32 := memsize32 state + length p\<rparr>)
       else
         let (state, p) =
               (if memsize32 state \<noteq> 0 then
                  let state = state\<lparr>mem32 := memcpy (mem32 state) (memsize32 state)
                                                  (take (16 - memsize32 state) p)\<rparr>;
                      (v1, v2, v3, v4) = XXH32_stripe host endian
                        (v1_32 state, v2_32 state, v3_32 state, v4_32 state) (mem32 state)
                  in (state\<lparr>v1_32 := v1, v2_32 := v2, v3_32 := v3, v4_32 := v4, memsize32 := 0\<rparr>,
                      drop (16 - memsize32 state) p)
                else (state, p));
             (state, p) =
               (if 16 \<le> length p then
                  let ((v1, v2, v3, v4), p) = do_stripes (XXH32_stripe host endian) 16
                        (v1_32 state, v2_32 state, v3_32 state, v4_32 state) p
                  in (state\<lparr>v1_32 := v1, v2_32 := v2, v3_32 := v3, v4_32 := v4\<rparr>, p)
                else (state, p));
             state =
               (if 0 < length p
                then state\<lparr>mem32 := memcpy (mem32 state) 0 p, memsize32 := length p\<rparr>
                else state)
         in (XXH_OK, state))"

definition XXH32_update ::
    "XXH_endianess \<Rightarrow> XXH32_state \<Rightarrow> byte list option \<Rightarrow> XXH_errorcode \<times> XXH32_state" where
  "XXH32_update host state_in input =
     (if host = XXH_littleEndian then XXH32_update_endian host state_in input XXH_littleEndian
      else XXH32_update_endian host state_in input XXH_bigEndian)"

definition XXH32_digest_endian :: "XXH_endianess \<Rightarrow> XXH32_state \<Rightarrow> XXH_endianess \<Rightarrow> u32" where
  "XXH32_digest_endian host state endian =
     (let h32 =
            (if large_len state
             then XXH_rotl32 (v1_32 state) 1 + XXH_rotl32 (v2_32 state) 7
                  + XXH_rotl32 (v3_32 state) 12 + XXH_rotl32 (v4_32 state) 18
             else v3_32 state + PRIME32_5);
          h32 = h32 + total_len_32 state
      in XXH32_finalize host h32 (mem32 state) (memsize32 state) endian)"

definition XXH32_digest :: "XXH_endianess \<Rightarrow> XXH32_state \<Rightarrow> u32" where
  "XXH32_digest host state_in =
     (if host = XXH_littleEndian then XXH32_digest_endian host state_in XXH_littleEndian
      else XXH32_digest_endian host state_in XXH_bigEndian)"

definition XXH32_canonicalFromHash :: "XXH_endianess \<Rightarrow> u32 \<Rightarrow> byte list" where
  "XXH32_canonicalFromHash host hash =
     (let hash = (if host = XXH_littleEndian then XXH_swap32 hash else hash);
          bytes = map (\<lambda>i. ucast (drop_bit (8 * i) hash)) [0..<4]
      in if host = XXH_littleEndian then bytes else rev bytes)"

definition XXH32_hashFromCanonical :: "XXH_endianess \<Rightarrow> byte list \<Rightarrow> u32" where
  "XXH32_hashFromCanonical host src = XXH_readBE32 host src"

section \<open>The 64-bit hash\<close>

definition XXH_read64 :: "XXH_endianess \<Rightarrow> byte list \<Rightarrow> u64" where
  "XXH_read64 host mem =
     (case host of XXH_littleEndian \<Rightarrow> le_word (take 8 mem) | XXH_bigEndian \<Rightarrow> le_word (rev (take 8 mem)))"

definition XXH_swap64 :: "u64 \<Rightarrow> u64" where
  "XXH_swap64 x =
     (push_bit 56 x AND 0xff00000000000000) OR
     (push_bit 40 x AND 0x00ff000000000000) OR
     (push_bit 24 x AND 0x0000ff0000000000) OR
     (push_bit 8 x AND 0x000000ff00000000) OR
     (drop_bit 8 x AND 0x00000000ff000000) OR
     (drop_bit 24 x AND 0x0000000000ff0000) OR
     (drop_bit 40 x AND 0x000000000000ff00) OR
     (drop_bit 56 x AND 0x00000000000000ff)"

definition XXH_readLE64 :: "XXH_endianess \<Rightarrow> byte list \<Rightarrow> XXH_endianess \<Rightarrow> u64" where
  "XXH_readLE64 host ptr endian =
     (if endian = XXH_littleEndian then XXH_read64 host ptr else XXH_swap64 (XXH_read64 host ptr))"

definition XXH_readBE64 :: "XXH_endianess \<Rightarrow> byte list \<Rightarrow> u64" where
  "XXH_readBE64 host ptr =
     (if host = XXH_littleEndian then XXH_swap64 (XXH_read64 host ptr) else XXH_read64 host ptr)"

definition PRIME64_1 :: u64 where "PRIME64_1 = 11400714785074694791"
definition PRIME64_2 :: u64 where "PRIME64_2 = 14029467366897019727"
definition PRIME64_3 :: u64 where "PRIME64_3 = 1609587929392839161"
definition PRIME64_4 :: u64 where "PRIME64_4 = 9650029242287828579"
definition PRIME64_5 :: u64 where "PRIME64_5 = 2870177450012600261"

definition XXH_rotl64 :: "u64 \<Rightarrow> nat \<Rightarrow> u64" where
  "XXH_rotl64 x r = push_bit r x OR drop_bit (64 - r) x"

definition XXH64_round :: "u64 \<Rightarrow> u64 \<Rightarrow> u64" where
  "XXH64_round acc input =
     (let acc = acc + input * PRIME64_2;
          acc = XXH_rotl64 acc 31
      in acc * PRIME64_1)"

definition XXH64_mergeRound :: "u64 \<Rightarrow> u64 \<Rightarrow> u64" where
  "XXH64_mergeRound acc val =
     (let val = XXH64_round 0 val;
          acc = acc XOR val
      in acc * PRIME64_1 + PRIME64_4)"

definition XXH64_avalanche :: "u64 \<Rightarrow> u64" where
  "XXH64_avalanche h64 =
     (let h64 = h64 XOR drop_bit 33 h64;
          h64 = h64 * PRIME64_2;
          h64 = h64 XOR drop_bit 29 h64;
          h64 = h64 * PRIME64_3;
          h64 = h64 XOR drop_bit 32 h64
      in h64)"

fun PROCESS1_64 :: "u64 \<times> byte list \<Rightarrow> u64 \<times> byte list" where
  "PROCESS1_64 (h64, p) =
     (let h64 = h64 XOR ucast (p ! 0) * PRIME64_5
      in (XXH_rotl64 h64 11 * PRIME64_1, drop 1 p))"

fun PROCESS4_64 :: "XXH_endianess \<Rightarrow> XXH_endianess \<Rightarrow> u64 \<times> byte list \<Rightarrow> u64 \<times> byte list" where
  "PROCESS4_64 host endian (h64, p) =
     (let h64 = h64 XOR ucast (XXH_readLE32 host p endian) * PRIME64_1
      in (XXH_rotl64 h64 23 * PRIME64_2 + PRIME64_3, drop 4 p))"

fun PROCESS8_64 :: "XXH_endianess \<Rightarrow> XXH_endianess \<Rightarrow> u64 \<times> byte list \<Rightarrow> u64 \<times> byte list" where
  "PROCESS8_64 host endian (h64, p) =
     (let k1 = XXH64_round 0 (XXH_readLE64 host p endian);
          h64 = h64 XOR k1
      in (XXH_rotl64 h64 27 * PRIME64_1 + PRIME64_4, drop 8 p))"

function XXH64_switch :: "XXH_endianess \<Rightarrow> XXH_endianess \<Rightarrow> nat \<Rightarrow> u64 \<times> byte list \<Rightarrow> u64" where
  "XXH64_switch host endian k s =
     (if k \<in> {24, 16, 28, 20, 12, 25, 17, 29, 21, 13, 26, 18, 30, 22, 14, 27, 19, 31, 23, 15}
      then XXH64_switch host endian (k - 8) (PROCESS8_64 host endian s)
      else if k = 8 then XXH64_avalanche (fst (PROCESS8_64 host endian s))
      else if k = 4 then XXH64_avalanche (fst (PROCESS4_64 host endian s))
      else if k = 9 then XXH64_avalanche (fst (PROCESS1_64 (PROCESS8_64 host endian s)))
      else if k = 5 then XXH64_avalanche (fst (PROCESS1_64 (PROCESS4_64 host endian s)))
      else if k = 10
      then XXH64_avalanche (fst (PROCESS1_64 (PROCESS1_64 (PROCESS8_64 host endian s))))
      else if k = 6
      then XXH64_avalanche (fst (PROCESS1_64 (PROCESS1_64 (PROCESS4_64 host endian s))))
      else if k = 11
      then XXH64_avalanche (fst (PROCESS1_64 (PROCESS1_64 (PROCESS1_64 (PROCESS8_64 host endian s)))))
      else if k = 7 then XXH64_switch host endian 3 (PROCESS4_64 host endian s)
      else if k \<in> {3, 2, 1} then XXH64_switch host endian (k - 1) (PROCESS1_64 s)
      else XXH64_avalanche (fst s))"
  by pat_completeness auto
termination
  by (relation "measure (\<lambda>(h, e, k, s). k)") auto

declare XXH64_switch.simps [simp del]

definition XXH64_finalize :: "XXH_endianess \<Rightarrow> u64 \<Rightarrow> byte list \<Rightarrow> nat \<Rightarrow> XXH_endianess \<Rightarrow> u64" where
  "XXH64_finalize host h64 ptr len endian = XXH64_switch host endian (len mod 32) (h64, ptr)"

fun XXH64_stripe ::
    "XXH_endianess \<Rightarrow> XXH_endianess \<Rightarrow> u64 \<times> u64 \<times> u64 \<times> u64 \<Rightarrow> byte list \<Rightarrow> u64 \<times> u64 \<times> u64 \<times> u64" where
  "XXH64_stripe host endian (v1, v2, v3, v4) p =
     (XXH64_round v1 (XXH_readLE64 host p endian),
      XXH64_round v2 (XXH_readLE64 host (drop 8 p) endian),
      XXH64_round v3 (XXH_readLE64 host (drop 16 p) endian),
      XXH64_round v4 (XXH_readLE64 host (drop 24 p) endian))"

definition XXH64_converge :: "u64 \<times> u64 \<times> u64 \<times> u64 \<Rightarrow> u64" where
  "XXH64_converge v =
     (case v of (v1, v2, v3, v4) \<Rightarrow>
        let h64 = XXH_rotl64 v1 1 + XXH_rotl64 v2 7 + XXH_rotl64 v3 12 + XXH_rotl64 v4 18;
            h64 = XXH64_mergeRound h64 v1;
            h64 = XXH64_mergeRound h64 v2;
            h64 = XXH64_mergeRound h64 v3;
            h64 = XXH64_mergeRound h64 v4
        in h64)"

definition XXH64_endian_align :: "XXH_endianess \<Rightarrow> byte list \<Rightarrow> u64 \<Rightarrow> XXH_endianess \<Rightarrow> u64" where
  "XXH64_endian_align host input seed endian =
     (let len = length input;
          (h64, p) =
            (if 32 \<le> len then
               let (v, p) = do_stripes (XXH64_stripe host endian) 32
                     (seed + PRIME64_1 + PRIME64_2, seed + PRIME64_2, seed + 0, seed - PRIME64_1) input
               in (XXH64_converge v, p)
             else (seed + PRIME64_5, input));
          h64 = h64 + of_nat len
      in XXH64_finalize host h64 p len endian)"

definition XXH64 :: "XXH_endianess \<Rightarrow> byte list \<Rightarrow> u64 \<Rightarrow> u64" where
  "XXH64 host input seed =
     (if host = XXH_littleEndian then XXH64_endian_align host input seed XXH_littleEndian
      else XXH64_endian_align host input seed XXH_bigEndian)"

record XXH64_state =
  total_len :: u64
  v1_64 :: u64
  v2_64 :: u64
  v3_64 :: u64
  v4_64 :: u64
  mem64 :: "byte list"
  memsize64 :: nat

definition XXH64_reset :: "u64 \<Rightarrow> XXH64_state" where
  "XXH64_reset seed =
     \<lparr>total_len = 0, v1_64 = seed + PRIME64_1 + PRIME64_2, v2_64 = seed + PRIME64_2,
      v3_64 = seed + 0, v4_64 = seed - PRIME64_1, mem64 = replicate 32 0, memsize64 = 0\<rparr>"

definition XXH64_update_endian ::
    "XXH_endianess \<Rightarrow> XXH64_state \<Rightarrow> byte list option \<Rightarrow> XXH_endianess \<Rightarrow> XXH_errorcode \<times> XXH64_state" where
  "XXH64_update_endian host state input endian =
    (case input of None \<Rightarrow> (XXH_ERROR, state)
     | Some p \<Rightarrow>
       let state = state\<lparr>total_len := total_len state + of_nat (length p)\<rparr> in
       if memsize64 state + length p < 32
       then (XXH_OK, state\<lparr>mem64 := memcpy (mem64 state) (memsize64 state) p,
                           memsize64 := memsize64 state + length p\<rparr>)
       else
         let (state, p) =
               (if memsize64 state \<noteq> 0 then
                  let state = state\<lparr>mem64 := memcpy (mem64 state) (memsize64 state)
                                                  (take (32 - memsize64 state) p)\<rparr>;
                      (v1, v2, v3, v4) = XXH64_stripe host endian
                        (v1_64 state, v2_64 state, v3_64 state, v4_64 state) (mem64 state)
                  in (state\<lparr>v1_64 := v1, v2_64 := v2, v3_64 := v3, v4_64 := v4, memsize64 := 0\<rparr>,
                      drop (32 - memsize64 state) p)
                else (state, p));
             (state, p) =
               (if 32 \<le> length p then
                  let ((v1, v2, v3, v4), p) = do_stripes (XXH64_stripe host endian) 32
                        (v1_64 state, v2_64 state, v3_64 state, v4_64 state) p
                  in (state\<lparr>v1_64 := v1, v2_64 := v2, v3_64 := v3, v4_64 := v4\<rparr>, p)
                else (state, p));
             state =
               (if 0 < length p
                then state\<lparr>mem64 := memcpy (mem64 state) 0 p, memsize64 := length p\<rparr>
                else state)
         in (XXH_OK, state))"

definition XXH64_update ::
    "XXH_endianess \<Rightarrow> XXH64_state \<Rightarrow> byte list option \<Rightarrow> XXH_errorcode \<times> XXH64_state" where
  "XXH64_update host state_in input =
     (if host = XXH_littleEndian then XXH64_update_endian host state_in input XXH_littleEndian
      else XXH64_update_endian host state_in input XXH_bigEndian)"

definition XXH64_digest_endian :: "XXH_endianess \<Rightarrow> XXH64_state \<Rightarrow> XXH_endianess \<Rightarrow> u64" where
  "XXH64_digest_endian host state endian =
     (let h64 =
            (if 32 \<le> total_len state
             then XXH64_converge (v1_64 state, v2_64 state, v3_64 state, v4_64 state)
             else v3_64 state + PRIME64_5);
          h64 = h64 + total_len state
      in XXH64_finalize host h64 (mem64 state) (unat (total_len state)) endian)"

definition XXH64_digest :: "XXH_endianess \<Rightarrow> XXH64_state \<Rightarrow> u64" where
  "XXH64_digest host state_in =
     (if host = XXH_littleEndian then XXH64_digest_endian host state_in XXH_littleEndian
      else XXH64_digest_endian host state_in XXH_bigEndian)"

definition XXH64_canonicalFromHash :: "XXH_endianess \<Rightarrow> u64 \<Rightarrow> byte list" where
  "XXH64_canonicalFromHash host hash =
     (let hash = (if host = XXH_littleEndian then XXH_swap64 hash else hash);
          bytes = map (\<lambda>i. ucast (drop_bit (8 * i) hash)) [0..<8]
      in if host = XXH_littleEndian then bytes else rev bytes)"

definition XXH64_hashFromCanonical :: "XXH_endianess \<Rightarrow> byte list \<Rightarrow> u64" where
  "XXH64_hashFromCanonical host src = XXH_readBE64 host src"


section \<open>Byte order\<close>

lemma push_bit_and_byte:
  "s \<le> t \<Longrightarrow> push_bit s x AND push_bit t (mask 8) =
     push_bit t (take_bit 8 (drop_bit (t - s) (x :: 'w::len word)))"
  by (rule bit_word_eqI) (auto simp: bit_simps)

lemma drop_bit_and_byte:
  "drop_bit s x AND push_bit t (mask 8) =
     push_bit t (take_bit 8 (drop_bit (s + t) (x :: 'w::len word)))"
  by (rule bit_word_eqI) (auto simp: bit_simps)

lemma byte_of_le_word:
  assumes "8 * i + 8 \<le> LENGTH('w)" and "i < length bs"
  shows "take_bit 8 (drop_bit (8 * i) (le_word bs :: 'w::len word)) = ucast (bs ! i)"
proof (rule bit_word_eqI)
  fix n assume "n < LENGTH('w)"
  show "bit (take_bit 8 (drop_bit (8 * i) (le_word bs :: 'w word))) n = bit (ucast (bs ! i) :: 'w word) n"
  proof (cases "n < 8")
    case True
    with assms show ?thesis by (simp add: bit_simps bit_le_word)
  next
    case False
    then show ?thesis by (auto simp: bit_simps dest: bit_imp_le_length)
  qed
qed

lemma byte_masks32:
  "(0xff000000 :: u32) = push_bit 24 (mask 8)" "(0x00ff0000 :: u32) = push_bit 16 (mask 8)"
  "(0x0000ff00 :: u32) = push_bit 8 (mask 8)" "(0x000000ff :: u32) = mask 8"
  by (simp_all add: mask_eq_exp_minus_1)

lemma byte_masks64:
  "(0xff00000000000000 :: u64) = push_bit 56 (mask 8)" "(0x00ff000000000000 :: u64) = push_bit 48 (mask 8)"
  "(0x0000ff0000000000 :: u64) = push_bit 40 (mask 8)" "(0x000000ff00000000 :: u64) = push_bit 32 (mask 8)"
  "(0x00000000ff000000 :: u64) = push_bit 24 (mask 8)" "(0x0000000000ff0000 :: u64) = push_bit 16 (mask 8)"
  "(0x000000000000ff00 :: u64) = push_bit 8 (mask 8)" "(0x00000000000000ff :: u64) = mask 8"
  by (simp_all add: mask_eq_exp_minus_1)

lemma swap32_le_word:
  "length bs = 4 \<Longrightarrow> XXH_swap32 (le_word (rev bs)) = le_word bs"
proof -
  assume "length bs = 4"
  then obtain b0 b1 b2 b3 where bs: "bs = [b0, b1, b2, b3]"
    by (auto simp: length_Suc_conv eval_nat_numeral)
  have b: "take_bit 8 (drop_bit (8 * i) (le_word (rev bs) :: u32)) = ucast (rev bs ! i)" if "i < 4" for i
    using that bs by (intro byte_of_le_word) simp_all
  show ?thesis
    unfolding XXH_swap32_def byte_masks32 take_bit_eq_mask [symmetric]
    using b [of 0] b [of 1] b [of 2] b [of 3]
    by (simp add: push_bit_and_byte drop_bit_and_byte bs del: le_word.simps)
      (simp add: push_bit_or ac_simps)
qed

lemma swap64_le_word:
  "length bs = 8 \<Longrightarrow> XXH_swap64 (le_word (rev bs)) = le_word bs"
proof -
  assume "length bs = 8"
  then obtain b0 b1 b2 b3 b4 b5 b6 b7 where bs: "bs = [b0, b1, b2, b3, b4, b5, b6, b7]"
    by (auto simp: length_Suc_conv eval_nat_numeral)
  have b: "take_bit 8 (drop_bit (8 * i) (le_word (rev bs) :: u64)) = ucast (rev bs ! i)" if "i < 8" for i
    using that bs by (intro byte_of_le_word) simp_all
  show ?thesis
    unfolding XXH_swap64_def byte_masks64 take_bit_eq_mask [symmetric]
    using b [of 0] b [of 1] b [of 2] b [of 3] b [of 4] b [of 5] b [of 6] b [of 7]
    by (simp add: push_bit_and_byte drop_bit_and_byte bs del: le_word.simps)
      (simp add: push_bit_or ac_simps)
qed

text \<open>On either host a little-endian read gives the same word.\<close>

lemma readLE32_host: "4 \<le> length p \<Longrightarrow> XXH_readLE32 host p host = le_word (take 4 p)"
  by (cases host) (simp_all add: XXH_readLE32_def XXH_read32_def swap32_le_word)

lemma readLE64_host: "8 \<le> length p \<Longrightarrow> XXH_readLE64 host p host = le_word (take 8 p)"
  by (cases host) (simp_all add: XXH_readLE64_def XXH_read64_def swap64_le_word)

lemma readLE32_append: "4 \<le> length p \<Longrightarrow> XXH_readLE32 host (p @ q) endian = XXH_readLE32 host p endian"
  by (cases host) (simp_all add: XXH_readLE32_def XXH_read32_def)

lemma readLE64_append: "8 \<le> length p \<Longrightarrow> XXH_readLE64 host (p @ q) endian = XXH_readLE64 host p endian"
  by (cases host) (simp_all add: XXH_readLE64_def XXH_read64_def)

text \<open>The tail switches are independent of the host and read the bytes of the tail only.\<close>

lemma XXH32_switch_host:
  "k \<le> length p \<Longrightarrow>
   XXH32_switch host host k (x, p) = XXH32_switch XXH_littleEndian XXH_littleEndian k (x, p)"
proof (induction k arbitrary: x p rule: less_induct)
  case (less k)
  then show ?case
    unfolding XXH32_switch.simps [of host host k]
      XXH32_switch.simps [of XXH_littleEndian XXH_littleEndian k]
    by (auto simp: readLE32_host Let_def)
qed

lemma XXH32_switch_append:
  "k \<le> length p \<Longrightarrow> XXH32_switch host endian k (x, p @ q) = XXH32_switch host endian k (x, p)"
proof (induction k arbitrary: x p rule: less_induct)
  case (less k)
  then show ?case
    unfolding XXH32_switch.simps [of host endian k]
    by (auto simp: readLE32_append Let_def nth_append)
qed

lemma XXH64_switch_host:
  "k \<le> length p \<Longrightarrow>
   XXH64_switch host host k (x, p) = XXH64_switch XXH_littleEndian XXH_littleEndian k (x, p)"
proof (induction k arbitrary: x p rule: less_induct)
  case (less k)
  then show ?case
    unfolding XXH64_switch.simps [of host host k]
      XXH64_switch.simps [of XXH_littleEndian XXH_littleEndian k]
    by (auto simp: readLE32_host readLE64_host Let_def)
qed

lemma XXH64_switch_append:
  "k \<le> length p \<Longrightarrow> XXH64_switch host endian k (x, p @ q) = XXH64_switch host endian k (x, p)"
proof (induction k arbitrary: x p rule: less_induct)
  case (less k)
  then show ?case
    unfolding XXH64_switch.simps [of host endian k]
    by (auto simp: readLE32_append readLE64_append Let_def nth_append)
qed

section \<open>Stripes\<close>

text \<open>The lanes after every whole stripe of a message, as a plain recursion.\<close>

function consume :: "('v \<Rightarrow> byte list \<Rightarrow> 'v) \<Rightarrow> nat \<Rightarrow> 'v \<Rightarrow> byte list \<Rightarrow> 'v" where
  "consume f w v p = (if 0 < w \<and> w \<le> length p then consume f w (f v p) (drop w p) else v)"
  by pat_completeness auto
termination
  by (relation "measure (\<lambda>(f, w, v, p). length p)") auto

declare consume.simps [simp del]

text \<open>
  \<open>buffered f w v0 data v mem n\<close>: the streaming state with lanes \<open>v\<close> and \<open>n\<close> bytes in the buffer
  \<open>mem\<close> has absorbed exactly \<open>data\<close>. \<open>stream_step\<close> is what an update that fills at least one stripe
  does to lanes, buffer and fill level.
\<close>

definition buffered ::
    "('v \<Rightarrow> byte list \<Rightarrow> 'v) \<Rightarrow> nat \<Rightarrow> 'v \<Rightarrow> byte list \<Rightarrow> 'v \<Rightarrow> byte list \<Rightarrow> nat \<Rightarrow> bool" where
  "buffered f w v0 data v mem n \<longleftrightarrow>
     length mem = w \<and> n < w \<and>
     (\<exists>full k. data = full @ take n mem \<and> length full = w * k \<and> v = consume f w v0 full)"

definition stream_step ::
    "('v \<Rightarrow> byte list \<Rightarrow> 'v) \<Rightarrow> nat \<Rightarrow> 'v \<Rightarrow> byte list \<Rightarrow> nat \<Rightarrow> byte list \<Rightarrow> 'v \<times> byte list \<times> nat" where
  "stream_step f w v mem n p =
     (let (v, mem, p) =
            (if n \<noteq> 0 then (let m = memcpy mem n (take (w - n) p) in (f v m, m, drop (w - n) p))
             else (v, mem, p));
          (v, p) = (if w \<le> length p then do_stripes f w v p else (v, p))
      in if 0 < length p then (v, memcpy mem 0 p, length p) else (v, mem, 0))"

text \<open>
  What both hashes ask of a stripe function: a positive width, and that it reads the bytes of one
  stripe only.
\<close>

locale stripe_reader =
  fixes f :: "'v \<Rightarrow> byte list \<Rightarrow> 'v" and w :: nat
  assumes width_pos: "0 < w"
    and reads_stripe: "w \<le> length p \<Longrightarrow> f v (p @ q) = f v p"
begin

lemma consume_short: "length p < w \<Longrightarrow> consume f w v p = v"
  by (subst consume.simps) simp

lemma consume_stripe: "length a = w \<Longrightarrow> consume f w v (a @ p) = consume f w (f v a) p"
  using width_pos reads_stripe [of a v p] by (subst consume.simps) simp

lemma consume_append:
  "length a = w * k \<Longrightarrow> consume f w v (a @ p) = consume f w (consume f w v a) p"
proof (induction k arbitrary: a v)
  case 0
  then show ?case using width_pos by (simp add: consume_short)
next
  case (Suc k)
  define b c where "b = take w a" and "c = drop w a"
  have a: "a = b @ c" "length b = w" "length c = w * k"
    using Suc.prems by (simp_all add: b_def c_def)
  with Suc.IH [of c] show ?case by (simp add: consume_stripe)
qed

lemma do_stripes_consume:
  "w \<le> length p \<Longrightarrow>
   do_stripes f w v p = (consume f w v p, drop (w * (length p div w)) p)"
proof (induction "length p" arbitrary: p v rule: less_induct)
  case less
  have q: "length p div w = Suc (length (drop w p) div w)"
    using less.prems width_pos by (simp add: le_div_geq)
  have c: "consume f w v p = consume f w (f v p) (drop w p)"
    using less.prems width_pos by (subst consume.simps) simp
  show ?case
  proof (cases "w \<le> length (drop w p)")
    case True
    with less.hyps [of "drop w p"] less.prems width_pos show ?thesis
      by (simp add: do_stripes.simps [of f w v p] c q Let_def add.commute)
  next
    case False
    then show ?thesis
      by (simp add: do_stripes.simps [of f w v p] c q Let_def consume_short)
  qed
qed

lemma consume_whole: "consume f w v (take (w * (length p div w)) p) = consume f w v p"
proof -
  have "length (drop (w * (length p div w)) p) < w"
    using width_pos by (simp add: minus_mult_div_eq_mod)
  then show ?thesis
    using consume_append [of "take (w * (length p div w)) p" "length p div w" v
        "drop (w * (length p div w)) p"]
    by (simp add: consume_short times_div_less_eq_dividend min_absorb2)
qed

lemma buffered_init: "length mem = w \<Longrightarrow> buffered f w v [] v mem 0"
  using width_pos by (auto simp: buffered_def consume_short)

lemma buffered_fill:
  assumes "buffered f w v0 data v mem n" and "n + length p < w"
  shows "buffered f w v0 (data @ p) v (memcpy mem n p) (n + length p)"
proof -
  have "take (n + length p) (memcpy mem n p) = take n mem @ p"
    using assms by (simp add: memcpy_def buffered_def)
  then show ?thesis using assms by (auto simp: buffered_def memcpy_def)
qed

lemma buffered_rest:
  assumes "buffered f w v0 data v mem 0"
    and p0: "p0 = p"
  shows "case (if w \<le> length p then do_stripes f w v p else (v, p)) of
     (v, p) \<Rightarrow> (case (if 0 < length p then (v, memcpy mem 0 p, length p) else (v, mem, 0)) of
       (v, mem, n) \<Rightarrow> buffered f w v0 (data @ p0) v mem n)"
proof -
  from assms(1) obtain k where mem: "length mem = w" and d: "length data = w * k"
    and v: "v = consume f w v0 data"
    by (auto simp: buffered_def)
  define q where "q = length p div w"
  define a r where "a = take (w * q) p" and "r = drop (w * q) p"
  have r: "length r < w" using width_pos by (simp add: r_def q_def minus_mult_div_eq_mod)
  have ar: "p = a @ r" and a: "length a = w * q"
    by (simp_all add: a_def r_def q_def)
  have loop: "(if w \<le> length p then do_stripes f w v p else (v, p)) = (consume f w v a, r)"
    using do_stripes_consume [of p v] consume_whole [of v p] width_pos
    by (auto simp: a_def r_def q_def consume_short)
  have "length (data @ a) = w * (k + q)" using d a by (simp add: distrib_left)
  moreover have "consume f w v a = consume f w v0 (data @ a)"
    using consume_append [OF d] v by simp
  ultimately have "case (if 0 < length r then (consume f w v a, memcpy mem 0 r, length r)
      else (consume f w v a, mem, 0)) of (v, mem, n) \<Rightarrow> buffered f w v0 ((data @ a) @ r) v mem n"
    using r mem width_pos
    by (auto simp: buffered_def memcpy_def intro!: exI [of _ "data @ a"])
  then show ?thesis unfolding loop using ar p0 by simp
qed

lemma buffered_stream_step:
  assumes b: "buffered f w v0 data v mem n" and p: "w \<le> n + length p"
  shows "case stream_step f w v mem n p of (v, mem, n) \<Rightarrow> buffered f w v0 (data @ p) v mem n"
proof (cases "n = 0")
  case True
  with buffered_rest [OF b [unfolded True] refl, of p] show ?thesis
    by (auto simp: stream_step_def split: prod.splits if_splits)
next
  case False
  define m where "m = memcpy mem n (take (w - n) p)"
  from b obtain full k where full: "data = full @ take n mem" "length full = w * k"
    "v = consume f w v0 full" and mem: "length mem = w" "n < w"
    by (auto simp: buffered_def)
  have m: "m = take n mem @ take (w - n) p" "length m = w"
    using p mem by (auto simp: m_def memcpy_def)
  have "consume f w v0 (full @ m) = f v m"
    using consume_append [OF full(2)] consume_stripe [of m v "[]"] m(2) full(3) width_pos
    by (simp add: consume_short)
  then have "buffered f w v0 (full @ m) (f v m) m 0"
    using m full width_pos by (auto simp: buffered_def intro!: exI [of _ "Suc k"])
  from buffered_rest [OF this refl, of "drop (w - n) p"] show ?thesis
    using False full(1) m(1)
    by (auto simp: stream_step_def m_def [symmetric] Let_def split: prod.splits if_splits)
qed

lemma buffered_final:
  assumes "buffered f w v0 data v mem n"
  shows "v = consume f w v0 data" "n = length data mod w"
    "\<exists>q. mem = drop (w * (length data div w)) data @ q"
proof -
  from assms obtain full k where full: "data = full @ take n mem" "length full = w * k"
    "v = consume f w v0 full" and mem: "length mem = w" "n < w"
    by (auto simp: buffered_def)
  have len: "length data = w * k + n" using full mem by simp
  then have dm: "length data div w = k" "length data mod w = n" using mem by simp_all
  then show "n = length data mod w" by simp
  show "v = consume f w v0 data"
    using consume_append [OF full(2), of v0 "take n mem"] full mem by (simp add: consume_short)
  have "drop (w * (length data div w)) data = take n mem"
    using full unfolding dm by simp
  then show "\<exists>q. mem = drop (w * (length data div w)) data @ q"
    by (metis append_take_drop_id)
qed

end

section \<open>The 32-bit hash, streamed and in one piece\<close>

interpretation xxh32: stripe_reader "XXH32_stripe host endian" 16 for host endian
  by unfold_locales (auto simp: readLE32_append)

definition init_lanes32 :: "u32 \<Rightarrow> u32 \<times> u32 \<times> u32 \<times> u32" where
  "init_lanes32 seed =
     (seed + PRIME32_1 + PRIME32_2, seed + PRIME32_2, seed, seed - PRIME32_1)"

definition converge32 :: "u32 \<times> u32 \<times> u32 \<times> u32 \<Rightarrow> u32" where
  "converge32 v = (case v of (v1, v2, v3, v4) \<Rightarrow>
     XXH_rotl32 v1 1 + XXH_rotl32 v2 7 + XXH_rotl32 v3 12 + XXH_rotl32 v4 18)"

definition lanes32 :: "XXH32_state \<Rightarrow> u32 \<times> u32 \<times> u32 \<times> u32" where
  "lanes32 st = (v1_32 st, v2_32 st, v3_32 st, v4_32 st)"

text \<open>The one-shot hash and the digest, both as a function of the lanes and the tail.\<close>

definition hash_of32 :: "XXH_endianess \<Rightarrow> u32 \<Rightarrow> byte list \<Rightarrow> u32" where
  "hash_of32 host seed data =
     XXH32_switch host host (length data mod 16)
       ((if 16 \<le> length data
         then converge32 (consume (XXH32_stripe host host) 16 (init_lanes32 seed) data)
         else seed + PRIME32_5) + of_nat (length data),
        drop (16 * (length data div 16)) data)"

lemma XXH32_hash_of: "XXH32 host input seed = hash_of32 host seed input"
proof -
  have "XXH32 host input seed = XXH32_endian_align host input seed host"
    by (cases host) (simp_all add: XXH32_def)
  also have "\<dots> = hash_of32 host seed input"
    by (auto simp: XXH32_endian_align_def hash_of32_def XXH32_finalize_def init_lanes32_def
        xxh32.do_stripes_consume converge32_def Let_def split: prod.splits)
  finally show ?thesis .
qed

definition absorbed32 :: "XXH_endianess \<Rightarrow> u32 \<Rightarrow> byte list \<Rightarrow> XXH32_state \<Rightarrow> bool" where
  "absorbed32 host seed data st \<longleftrightarrow>
     buffered (XXH32_stripe host host) 16 (init_lanes32 seed) data (lanes32 st) (mem32 st)
       (memsize32 st) \<and>
     total_len_32 st = of_nat (length data) \<and> (large_len st \<longleftrightarrow> 16 \<le> length data)"

lemma absorbed32_reset: "absorbed32 host seed [] (XXH32_reset seed)"
proof -
  have "lanes32 (XXH32_reset seed) = init_lanes32 seed"
    by (simp add: lanes32_def init_lanes32_def XXH32_reset_def)
  then show ?thesis
    by (simp add: absorbed32_def xxh32.buffered_init XXH32_reset_def)
qed

lemma XXH32_update_host: "XXH32_update host st p = XXH32_update_endian host st p host"
  by (cases host) (simp_all add: XXH32_update_def)

lemma XXH32_update_fill:
  assumes "memsize32 st + length p < 16"
  shows "(lanes32 (snd (XXH32_update host st (Some p))), mem32 (snd (XXH32_update host st (Some p))),
     memsize32 (snd (XXH32_update host st (Some p)))) =
     (lanes32 st, memcpy (mem32 st) (memsize32 st) p, memsize32 st + length p)"
  using assms by (simp add: XXH32_update_host XXH32_update_endian_def lanes32_def Let_def)

lemma XXH32_update_step:
  assumes "\<not> memsize32 st + length p < 16"
  shows "(lanes32 (snd (XXH32_update host st (Some p))), mem32 (snd (XXH32_update host st (Some p))),
     memsize32 (snd (XXH32_update host st (Some p)))) =
     stream_step (XXH32_stripe host host) 16 (lanes32 st) (mem32 st) (memsize32 st) p"
proof -
  note defs = XXH32_update_host XXH32_update_endian_def stream_step_def lanes32_def Let_def
  obtain a b c d where f: "XXH32_stripe host host (v1_32 st, v2_32 st, v3_32 st, v4_32 st)
      (memcpy (mem32 st) (memsize32 st) (take (16 - memsize32 st) p)) = (a, b, c, d)"
    by (metis prod_cases4)
  obtain a' b' c' d' r where ds: "do_stripes (XXH32_stripe host host) 16
      (v1_32 st, v2_32 st, v3_32 st, v4_32 st) p = ((a', b', c', d'), r)"
    by (metis prod_cases4 surj_pair)
  obtain a'' b'' c'' d'' r' where ds': "do_stripes (XXH32_stripe host host) 16
      (a, b, c, d) (drop (16 - memsize32 st) p) = ((a'', b'', c'', d''), r')"
    by (metis prod_cases4 surj_pair)
  show ?thesis
  proof (cases "memsize32 st = 0")
    case True
    with assms ds show ?thesis by (simp add: defs del: XXH32_stripe.simps)
  next
    case False
    with assms f ds' show ?thesis by (simp add: defs del: XXH32_stripe.simps)
  qed
qed

lemma XXH32_update_total:
  "total_len_32 (snd (XXH32_update host st (Some p))) = total_len_32 st + of_nat (length p) \<and>
   (large_len (snd (XXH32_update host st (Some p))) \<longleftrightarrow>
      large_len st \<or> 16 \<le> length p \<or> 16 \<le> total_len_32 st + of_nat (length p))"
  by (auto simp: XXH32_update_host XXH32_update_endian_def Let_def split: prod.splits)

lemma large_len_step:
  "(16 \<le> m \<or> 16 \<le> n \<or> 16 \<le> (of_nat m + of_nat n :: u32)) \<longleftrightarrow> 16 \<le> m + n"
proof -
  have u: "16 \<le> (of_nat m + of_nat n :: u32) \<longleftrightarrow> 16 \<le> (m + n) mod 2 ^ 32"
    unfolding of_nat_add [symmetric] word_le_nat_alt by (simp only: unat_of_nat) simp
  have "(m + n) mod 2 ^ 32 \<le> m + n" by (rule mod_less_eq_dividend)
  moreover have "m < 16 \<Longrightarrow> n < 16 \<Longrightarrow> (m + n) mod 2 ^ 32 = m + n" by simp
  ultimately show ?thesis unfolding u by linarith
qed

lemma absorbed32_update:
  assumes "absorbed32 host seed data st"
  shows "absorbed32 host seed (data @ p) (snd (XXH32_update host st (Some p)))"
proof -
  let ?st = "snd (XXH32_update host st (Some p))"
  have b: "buffered (XXH32_stripe host host) 16 (init_lanes32 seed) data (lanes32 st) (mem32 st)
      (memsize32 st)"
    using assms by (simp add: absorbed32_def)
  have "buffered (XXH32_stripe host host) 16 (init_lanes32 seed) (data @ p) (lanes32 ?st)
      (mem32 ?st) (memsize32 ?st)"
  proof (cases "memsize32 st + length p < 16")
    case True
    with xxh32.buffered_fill [OF b True] XXH32_update_fill [OF True] show ?thesis by simp
  next
    case False
    with xxh32.buffered_stream_step [OF b, of p] XXH32_update_step [OF False, of host] show ?thesis
      by (simp split: prod.splits)
  qed
  then show ?thesis
    using assms XXH32_update_total [of host st p] by (simp add: absorbed32_def large_len_step)
qed

lemma absorbed32_fold:
  "absorbed32 host seed data st \<Longrightarrow>
   absorbed32 host seed (data @ concat chunks)
     (fold (\<lambda>c st. snd (XXH32_update host st (Some c))) chunks st)"
proof (induction chunks arbitrary: data st)
  case Nil
  then show ?case by simp
next
  case (Cons c chunks)
  from Cons.IH [OF absorbed32_update [OF Cons.prems, of c]] show ?case by simp
qed

lemma absorbed32_digest:
  assumes "absorbed32 host seed data st"
  shows "XXH32_digest host st = hash_of32 host seed data"
proof -
  have b: "buffered (XXH32_stripe host host) 16 (init_lanes32 seed) data (lanes32 st) (mem32 st)
      (memsize32 st)"
    using assms by (simp add: absorbed32_def)
  obtain q where mem: "mem32 st = drop (16 * (length data div 16)) data @ q"
    using xxh32.buffered_final(3) [OF b] by blast
  have tail: "length data mod 16 \<le> length (drop (16 * (length data div 16)) data)"
    by (simp add: minus_mult_div_eq_mod)
  have v3: "length data < 16 \<Longrightarrow> v3_32 st = seed"
    using xxh32.buffered_final(1) [OF b] by (simp add: xxh32.consume_short lanes32_def init_lanes32_def)
  have "XXH32_digest host st = XXH32_digest_endian host st host"
    by (cases host) (simp_all add: XXH32_digest_def)
  then show ?thesis
    using assms v3 XXH32_switch_append [OF tail]
    by (auto simp: XXH32_digest_endian_def hash_of32_def XXH32_finalize_def absorbed32_def mem
        xxh32.buffered_final(2) [OF b] xxh32.buffered_final(1) [OF b, symmetric]
        lanes32_def converge32_def Let_def not_le)
qed

lemma XXH32_stripe_host:
  "16 \<le> length p \<Longrightarrow> XXH32_stripe host host v p = XXH32_stripe XXH_littleEndian XXH_littleEndian v p"
  by (cases v) (simp add: readLE32_host)

lemma consume32_host:
  "consume (XXH32_stripe host host) 16 v p =
   consume (XXH32_stripe XXH_littleEndian XXH_littleEndian) 16 v p"
proof (induction "length p" arbitrary: v p rule: less_induct)
  case less
  then show ?case
    using XXH32_stripe_host [of p host v]
    by (subst (1 2) consume.simps) simp
qed

lemma hash_of32_host: "hash_of32 host seed data = hash_of32 XXH_littleEndian seed data"
  unfolding hash_of32_def consume32_host [of host]
  by (rule XXH32_switch_host) (simp add: minus_mult_div_eq_mod)

lemma canonical32_bytes:
  "le_word (map (\<lambda>i. ucast (drop_bit (8 * i) (x :: u32))) [0..<4]) = x"
  by (rule bit_word_eqI) (auto simp: bit_le_word bit_simps)

section \<open>The 64-bit hash, streamed and in one piece\<close>

interpretation xxh64: stripe_reader "XXH64_stripe host endian" 32 for host endian
  by unfold_locales (auto simp: readLE64_append)

definition init_lanes64 :: "u64 \<Rightarrow> u64 \<times> u64 \<times> u64 \<times> u64" where
  "init_lanes64 seed =
     (seed + PRIME64_1 + PRIME64_2, seed + PRIME64_2, seed, seed - PRIME64_1)"

definition lanes64 :: "XXH64_state \<Rightarrow> u64 \<times> u64 \<times> u64 \<times> u64" where
  "lanes64 st = (v1_64 st, v2_64 st, v3_64 st, v4_64 st)"

text \<open>The one-shot hash and the digest, both as a function of the lanes and the tail.\<close>

definition hash_of64 :: "XXH_endianess \<Rightarrow> u64 \<Rightarrow> byte list \<Rightarrow> u64" where
  "hash_of64 host seed data =
     XXH64_switch host host (length data mod 32)
       ((if 32 \<le> length data
         then XXH64_converge (consume (XXH64_stripe host host) 32 (init_lanes64 seed) data)
         else seed + PRIME64_5) + of_nat (length data),
        drop (32 * (length data div 32)) data)"

lemma XXH64_hash_of: "XXH64 host input seed = hash_of64 host seed input"
proof -
  have "XXH64 host input seed = XXH64_endian_align host input seed host"
    by (cases host) (simp_all add: XXH64_def)
  also have "\<dots> = hash_of64 host seed input"
    by (auto simp: XXH64_endian_align_def hash_of64_def XXH64_finalize_def init_lanes64_def
        xxh64.do_stripes_consume XXH64_converge_def Let_def split: prod.splits)
  finally show ?thesis .
qed

definition absorbed64 :: "XXH_endianess \<Rightarrow> u64 \<Rightarrow> byte list \<Rightarrow> XXH64_state \<Rightarrow> bool" where
  "absorbed64 host seed data st \<longleftrightarrow>
     buffered (XXH64_stripe host host) 32 (init_lanes64 seed) data (lanes64 st) (mem64 st)
       (memsize64 st) \<and>
     total_len st = of_nat (length data)"

lemma absorbed64_reset: "absorbed64 host seed [] (XXH64_reset seed)"
proof -
  have "lanes64 (XXH64_reset seed) = init_lanes64 seed"
    by (simp add: lanes64_def init_lanes64_def XXH64_reset_def)
  then show ?thesis
    by (simp add: absorbed64_def xxh64.buffered_init XXH64_reset_def)
qed

lemma XXH64_update_host: "XXH64_update host st p = XXH64_update_endian host st p host"
  by (cases host) (simp_all add: XXH64_update_def)

lemma XXH64_update_fill:
  assumes "memsize64 st + length p < 32"
  shows "(lanes64 (snd (XXH64_update host st (Some p))), mem64 (snd (XXH64_update host st (Some p))),
     memsize64 (snd (XXH64_update host st (Some p)))) =
     (lanes64 st, memcpy (mem64 st) (memsize64 st) p, memsize64 st + length p)"
  using assms by (simp add: XXH64_update_host XXH64_update_endian_def lanes64_def Let_def)

lemma XXH64_update_step:
  assumes "\<not> memsize64 st + length p < 32"
  shows "(lanes64 (snd (XXH64_update host st (Some p))), mem64 (snd (XXH64_update host st (Some p))),
     memsize64 (snd (XXH64_update host st (Some p)))) =
     stream_step (XXH64_stripe host host) 32 (lanes64 st) (mem64 st) (memsize64 st) p"
proof -
  note defs = XXH64_update_host XXH64_update_endian_def stream_step_def lanes64_def Let_def
  obtain a b c d where f: "XXH64_stripe host host (v1_64 st, v2_64 st, v3_64 st, v4_64 st)
      (memcpy (mem64 st) (memsize64 st) (take (32 - memsize64 st) p)) = (a, b, c, d)"
    by (metis prod_cases4)
  obtain a' b' c' d' r where ds: "do_stripes (XXH64_stripe host host) 32
      (v1_64 st, v2_64 st, v3_64 st, v4_64 st) p = ((a', b', c', d'), r)"
    by (metis prod_cases4 surj_pair)
  obtain a'' b'' c'' d'' r' where ds': "do_stripes (XXH64_stripe host host) 32
      (a, b, c, d) (drop (32 - memsize64 st) p) = ((a'', b'', c'', d''), r')"
    by (metis prod_cases4 surj_pair)
  show ?thesis
  proof (cases "memsize64 st = 0")
    case True
    with assms ds show ?thesis by (simp add: defs del: XXH64_stripe.simps)
  next
    case False
    with assms f ds' show ?thesis by (simp add: defs del: XXH64_stripe.simps)
  qed
qed

lemma XXH64_update_total:
  "total_len (snd (XXH64_update host st (Some p))) = total_len st + of_nat (length p)"
  by (auto simp: XXH64_update_host XXH64_update_endian_def Let_def split: prod.splits)

lemma absorbed64_update:
  assumes "absorbed64 host seed data st"
  shows "absorbed64 host seed (data @ p) (snd (XXH64_update host st (Some p)))"
proof -
  let ?st = "snd (XXH64_update host st (Some p))"
  have b: "buffered (XXH64_stripe host host) 32 (init_lanes64 seed) data (lanes64 st) (mem64 st)
      (memsize64 st)"
    using assms by (simp add: absorbed64_def)
  have "buffered (XXH64_stripe host host) 32 (init_lanes64 seed) (data @ p) (lanes64 ?st)
      (mem64 ?st) (memsize64 ?st)"
  proof (cases "memsize64 st + length p < 32")
    case True
    with xxh64.buffered_fill [OF b True] XXH64_update_fill [OF True] show ?thesis by simp
  next
    case False
    with xxh64.buffered_stream_step [OF b, of p] XXH64_update_step [OF False, of host] show ?thesis
      by (simp split: prod.splits)
  qed
  then show ?thesis
    using assms XXH64_update_total [of host st p] by (simp add: absorbed64_def)
qed

lemma absorbed64_fold:
  "absorbed64 host seed data st \<Longrightarrow>
   absorbed64 host seed (data @ concat chunks)
     (fold (\<lambda>c st. snd (XXH64_update host st (Some c))) chunks st)"
proof (induction chunks arbitrary: data st)
  case Nil
  then show ?case by simp
next
  case (Cons c chunks)
  from Cons.IH [OF absorbed64_update [OF Cons.prems, of c]] show ?case by simp
qed

lemma absorbed64_digest:
  assumes "absorbed64 host seed data st" and "length data < 2 ^ 64"
  shows "XXH64_digest host st = hash_of64 host seed data"
proof -
  have b: "buffered (XXH64_stripe host host) 32 (init_lanes64 seed) data (lanes64 st) (mem64 st)
      (memsize64 st)"
    using assms by (simp add: absorbed64_def)
  obtain q where mem: "mem64 st = drop (32 * (length data div 32)) data @ q"
    using xxh64.buffered_final(3) [OF b] by blast
  have tail: "length data mod 32 \<le> length (drop (32 * (length data div 32)) data)"
    by (simp add: minus_mult_div_eq_mod)
  have v3: "length data < 32 \<Longrightarrow> v3_64 st = seed"
    using xxh64.buffered_final(1) [OF b] by (simp add: xxh64.consume_short lanes64_def init_lanes64_def)
  have "XXH64_digest host st = XXH64_digest_endian host st host"
    by (cases host) (simp_all add: XXH64_digest_def)
  then show ?thesis
    using assms v3 XXH64_switch_append [OF tail]
    by (auto simp: XXH64_digest_endian_def hash_of64_def XXH64_finalize_def absorbed64_def mem
        xxh64.buffered_final(2) [OF b] xxh64.buffered_final(1) [OF b, symmetric]
        lanes64_def converge32_def Let_def not_le unat_of_nat word_le_nat_alt)
qed

lemma XXH64_stripe_host:
  "32 \<le> length p \<Longrightarrow> XXH64_stripe host host v p = XXH64_stripe XXH_littleEndian XXH_littleEndian v p"
  by (cases v) (simp add: readLE64_host)

lemma consume64_host:
  "consume (XXH64_stripe host host) 32 v p =
   consume (XXH64_stripe XXH_littleEndian XXH_littleEndian) 32 v p"
proof (induction "length p" arbitrary: v p rule: less_induct)
  case less
  then show ?case
    using XXH64_stripe_host [of p host v]
    by (subst (1 2) consume.simps) simp
qed

lemma hash_of64_host: "hash_of64 host seed data = hash_of64 XXH_littleEndian seed data"
  unfolding hash_of64_def consume64_host [of host]
  by (rule XXH64_switch_host) (simp add: minus_mult_div_eq_mod)

lemma canonical64_bytes:
  "le_word (map (\<lambda>i. ucast (drop_bit (8 * i) (x :: u64))) [0..<8]) = x"
  by (rule bit_word_eqI) (auto simp: bit_le_word bit_simps)

lemma swap32_bytes:
  "XXH_swap32 x = le_word (rev (map (\<lambda>i. ucast (drop_bit (8 * i) x)) [0..<4]))"
  using swap32_le_word [of "rev (map (\<lambda>i. ucast (drop_bit (8 * i) x)) [0..<4])"]
    canonical32_bytes [of x] by simp

lemma canonicalFromHash32:
  "XXH32_canonicalFromHash host hash = rev (map (\<lambda>i. ucast (drop_bit (8 * i) hash)) [0..<4])"
proof (cases host)
  case XXH_littleEndian
  define bs where "bs = rev (map (\<lambda>i. ucast (drop_bit (8 * i) hash)) [0..<4] :: byte list)"
  have "ucast (drop_bit (8 * i) (le_word bs :: u32)) = bs ! i" if "i < 4" for i
    using that by (intro bit_word_eqI) (simp add: bit_simps bit_le_word bs_def div_add1_eq)
  then have "map (\<lambda>i. ucast (drop_bit (8 * i) (le_word bs :: u32))) [0..<4] = bs"
    by (intro nth_equalityI) (simp_all add: bs_def)
  then show ?thesis
    using XXH_littleEndian swap32_bytes [of hash]
    by (simp add: XXH32_canonicalFromHash_def Let_def bs_def)
qed (simp add: XXH32_canonicalFromHash_def)

lemma read_canonical32: "XXH_readBE32 host' (XXH32_canonicalFromHash host hash) = hash"
  using canonical32_bytes [of hash] swap32_le_word [of "map (\<lambda>i. ucast (drop_bit (8 * i) hash)) [0..<4]"]
  by (cases host') (simp_all add: XXH_readBE32_def XXH_read32_def canonicalFromHash32)

lemma swap64_bytes:
  "XXH_swap64 x = le_word (rev (map (\<lambda>i. ucast (drop_bit (8 * i) x)) [0..<8]))"
  using swap64_le_word [of "rev (map (\<lambda>i. ucast (drop_bit (8 * i) x)) [0..<8])"]
    canonical64_bytes [of x] by simp

lemma canonicalFromHash64:
  "XXH64_canonicalFromHash host hash = rev (map (\<lambda>i. ucast (drop_bit (8 * i) hash)) [0..<8])"
proof (cases host)
  case XXH_littleEndian
  define bs where "bs = rev (map (\<lambda>i. ucast (drop_bit (8 * i) hash)) [0..<8] :: byte list)"
  have "ucast (drop_bit (8 * i) (le_word bs :: u64)) = bs ! i" if "i < 8" for i
    using that by (intro bit_word_eqI) (simp add: bit_simps bit_le_word bs_def div_add1_eq)
  then have "map (\<lambda>i. ucast (drop_bit (8 * i) (le_word bs :: u64))) [0..<8] = bs"
    by (intro nth_equalityI) (simp_all add: bs_def)
  then show ?thesis
    using XXH_littleEndian swap64_bytes [of hash]
    by (simp add: XXH64_canonicalFromHash_def Let_def bs_def)
qed (simp add: XXH64_canonicalFromHash_def)

lemma read_canonical64: "XXH_readBE64 host' (XXH64_canonicalFromHash host hash) = hash"
  using canonical64_bytes [of hash] swap64_le_word [of "map (\<lambda>i. ucast (drop_bit (8 * i) hash)) [0..<8]"]
  by (cases host') (simp_all add: XXH_readBE64_def XXH_read64_def canonicalFromHash64)

section \<open>Properties\<close>

text \<open>C17: hashing a message in pieces, in any division, gives the one-shot 32-bit hash of the whole,
  also when the 32-bit length counter wraps.\<close>

theorem XXH32_stream_correct:
  "XXH32_digest host (fold (\<lambda>c st. snd (XXH32_update host st (Some c))) chunks (XXH32_reset seed)) =
   XXH32 host (concat chunks) seed"
  using absorbed32_digest [OF absorbed32_fold [OF absorbed32_reset]] by (simp add: XXH32_hash_of)

text \<open>C18: the same for the 64-bit hash, for messages whose length fits the 64-bit counter.\<close>

theorem XXH64_stream_correct:
  assumes "length (concat chunks) < 2 ^ 64"
  shows "XXH64_digest host (fold (\<lambda>c st. snd (XXH64_update host st (Some c))) chunks (XXH64_reset seed)) =
    XXH64 host (concat chunks) seed"
  using absorbed64_digest [OF absorbed64_fold [OF absorbed64_reset, of host seed chunks]] assms
  by (simp add: XXH64_hash_of)

theorem XXH64_stream_correct_witness:
  "length (concat [[1, 2], [3 :: byte]]) < 2 ^ 64 \<and>
   XXH64_digest XXH_littleEndian (fold (\<lambda>c st. snd (XXH64_update XXH_littleEndian st (Some c)))
     [[1, 2], [3]] (XXH64_reset 0)) = XXH64 XXH_littleEndian [1, 2, 3] 0"
proof -
  have h: "length (concat [[1, 2], [3 :: byte]]) < 2 ^ 64" by simp
  from XXH64_stream_correct [OF h, of XXH_littleEndian 0] h show ?thesis by simp
qed

text \<open>both hashes are functions of the message and the seed alone: a big-endian machine computes
  the same value as a little-endian one.\<close>

theorem XXH_host_independent:
  "XXH32 XXH_bigEndian data seed = XXH32 XXH_littleEndian data seed \<and>
   XXH64 XXH_bigEndian data seed64 = XXH64 XXH_littleEndian data seed64"
  using hash_of32_host [of XXH_bigEndian] hash_of64_host [of XXH_bigEndian]
  by (simp add: XXH32_hash_of XXH64_hash_of)

text \<open>the canonical form of a hash, written on one machine, reads back as the same hash on any
  other.\<close>

theorem XXH_canonical_roundtrip:
  "XXH32_hashFromCanonical host' (XXH32_canonicalFromHash host hash) = hash \<and>
   XXH64_hashFromCanonical host' (XXH64_canonicalFromHash host hash64) = hash64"
  using read_canonical32 [of host' host hash] read_canonical64 [of host' host hash64]
  by (simp add: XXH32_hashFromCanonical_def XXH64_hashFromCanonical_def)
end
