(* ===== verification/Int_Math.thy ===== *)
theory Int_Math
  imports Prelude
begin

text \<open>
  The integer helpers of the Tor library linked into the client (tor/lib/addsub.c, bits.c,
  muldiv.c): saturating addition and multiplication, base-2 logarithm, rounding to powers of two
  and to multiples, the population count of a byte, and fraction reduction. Unsigned C integers
  are words, and \<open>raw_assert\<close> failures abort, which is \<open>None\<close>.
\<close>

section \<open>addsub.c\<close>

definition tor_add_u32_nowrap :: "u32 \<Rightarrow> u32 \<Rightarrow> u32" where
  "tor_add_u32_nowrap a b = (if a > - 1 - b then - 1 else a + b)"

section \<open>bits.c\<close>

definition tor_log2 :: "u64 \<Rightarrow> nat" where
  "tor_log2 x =
     (let r = 0;
          (x, r) = (if push_bit 32 1 \<le> x then (drop_bit 32 x, 32) else (x, r));
          (x, r) = (if push_bit 16 1 \<le> x then (drop_bit 16 x, r + 16) else (x, r));
          (x, r) = (if push_bit 8 1 \<le> x then (drop_bit 8 x, r + 8) else (x, r));
          (x, r) = (if push_bit 4 1 \<le> x then (drop_bit 4 x, r + 4) else (x, r));
          (x, r) = (if push_bit 2 1 \<le> x then (drop_bit 2 x, r + 2) else (x, r));
          r = (if push_bit 1 1 \<le> x then r + 1 else r)
      in r)"

definition round_to_power_of_2 :: "u64 \<Rightarrow> u64" where
  "round_to_power_of_2 x =
     (if x = 0 then 1
      else
        let lg2 = tor_log2 x;
            low = push_bit lg2 1
        in if lg2 = 63 then low
           else
             let high = push_bit (lg2 + 1) 1
             in if high - x < x - low then high else low)"

definition nybble_table :: "nat list" where
  "nybble_table = [0, 1, 1, 2, 1, 2, 2, 3, 1, 2, 2, 3, 2, 3, 3, 4]"

definition n_bits_set_u8 :: "byte \<Rightarrow> nat" where
  "n_bits_set_u8 v = nybble_table ! unat (v AND 15) + nybble_table ! unat (drop_bit 4 v)"

section \<open>muldiv.c\<close>

text \<open>\<open>unsigned\<close> is 32 bits wide on every platform the client is built for.\<close>

definition round_to_next_multiple_of :: "u32 \<Rightarrow> u32 \<Rightarrow> u32 option" where
  "round_to_next_multiple_of number divisor =
     (if divisor > 0
      then if - 1 - divisor + 1 < number then Some (- 1)
           else let number = number + (divisor - 1); number = number - number mod divisor in Some number
      else None)"

definition round_uint32_to_next_multiple_of :: "u32 \<Rightarrow> u32 \<Rightarrow> u32 option" where
  "round_uint32_to_next_multiple_of number divisor =
     (if divisor > 0
      then if - 1 - divisor + 1 < number then Some (- 1)
           else let number = number + (divisor - 1); number = number - number mod divisor in Some number
      else None)"

definition round_uint64_to_next_multiple_of :: "u64 \<Rightarrow> u64 \<Rightarrow> u64 option" where
  "round_uint64_to_next_multiple_of number divisor =
     (if divisor > 0
      then if - 1 - divisor + 1 < number then Some (- 1)
           else let number = number + (divisor - 1); number = number - number mod divisor in Some number
      else None)"

function gcd64 :: "u64 \<Rightarrow> u64 \<Rightarrow> u64" where
  "gcd64 a b = (if b \<noteq> 0 then gcd64 b (a mod b) else a)"
  by pat_completeness auto
termination
  by (relation "measure (\<lambda>(a, b). unat b)") (auto simp: unat_mod word_gt_0 unat_gt_0)

declare gcd64.simps [simp del]

definition tor_mul_u64_nowrap :: "u64 \<Rightarrow> u64 \<Rightarrow> u64" where
  "tor_mul_u64_nowrap a b =
     (if a = 0 \<or> b = 0 then 0
      else if (- 1) div a < b then - 1
      else a * b)"

text \<open>The division traps when both arguments are 0, since the gcd is 0 then.\<close>

definition simplify_fraction64 :: "u64 \<Rightarrow> u64 \<Rightarrow> (u64 \<times> u64) option" where
  "simplify_fraction64 numer denom =
     (let g = gcd64 numer denom
      in if g = 0 then None else Some (numer div g, denom div g))"

section \<open>What they compute\<close>

lemma unat_add_nowrap: "unat (tor_add_u32_nowrap a b) = min (unat a + unat b) (2 ^ 32 - 1)"
  using unat_less_exp [of a] unat_less_exp [of b]
  by (auto simp: tor_add_u32_nowrap_def word_less_nat_alt unat_minus_1_minus unat_minus_1
      unat_word_ariths)

lemma unat_mul_nowrap: "unat (tor_mul_u64_nowrap a b) = min (unat a * unat b) (2 ^ 64 - 1)"
proof (cases "a = 0 \<or> b = 0")
  case True
  then show ?thesis by (auto simp: tor_mul_u64_nowrap_def)
next
  case False
  then have a: "0 < unat a" by (simp add: unat_gt_0)
  have "(- 1) div a < b \<longleftrightarrow> (2 ^ 64 - 1) div unat a < unat b"
    by (simp add: word_less_nat_alt unat_div unat_minus_1)
  also have "\<dots> \<longleftrightarrow> 2 ^ 64 - 1 < unat a * unat b"
    using div_less_iff_less_mult [OF a, of "2 ^ 64 - 1" "unat b"] by (simp only: mult.commute)
  finally show ?thesis
    using False by (auto simp: tor_mul_u64_nowrap_def unat_minus_1 unat_word_ariths)
qed

lemma gcd64_gcd: "unat (gcd64 a b) = gcd (unat a) (unat b)"
proof (induction a b rule: gcd64.induct)
  case (1 a b)
  show ?case
  proof (cases "b = 0")
    case True
    then show ?thesis by (subst gcd64.simps) simp
  next
    case False
    with 1 show ?thesis
      by (simp add: gcd64.simps [of a b] unat_mod gcd_red_nat [of "unat a" "unat b"])
  qed
qed

text \<open>One halving step of the logarithm: \<open>y\<close> is the part of \<open>x\<close> still to be measured.\<close>

definition log_part :: "u64 \<Rightarrow> nat \<Rightarrow> u64 \<times> nat \<Rightarrow> bool" where
  "log_part x k yr \<longleftrightarrow> unat (fst yr) = unat x div 2 ^ snd yr \<and> 0 < unat (fst yr) \<and> unat (fst yr) < 2 ^ k"

lemma log_part_step:
  assumes "log_part x (2 * k) (y, r)" and "k < 64"
  shows "log_part x k (if push_bit k 1 \<le> y then (drop_bit k y, r + k) else (y, r))"
proof -
  have "push_bit k 1 \<le> y \<longleftrightarrow> 2 ^ k \<le> unat y"
    using assms(2) by (simp add: word_le_nat_alt unat_exp)
  moreover have "unat y div 2 ^ k < 2 ^ k"
    using assms(1) by (simp add: log_part_def less_mult_imp_div_less flip: power_add mult_2)
  moreover have "0 < unat y div 2 ^ k" if "2 ^ k \<le> unat y"
    using that by (simp add: div_greater_zero_iff)
  ultimately show ?thesis
    using assms by (auto simp: log_part_def unat_drop_bit power_add div_mult2_eq)
qed

lemma tor_log2_part: "x \<noteq> 0 \<Longrightarrow> unat x div 2 ^ tor_log2 x = 1"
proof -
  assume "x \<noteq> 0"
  then have "log_part x (2 * 32) (x, 0)"
    using unat_less_exp [of x] by (simp add: log_part_def unat_gt_0)
  note p32 = log_part_step [OF this, simplified]
  obtain a32 and r32 :: nat
    where e32: "(if push_bit 32 1 \<le> x then (drop_bit 32 x, 32) else (x, 0)) = (a32, r32)"
    by fastforce
  have p16: "log_part x (2 * 16) (a32, r32)" using p32 e32 by (simp split: if_splits)
  obtain a16 r16 where e16: "(if push_bit 16 1 \<le> a32 then (drop_bit 16 a32, r32 + 16) else (a32, r32)) = (a16, r16)"
    by fastforce
  have p8: "log_part x (2 * 8) (a16, r16)" using log_part_step [OF p16] e16 by simp
  obtain a8 r8 where e8: "(if push_bit 8 1 \<le> a16 then (drop_bit 8 a16, r16 + 8) else (a16, r16)) = (a8, r8)"
    by fastforce
  have p4: "log_part x (2 * 4) (a8, r8)" using log_part_step [OF p8] e8 by simp
  obtain a4 r4 where e4: "(if push_bit 4 1 \<le> a8 then (drop_bit 4 a8, r8 + 4) else (a8, r8)) = (a4, r4)"
    by fastforce
  have p2: "log_part x (2 * 2) (a4, r4)" using log_part_step [OF p4] e4 by simp
  obtain a2 r2 where e2: "(if push_bit 2 1 \<le> a4 then (drop_bit 2 a4, r4 + 2) else (a4, r4)) = (a2, r2)"
    by fastforce
  have p1: "log_part x (2 * 1) (a2, r2)" using log_part_step [OF p2] e2 by simp
  have "tor_log2 x = (if push_bit 1 1 \<le> a2 then r2 + 1 else r2)"
    unfolding tor_log2_def Let_def e32 prod.case e16 e8 e4 e2 by simp
  then show ?thesis using log_part_step [OF p1] by (auto simp: log_part_def split: if_splits)
qed

lemma tor_log2_bounds:
  assumes "x \<noteq> 0"
  shows "2 ^ tor_log2 x \<le> unat x" "unat x < 2 ^ (tor_log2 x + 1)" "tor_log2 x < 64"
proof -
  have d: "unat x div 2 ^ tor_log2 x = 1" using assms by (rule tor_log2_part)
  then show l: "2 ^ tor_log2 x \<le> unat x" by (metis div_less less_numeral_extra(1) linorder_not_le zero_neq_one)
  from d have "unat x < 2 * 2 ^ tor_log2 x"
    by (metis div_less_iff_less_mult one_less_numeral_iff semiring_norm(76) zero_less_numeral zero_less_power)
  then show "unat x < 2 ^ (tor_log2 x + 1)" by simp
  have "(2::nat) ^ tor_log2 x < 2 ^ 64" using l unat_less_exp [of x] by simp
  then show "tor_log2 x < 64" by (rule power_less_imp_less_exp [rotated]) simp
qed

lemma nybble_table_spec:
  "list_all (\<lambda>n. nybble_table ! n = length (filter (bit (of_nat n :: byte)) [0..<8])) [0..<16]"
  by code_simp

lemma nybble_table_card:
  assumes "unat v < 16"
  shows "nybble_table ! unat v = card {i. bit (v :: byte) i}"
proof -
  have "nybble_table ! unat v = length (filter (bit (of_nat (unat v) :: byte)) [0..<8])"
    using nybble_table_spec assms unfolding list_all_iff by simp
  also have "\<dots> = card (set (filter (bit v) [0..<8]))"
    by (subst distinct_card) simp_all
  also have "set (filter (bit v) [0..<8]) = {i. bit v i}"
    by (auto dest: bit_imp_le_length)
  finally show ?thesis .
qed

lemma n_bits_set_popcount: "n_bits_set_u8 v = card {i. bit v i}"
proof -
  have fin: "finite {i. bit (w :: byte) i}" for w
    by (rule finite_subset [of _ "{..<8}"]) (auto dest: bit_imp_le_length)
  have m: "(15 :: byte) = mask 4" by (simp add: mask_eq_exp_minus_1)
  have low: "bit (v AND 15) i \<longleftrightarrow> i < 4 \<and> bit v i" for i
    unfolding m by (auto simp: bit_simps dest: bit_imp_le_length)
  have "{i. bit v i} = {i. bit (v AND 15) i} \<union> (\<lambda>i. i + 4) ` {i. bit (drop_bit 4 v) i}"
  proof (rule set_eqI)
    fix i
    have "(i :: nat) = i - 4 + 4" if "\<not> i < 4" using that by simp
    then show "i \<in> {i. bit v i} \<longleftrightarrow>
        i \<in> {i. bit (v AND 15) i} \<union> (\<lambda>i. i + 4) ` {i. bit (drop_bit 4 v) i}"
      by (cases "i < 4") (auto simp: low bit_drop_bit_eq image_iff add.commute intro: exI [of _ "i - 4"])
  qed
  also have "card \<dots> = card {i. bit (v AND 15) i} + card ((\<lambda>i. i + 4) ` {i. bit (drop_bit 4 v) i})"
    using fin [of "v AND 15"] fin [of "drop_bit 4 v"] by (subst card_Un_disjoint) (auto simp: low)
  also have "card ((\<lambda>i. i + 4) ` {i. bit (drop_bit 4 v) i}) = card {i. bit (drop_bit 4 v) i}"
    by (rule card_image) simp
  finally show ?thesis
    using nybble_table_card [of "v AND 15"] nybble_table_card [of "drop_bit 4 v"]
      unat_less_exp [of v] word_and_le1 [of v 15]
    by (simp add: n_bits_set_u8_def unat_drop_bit word_le_nat_alt)
qed

lemma round_up_multiple:
  assumes d: "0 < unat d" and fit: "unat n + (unat d - 1) < 2 ^ LENGTH('w)"
  shows "unat (n + (d - 1) - (n + (d - 1)) mod d :: 'w::len word) =
    (unat n + (unat d - 1)) div unat d * unat d"
proof -
  have "unat (d - 1) = unat d - 1"
    using d by (intro unat_minus_one) (simp add: unat_gt_0)
  then have s: "unat (n + (d - 1)) = unat n + (unat d - 1)"
    using fit by (simp add: unat_word_ariths)
  have "(n + (d - 1)) mod d \<le> n + (d - 1)"
    by (simp add: word_le_nat_alt unat_mod mod_less_eq_dividend)
  then have "unat (n + (d - 1) - (n + (d - 1)) mod d) =
      unat (n + (d - 1)) - unat (n + (d - 1)) mod unat d"
    by (simp add: unat_sub_if_size word_size word_le_nat_alt unat_mod)
  then show ?thesis unfolding s by (simp add: minus_mod_eq_div_mult)
qed

text \<open>on every input the saturating operations give the exact sum or product, capped at the largest
  representable value.\<close>

theorem saturating_arithmetic:
  "unat (tor_add_u32_nowrap a b) = min (unat a + unat b) (2 ^ 32 - 1) \<and>
   unat (tor_mul_u64_nowrap c d) = min (unat c * unat d) (2 ^ 64 - 1)"
  by (simp add: unat_add_nowrap unat_mul_nowrap)

lemma least_multiple:
  fixes n d :: nat
  assumes "0 < d"
  shows "d dvd (n + (d - 1)) div d * d" "n \<le> (n + (d - 1)) div d * d"
    "d dvd m \<Longrightarrow> n \<le> m \<Longrightarrow> (n + (d - 1)) div d * d \<le> m"
proof -
  show "d dvd (n + (d - 1)) div d * d" by simp
  have "n + (d - 1) < (n + (d - 1)) div d * d + d"
    using assms by (metis add_strict_left_mono div_mult_mod_eq mod_less_divisor)
  then show "n \<le> (n + (d - 1)) div d * d" by linarith
  assume m: "d dvd m" "n \<le> m"
  then obtain k where k: "m = k * d" by (metis dvd_div_mult_self)
  with m have "n + (d - 1) < Suc k * d" using assms by simp
  then have "(n + (d - 1)) div d < Suc k" by (simp add: assms less_mult_imp_div_less)
  then have "(n + (d - 1)) div d \<le> k" by (rule less_Suc_eq_le [THEN iffD1])
  then show "(n + (d - 1)) div d * d \<le> m" unfolding k by (rule mult_le_mono1)
qed

lemma unat_limit:
  assumes "0 < unat d"
  shows "unat (- d :: 'w::len word) = 2 ^ LENGTH('w) - unat d"
proof -
  have "unat (d - 1) = unat d - 1"
    using assms by (intro unat_minus_one) (simp add: unat_gt_0)
  then have "unat (- 1 - (d - 1)) = 2 ^ LENGTH('w) - 1 - (unat d - 1)"
    by (simp only: unat_minus_1_minus)
  then show ?thesis using assms by simp
qed

lemma round_word_multiple:
  assumes d: "0 < unat d" and r: "r = (if - 1 - d + 1 < n then - 1
     else let n = n + (d - 1); n = n - n mod d in n :: 'w::len word)"
  shows "if unat n \<le> 2 ^ LENGTH('w) - unat d
    then unat d dvd unat r \<and> n \<le> r \<and> (\<forall>m. unat d dvd m \<longrightarrow> unat n \<le> m \<longrightarrow> unat r \<le> m)
    else r = - 1"
proof (cases "unat n \<le> 2 ^ LENGTH('w) - unat d")
  case True
  then have "\<not> - 1 - d + 1 < n" by (simp add: word_less_nat_alt unat_limit [OF d])
  moreover have "unat n + (unat d - 1) < 2 ^ LENGTH('w)"
    using True d unat_less_exp [of d] by linarith
  ultimately have "unat r = (unat n + (unat d - 1)) div unat d * unat d"
    unfolding r Let_def by (simp add: round_up_multiple [OF d])
  then show ?thesis
    using True least_multiple [OF d] by (simp add: word_le_nat_alt)
next
  case False
  then show ?thesis by (simp add: r word_less_nat_alt unat_limit [OF d])
qed

text \<open>rounding up to a multiple gives the least multiple that is not below the number whenever the
  number is at most the largest value minus the divisor plus one, and the largest value otherwise.\<close>

theorem round_uint64_multiple_correct:
  assumes "0 < divisor"
  shows "\<exists>r. round_uint64_to_next_multiple_of number divisor = Some r \<and>
    (if unat number \<le> 2 ^ 64 - unat divisor
     then unat divisor dvd unat r \<and> number \<le> r \<and>
          (\<forall>m. unat divisor dvd m \<longrightarrow> unat number \<le> m \<longrightarrow> unat r \<le> m)
     else r = - 1)"
proof -
  have d: "0 < unat divisor" using assms by (simp add: unat_gt_0 word_gt_0)
  show ?thesis
    using round_word_multiple [OF d refl, of number] assms
    by (auto simp: round_uint64_to_next_multiple_of_def Let_def)
qed

theorem round_uint64_multiple_correct_witness:
  "(0 :: u64) < 1000 \<and> (\<exists>r. round_uint64_to_next_multiple_of 2345 1000 = Some r \<and>
    (if unat (2345 :: u64) \<le> 2 ^ 64 - unat (1000 :: u64)
     then unat (1000 :: u64) dvd unat r \<and> 2345 \<le> r \<and>
          (\<forall>m. unat (1000 :: u64) dvd m \<longrightarrow> unat (2345 :: u64) \<le> m \<longrightarrow> unat r \<le> m)
     else r = - 1))"
proof -
  have h: "(0 :: u64) < 1000" by simp
  from round_uint64_multiple_correct [OF h, of 2345] h show ?thesis by blast
qed

text \<open>the saturation is too eager: near the top of the range the function returns the largest value
  although a smaller multiple of the divisor is representable, against its comment.\<close>

theorem round_uint32_multiple_gap:
  "round_uint32_to_next_multiple_of 4294967291 7 = Some 4294967295 \<and>
   (4294967291 :: u32) \<le> 4294967292 \<and> (4294967292 :: u32) < 4294967295 \<and>
   (4294967292 :: u32) mod 7 = 0 \<and> (4294967295 :: u32) mod 7 \<noteq> 0"
  by (simp add: round_uint32_to_next_multiple_of_def)

text \<open>\<open>tor_log2\<close> is the integer logarithm.\<close>

theorem tor_log2_correct:
  assumes "x \<noteq> 0"
  shows "2 ^ tor_log2 x \<le> unat x \<and> unat x < 2 ^ (tor_log2 x + 1)"
  using tor_log2_bounds [OF assms] by simp

theorem tor_log2_correct_witness:
  "(1000 :: u64) \<noteq> 0 \<and> 2 ^ tor_log2 1000 \<le> unat (1000 :: u64) \<and> unat (1000 :: u64) < 2 ^ (tor_log2 1000 + 1)"
  using tor_log2_correct [of 1000] by simp

lemma power_distance:
  assumes low: "2 ^ k \<le> x" and high: "x < 2 ^ (k + 1)"
  shows "x - 2 ^ k \<le> \<bar>2 ^ j - x\<bar> \<or> 2 ^ (k + 1) - x \<le> \<bar>2 ^ j - (x :: int)\<bar>"
proof (cases "j \<le> k")
  case True
  then have "(2 :: int) ^ j \<le> 2 ^ k" by (intro power_increasing) simp_all
  then show ?thesis using low by linarith
next
  case False
  then have "(2 :: int) ^ (k + 1) \<le> 2 ^ j" by (intro power_increasing) simp_all
  then show ?thesis using high by linarith
qed

lemma unat_round_to_power_of_2:
  assumes x: "x \<noteq> 0" and k: "tor_log2 x = k"
  shows "unat (round_to_power_of_2 x) =
    (if k < 63 \<and> 2 ^ (k + 1) - unat x < unat x - 2 ^ k then 2 ^ (k + 1) else 2 ^ k)"
proof -
  note b = tor_log2_bounds [OF x, unfolded k]
  have low: "unat (x - 2 ^ k) = unat x - 2 ^ k"
    using b by (simp add: unat_sub_if_size word_size unat_exp)
  have high: "unat (2 ^ (k + 1) - x) = 2 ^ (k + 1) - unat x" if "k < 63"
    using b that unat_exp [where 'w=64, of "k + 1"]
    by (simp add: unat_sub_if_size word_size del: power_Suc)
  show ?thesis
    using x b low high unat_exp [where 'w=64, of "k + 1"] unat_exp [where 'w=64, of k]
    by (auto simp: round_to_power_of_2_def k Let_def word_less_nat_alt simp del: power_Suc)
qed

text \<open>\<open>round_to_power_of_2\<close> returns a power of two, and no other 64-bit power of two is closer.\<close>

theorem round_to_power_of_2_nearest:
  assumes "x \<noteq> 0"
  shows "\<exists>k < 64. unat (round_to_power_of_2 x) = 2 ^ k \<and>
    (\<forall>j < 64. \<bar>2 ^ k - int (unat x)\<bar> \<le> \<bar>2 ^ j - int (unat x)\<bar>)"
proof -
  define k where "k = tor_log2 x"
  have b: "2 ^ k \<le> unat x" "unat x < 2 ^ (k + 1)" "k < 64"
    using tor_log2_bounds [OF assms] by (simp_all add: k_def)
  define y where "y = int (unat x)"
  have "int (2 ^ k) \<le> y" "y < int (2 ^ (k + 1))"
    using b unfolding y_def by (simp_all only: of_nat_le_iff of_nat_less_iff)
  then have y: "2 ^ k \<le> y" "y < 2 ^ (k + 1)" by simp_all
  have u: "(2 ^ (k + 1) - unat x < unat x - 2 ^ k) \<longleftrightarrow> 2 ^ (k + 1) - y < y - 2 ^ k"
  proof -
    define p :: nat where "p = 2 ^ k"
    have pk: "(2 :: nat) ^ (k + 1) = 2 * p" "(2 :: int) ^ k = int p" "(2 :: int) ^ (k + 1) = 2 * int p"
      by (simp_all add: p_def)
    show ?thesis using b unfolding y_def pk p_def [symmetric] by linarith
  qed
  have r: "unat (round_to_power_of_2 x) =
    (if k < 63 \<and> 2 ^ (k + 1) - y < y - 2 ^ k then 2 ^ (k + 1) else 2 ^ k)"
    using unat_round_to_power_of_2 [OF assms] unfolding u [symmetric] by (simp add: k_def)
  show ?thesis unfolding y_def [symmetric]
  proof (cases "k < 63 \<and> 2 ^ (k + 1) - y < y - 2 ^ k")
    case True
    have "\<bar>2 ^ (k + 1) - y\<bar> \<le> \<bar>2 ^ j - y\<bar>" for j
      using power_distance [OF y, of j] True y by linarith
    with True r show "\<exists>k<64. unat (round_to_power_of_2 x) = 2 ^ k \<and> (\<forall>j<64. \<bar>2 ^ k - y\<bar> \<le> \<bar>2 ^ j - y\<bar>)"
      by (intro exI [of _ "k + 1"]) (simp del: power_Suc)
  next
    case False
    have "\<bar>2 ^ k - y\<bar> \<le> \<bar>2 ^ j - y\<bar>" if "j < 64" for j
    proof (cases "k = 63")
      case True
      with that have "(2 :: int) ^ j \<le> 2 ^ k" by (intro power_increasing) simp_all
      with y show ?thesis by linarith
    next
      case not63: False
      with b False show ?thesis using power_distance [OF y, of j] y by auto
    qed
    with False r b show "\<exists>k<64. unat (round_to_power_of_2 x) = 2 ^ k \<and> (\<forall>j<64. \<bar>2 ^ k - y\<bar> \<le> \<bar>2 ^ j - y\<bar>)"
      by (intro exI [of _ k]) auto
  qed
qed

theorem round_to_power_of_2_nearest_witness:
  "(1500 :: u64) \<noteq> 0 \<and> (\<exists>k < 64. unat (round_to_power_of_2 1500) = 2 ^ k \<and>
    (\<forall>j < 64. \<bar>2 ^ k - int (unat (1500 :: u64))\<bar> \<le> \<bar>2 ^ j - int (unat (1500 :: u64))\<bar>))"
proof -
  have h: "(1500 :: u64) \<noteq> 0" by simp
  from round_to_power_of_2_nearest [OF h] h show ?thesis by blast
qed

text \<open>the nybble table counts the bits of a byte.\<close>

theorem n_bits_set_u8_correct: "n_bits_set_u8 v = card {i. bit v i}"
  by (rule n_bits_set_popcount)

text \<open>a fraction is reduced to lowest terms without changing its value.\<close>

theorem simplify_fraction64_correct:
  assumes "denom \<noteq> 0"
  shows "\<exists>n d. simplify_fraction64 numer denom = Some (n, d) \<and>
    coprime (unat n) (unat d) \<and> unat n * unat denom = unat numer * unat d"
proof -
  define g where "g = gcd (unat numer) (unat denom)"
  have g: "unat (gcd64 numer denom) = g" by (simp add: gcd64_gcd g_def)
  have pos: "0 < g" using assms by (simp add: g_def unat_gt_0)
  then have "gcd64 numer denom \<noteq> 0" using g by auto
  moreover have "coprime (unat numer div g) (unat denom div g)"
    using pos unfolding g_def by (intro div_gcd_coprime) auto
  moreover have "unat numer div g * unat denom = unat numer * (unat denom div g)"
    by (metis div_mult_swap dvd_div_mult g_def gcd_dvd1 gcd_dvd2)
  ultimately show ?thesis
    using g by (auto simp: simplify_fraction64_def Let_def unat_div)
qed

theorem simplify_fraction64_correct_witness:
  "(10 :: u64) \<noteq> 0 \<and> (\<exists>n d. simplify_fraction64 4 10 = Some (n, d) \<and>
    coprime (unat n) (unat d) \<and> unat n * unat (10 :: u64) = unat (4 :: u64) * unat d)"
proof -
  have h: "(10 :: u64) \<noteq> 0" by simp
  from simplify_fraction64_correct [OF h, of 4] h show ?thesis by blast
qed

end
