(* ===== verification/Token_Bucket.thy ===== *)
theory Token_Bucket
  imports Prelude
begin

text \<open>
  Token buckets for rate limiting (tor/lib/token_bucket.c and .h): raw buckets, the read-write pair
  on coarse timestamps, and the counter on seconds. Levels are \<open>int32_t\<close>, kept as an \<open>int\<close> with the
  conversion to 32 bits written out; timestamps are 32-bit words, so their difference wraps.
  A \<open>BUG\<close> or a non-fatal assertion only logs. A zero rate makes the refill divide by zero, which is
  \<open>None\<close>.
\<close>

section \<open>The code\<close>

definition to_int32 :: "int \<Rightarrow> int" where
  "to_int32 x = (x + 2 ^ 31) mod 2 ^ 32 - 2 ^ 31"

record token_bucket_cfg =
  rate :: nat
  burst :: int

record token_bucket_raw =
  bucket :: int

definition TOKEN_BUCKET_MAX_BURST :: int where
  "TOKEN_BUCKET_MAX_BURST = 2 ^ 31 - 1"

definition token_bucket_cfg_init :: "u32 \<Rightarrow> u32 \<Rightarrow> token_bucket_cfg" where
  "token_bucket_cfg_init r b =
     (let b = uint b;
          b = (if b > TOKEN_BUCKET_MAX_BURST then TOKEN_BUCKET_MAX_BURST else b)
      in \<lparr>rate = unat r, burst = b\<rparr>)"

definition token_bucket_raw_reset :: "token_bucket_raw \<Rightarrow> token_bucket_cfg \<Rightarrow> token_bucket_raw" where
  "token_bucket_raw_reset b cfg = b\<lparr>bucket := burst cfg\<rparr>"

definition token_bucket_raw_adjust :: "token_bucket_raw \<Rightarrow> token_bucket_cfg \<Rightarrow> token_bucket_raw" where
  "token_bucket_raw_adjust b cfg = b\<lparr>bucket := min (bucket b) (burst cfg)\<rparr>"

definition token_bucket_raw_refill_steps ::
    "token_bucket_raw \<Rightarrow> token_bucket_cfg \<Rightarrow> nat \<Rightarrow> (bool \<times> token_bucket_raw) option" where
  "token_bucket_raw_refill_steps b cfg elapsed =
     (let was_empty = bucket b \<le> 0;
          gap = nat ((burst cfg - bucket b) mod 2 ^ 64)
      in if rate cfg = 0 then None
         else
           let b = (if elapsed > gap div rate cfg then b\<lparr>bucket := burst cfg\<rparr>
                    else b\<lparr>bucket := to_int32 (bucket b + int (rate cfg * elapsed mod 2 ^ 32))\<rparr>)
           in Some (was_empty \<and> bucket b > 0, b))"

definition token_bucket_raw_dec :: "token_bucket_raw \<Rightarrow> int \<Rightarrow> bool \<times> token_bucket_raw" where
  "token_bucket_raw_dec b n =
     (if n < 0 then (False, b)
      else
        let becomes_empty = bucket b > 0 \<and> n \<ge> bucket b
        in (becomes_empty, b\<lparr>bucket := to_int32 (bucket b - n)\<rparr>))"

definition token_bucket_raw_get :: "token_bucket_raw \<Rightarrow> int" where
  "token_bucket_raw_get b = (if bucket b \<ge> 0 then bucket b else 0)"

definition TICKS_PER_STEP :: nat where
  "TICKS_PER_STEP = 16"

text \<open>
  From compat_time.c, for the platforms other than Apple's: \<open>ticks\<close> is the platform's
  \<open>STAMP_TICKS_PER_SECOND\<close> (953 with clock_gettime, 1000 on Windows).
\<close>

definition monotime_coarse_stamp_units_to_approx_msec :: "nat \<Rightarrow> nat \<Rightarrow> nat" where
  "monotime_coarse_stamp_units_to_approx_msec ticks units = (units * 1000 mod 2 ^ 64) div ticks"

definition rate_per_sec_to_rate_per_step :: "nat \<Rightarrow> u32 \<Rightarrow> u32" where
  "rate_per_sec_to_rate_per_step ticks r =
     (let units = unat r * TICKS_PER_STEP mod 2 ^ 64;
          val = of_nat (monotime_coarse_stamp_units_to_approx_msec ticks units div 1000)
      in if val \<noteq> 0 then val else 1)"

record token_bucket_rw =
  rw_cfg :: token_bucket_cfg
  read_bucket :: token_bucket_raw
  write_bucket :: token_bucket_raw
  last_refilled_at_timestamp :: u32

definition token_bucket_rw_adjust :: "nat \<Rightarrow> token_bucket_rw \<Rightarrow> u32 \<Rightarrow> u32 \<Rightarrow> token_bucket_rw" where
  "token_bucket_rw_adjust ticks b r bst =
     (let cfg = token_bucket_cfg_init (rate_per_sec_to_rate_per_step ticks r) bst
      in b\<lparr>rw_cfg := cfg,
           read_bucket := token_bucket_raw_adjust (read_bucket b) cfg,
           write_bucket := token_bucket_raw_adjust (write_bucket b) cfg\<rparr>)"

definition token_bucket_rw_reset :: "token_bucket_rw \<Rightarrow> u32 \<Rightarrow> token_bucket_rw" where
  "token_bucket_rw_reset b now =
     b\<lparr>read_bucket := token_bucket_raw_reset (read_bucket b) (rw_cfg b),
       write_bucket := token_bucket_raw_reset (write_bucket b) (rw_cfg b),
       last_refilled_at_timestamp := now\<rparr>"

definition token_bucket_rw_init :: "nat \<Rightarrow> u32 \<Rightarrow> u32 \<Rightarrow> u32 \<Rightarrow> token_bucket_rw" where
  "token_bucket_rw_init ticks r bst now =
     (let b = \<lparr>rw_cfg = \<lparr>rate = 0, burst = 0\<rparr>, read_bucket = \<lparr>bucket = 0\<rparr>,
               write_bucket = \<lparr>bucket = 0\<rparr>, last_refilled_at_timestamp = 0\<rparr>
      in token_bucket_rw_reset (token_bucket_rw_adjust ticks b r bst) now)"

text \<open>The flags \<open>TB_READ\<close> and \<open>TB_WRITE\<close> of the returned bitmask are a pair of booleans.\<close>

definition token_bucket_rw_refill :: "token_bucket_rw \<Rightarrow> u32 \<Rightarrow> ((bool \<times> bool) \<times> token_bucket_rw) option" where
  "token_bucket_rw_refill b now =
     (let elapsed_ticks = unat (now - last_refilled_at_timestamp b)
      in if elapsed_ticks \<le> (2 ^ 32 - 1) div 4 then
           let elapsed_steps = elapsed_ticks div TICKS_PER_STEP
           in if elapsed_steps = 0 then Some ((False, False), b)
              else
                case token_bucket_raw_refill_steps (read_bucket b) (rw_cfg b) elapsed_steps of
                  None \<Rightarrow> None
                | Some (fr, rb) \<Rightarrow>
                    (case token_bucket_raw_refill_steps (write_bucket b) (rw_cfg b) elapsed_steps of
                       None \<Rightarrow> None
                     | Some (fw, wb) \<Rightarrow>
                         Some ((fr, fw), b\<lparr>read_bucket := rb, write_bucket := wb,
                                          last_refilled_at_timestamp := now\<rparr>))
         else Some ((False, False), b\<lparr>last_refilled_at_timestamp := now\<rparr>))"

definition token_bucket_rw_dec_read :: "token_bucket_rw \<Rightarrow> int \<Rightarrow> bool \<times> token_bucket_rw" where
  "token_bucket_rw_dec_read b n =
     (case token_bucket_raw_dec (read_bucket b) n of (f, rb) \<Rightarrow> (f, b\<lparr>read_bucket := rb\<rparr>))"

definition token_bucket_rw_dec_write :: "token_bucket_rw \<Rightarrow> int \<Rightarrow> bool \<times> token_bucket_rw" where
  "token_bucket_rw_dec_write b n =
     (case token_bucket_raw_dec (write_bucket b) n of (f, wb) \<Rightarrow> (f, b\<lparr>write_bucket := wb\<rparr>))"

definition token_bucket_rw_dec :: "token_bucket_rw \<Rightarrow> int \<Rightarrow> int \<Rightarrow> (bool \<times> bool) \<times> token_bucket_rw" where
  "token_bucket_rw_dec b n_read n_written =
     (case token_bucket_rw_dec_read b n_read of (fr, b) \<Rightarrow>
        (case token_bucket_rw_dec_write b n_written of (fw, b) \<Rightarrow> ((fr, fw), b)))"

record token_bucket_ctr =
  ctr_cfg :: token_bucket_cfg
  counter :: token_bucket_raw
  ctr_last_refilled_at_timestamp :: u32

definition token_bucket_ctr_adjust :: "token_bucket_ctr \<Rightarrow> u32 \<Rightarrow> u32 \<Rightarrow> token_bucket_ctr" where
  "token_bucket_ctr_adjust b r bst =
     (let cfg = token_bucket_cfg_init r bst
      in b\<lparr>ctr_cfg := cfg, counter := token_bucket_raw_adjust (counter b) cfg\<rparr>)"

definition token_bucket_ctr_reset :: "token_bucket_ctr \<Rightarrow> u32 \<Rightarrow> token_bucket_ctr" where
  "token_bucket_ctr_reset b now =
     b\<lparr>counter := token_bucket_raw_reset (counter b) (ctr_cfg b), ctr_last_refilled_at_timestamp := now\<rparr>"

definition token_bucket_ctr_init :: "u32 \<Rightarrow> u32 \<Rightarrow> u32 \<Rightarrow> token_bucket_ctr" where
  "token_bucket_ctr_init r bst now =
     (let b = \<lparr>ctr_cfg = \<lparr>rate = 0, burst = 0\<rparr>, counter = \<lparr>bucket = 0\<rparr>,
               ctr_last_refilled_at_timestamp = 0\<rparr>
      in token_bucket_ctr_reset (token_bucket_ctr_adjust b r bst) now)"

definition token_bucket_ctr_refill :: "token_bucket_ctr \<Rightarrow> u32 \<Rightarrow> token_bucket_ctr option" where
  "token_bucket_ctr_refill b now =
     (let elapsed_sec = unat (now - ctr_last_refilled_at_timestamp b)
      in if elapsed_sec \<le> (2 ^ 32 - 1) div 4 then
           (case token_bucket_raw_refill_steps (counter b) (ctr_cfg b) elapsed_sec of
              None \<Rightarrow> None
            | Some (f, c) \<Rightarrow> Some (b\<lparr>counter := c, ctr_last_refilled_at_timestamp := now\<rparr>))
         else Some (b\<lparr>ctr_last_refilled_at_timestamp := now\<rparr>))"

definition token_bucket_ctr_dec :: "token_bucket_ctr \<Rightarrow> int \<Rightarrow> bool \<times> token_bucket_ctr" where
  "token_bucket_ctr_dec b n =
     (case token_bucket_raw_dec (counter b) n of (f, c) \<Rightarrow> (f, b\<lparr>counter := c\<rparr>))"

section \<open>Well-formed buckets\<close>

definition wf_cfg :: "token_bucket_cfg \<Rightarrow> bool" where
  "wf_cfg cfg \<longleftrightarrow> 0 < rate cfg \<and> rate cfg < 2 ^ 32 \<and> 0 \<le> burst cfg \<and> burst cfg < 2 ^ 31"

definition wf_raw :: "token_bucket_cfg \<Rightarrow> token_bucket_raw \<Rightarrow> bool" where
  "wf_raw cfg b \<longleftrightarrow> - (2 ^ 31) \<le> bucket b \<and> bucket b \<le> burst cfg"

lemma to_int32_id: "- (2 ^ 31) \<le> x \<Longrightarrow> x < 2 ^ 31 \<Longrightarrow> to_int32 x = x"
  by (simp add: to_int32_def)

lemma wf_cfg_init: "0 < r \<Longrightarrow> wf_cfg (token_bucket_cfg_init r b)"
  using unat_less_exp [of r]
  by (auto simp: wf_cfg_def token_bucket_cfg_init_def TOKEN_BUCKET_MAX_BURST_def Let_def unat_gt_0 word_gt_0)

lemma rate_per_step_pos: "0 < rate_per_sec_to_rate_per_step ticks r"
  by (simp add: rate_per_sec_to_rate_per_step_def Let_def word_gt_0)

lemma refill_steps_exact:
  assumes cfg: "wf_cfg cfg" and b: "wf_raw cfg b"
  shows "token_bucket_raw_refill_steps b cfg elapsed =
    (let l = min (burst cfg) (bucket b + int (rate cfg) * int elapsed)
     in Some (bucket b \<le> 0 \<and> 0 < l, b\<lparr>bucket := l\<rparr>))"
proof -
  define g where "g = nat (burst cfg - bucket b)"
  have g: "int g = burst cfg - bucket b" "g < 2 ^ 32"
    using cfg b by (auto simp: g_def wf_cfg_def wf_raw_def)
  have gap: "nat ((burst cfg - bucket b) mod 2 ^ 64) = g"
    unfolding g(1) [symmetric] using g(2) by (subst mod_pos_pos_trivial) simp_all
  have pos: "0 < rate cfg" using cfg by (simp add: wf_cfg_def)
  show ?thesis
  proof (cases "elapsed > g div rate cfg")
    case True
    then have "g < rate cfg * elapsed" using pos by (simp add: div_less_iff_less_mult mult.commute)
    then have "burst cfg \<le> bucket b + int (rate cfg) * int elapsed"
      using g(1) by (metis add.commute diff_le_eq less_imp_le of_nat_le_iff of_nat_mult)
    with True pos show ?thesis
      unfolding token_bucket_raw_refill_steps_def Let_def gap by simp
  next
    case False
    then have le: "rate cfg * elapsed \<le> g"
      using pos by (metis div_less_iff_less_mult mult.commute not_less)
    then have fits: "int (rate cfg * elapsed) \<le> burst cfg - bucket b" using g(1) by linarith
    then have "to_int32 (bucket b + int (rate cfg * elapsed)) = bucket b + int (rate cfg * elapsed)"
      using cfg b of_nat_0_le_iff [of "rate cfg * elapsed"]
      by (intro to_int32_id) (simp_all only: wf_cfg_def wf_raw_def, linarith+)
    moreover have "rate cfg * elapsed mod 2 ^ 32 = rate cfg * elapsed" using le g(2) by (intro mod_less) linarith
    ultimately show ?thesis
      using False pos fits unfolding token_bucket_raw_refill_steps_def Let_def gap by simp
  qed
qed

lemma dec_exact:
  assumes "wf_raw cfg b" and "wf_cfg cfg" and "0 \<le> n" and "n \<le> bucket b + 2 ^ 31"
  shows "token_bucket_raw_dec b n = (0 < bucket b \<and> bucket b \<le> n, b\<lparr>bucket := bucket b - n\<rparr>)"
proof -
  have "to_int32 (bucket b - n) = bucket b - n"
    using assms by (intro to_int32_id) (auto simp: wf_raw_def wf_cfg_def)
  then show ?thesis using assms by (auto simp: token_bucket_raw_dec_def Let_def)
qed

lemma refill_mono:
  "wf_cfg cfg \<Longrightarrow> wf_raw cfg b \<Longrightarrow> token_bucket_raw_refill_steps b cfg e = Some (f, b') \<Longrightarrow> bucket b \<le> bucket b'"
  by (auto simp: refill_steps_exact Let_def wf_raw_def)

lemma wf_raw_refill:
  assumes "wf_cfg cfg" and "wf_raw cfg b" and r: "token_bucket_raw_refill_steps b cfg e = Some (f, b')"
  shows "wf_raw cfg b'"
proof -
  have "bucket b \<le> bucket b'" using assms by (rule refill_mono)
  moreover have "bucket b' \<le> burst cfg" using assms by (auto simp: refill_steps_exact Let_def)
  ultimately show ?thesis using assms by (simp add: wf_raw_def)
qed

lemma wf_raw_dec:
  "wf_cfg cfg \<Longrightarrow> wf_raw cfg b \<Longrightarrow> n \<le> bucket b + 2 ^ 31 \<Longrightarrow> token_bucket_raw_dec b n = (f, b') \<Longrightarrow> wf_raw cfg b'"
proof (cases "0 \<le> n")
  case True
  assume "wf_cfg cfg" "wf_raw cfg b" "n \<le> bucket b + 2 ^ 31" "token_bucket_raw_dec b n = (f, b')"
  with True show ?thesis using dec_exact [of cfg b n] by (auto simp: wf_raw_def)
next
  case False
  assume "wf_raw cfg b" "token_bucket_raw_dec b n = (f, b')"
  with False show ?thesis by (simp add: token_bucket_raw_dec_def)
qed

lemma wf_raw_adjust: "wf_cfg cfg \<Longrightarrow> - (2 ^ 31) \<le> bucket b \<Longrightarrow> wf_raw cfg (token_bucket_raw_adjust b cfg)"
  by (auto simp: wf_raw_def wf_cfg_def token_bucket_raw_adjust_def)

lemma wf_raw_reset: "wf_cfg cfg \<Longrightarrow> wf_raw cfg (token_bucket_raw_reset b cfg)"
  by (auto simp: wf_raw_def wf_cfg_def token_bucket_raw_reset_def)

section \<open>The read-write bucket as a state machine\<close>

text \<open>
  The steps the callers make, in any order: reconfigure, reset, refill at some time, and account for
  traffic. The only thing asked of the callers is that one decrement does not take more than
  \<open>2 ^ 31\<close> below the current level, where the 32-bit level would wrap to a large positive one.
\<close>

inductive rw_step :: "nat \<Rightarrow> token_bucket_rw \<Rightarrow> token_bucket_rw \<Rightarrow> bool" for ticks where
  adjust: "rw_step ticks b (token_bucket_rw_adjust ticks b r bst)"
| reset: "rw_step ticks b (token_bucket_rw_reset b now)"
| refill: "token_bucket_rw_refill b now = Some (f, b') \<Longrightarrow> rw_step ticks b b'"
| dec: "n_read \<le> bucket (read_bucket b) + 2 ^ 31 \<Longrightarrow> n_written \<le> bucket (write_bucket b) + 2 ^ 31 \<Longrightarrow>
    token_bucket_rw_dec b n_read n_written = (f, b') \<Longrightarrow> rw_step ticks b b'"

inductive rw_reachable :: "nat \<Rightarrow> token_bucket_rw \<Rightarrow> bool" for ticks where
  init: "rw_reachable ticks (token_bucket_rw_init ticks r bst now)"
| step: "rw_reachable ticks b \<Longrightarrow> rw_step ticks b b' \<Longrightarrow> rw_reachable ticks b'"

definition wf_rw :: "token_bucket_rw \<Rightarrow> bool" where
  "wf_rw b \<longleftrightarrow> wf_cfg (rw_cfg b) \<and> wf_raw (rw_cfg b) (read_bucket b) \<and> wf_raw (rw_cfg b) (write_bucket b)"

lemma wf_rw_adjust:
  "- (2 ^ 31) \<le> bucket (read_bucket b) \<Longrightarrow> - (2 ^ 31) \<le> bucket (write_bucket b) \<Longrightarrow>
   wf_rw (token_bucket_rw_adjust ticks b r bst)"
  by (simp add: wf_rw_def token_bucket_rw_adjust_def Let_def wf_cfg_init rate_per_step_pos wf_raw_adjust)

lemma wf_rw_reset: "wf_cfg (rw_cfg b) \<Longrightarrow> wf_rw (token_bucket_rw_reset b now)"
  by (simp add: wf_rw_def token_bucket_rw_reset_def wf_raw_reset)

lemma wf_rw_refill: "wf_rw b \<Longrightarrow> token_bucket_rw_refill b now = Some (f, b') \<Longrightarrow> wf_rw b'"
  by (auto simp: wf_rw_def token_bucket_rw_refill_def Let_def intro: wf_raw_refill
      split: if_splits option.splits prod.splits)

lemma wf_rw_dec:
  assumes "wf_rw b" and "n_read \<le> bucket (read_bucket b) + 2 ^ 31"
    and "n_written \<le> bucket (write_bucket b) + 2 ^ 31" and "token_bucket_rw_dec b n_read n_written = (f, b')"
  shows "wf_rw b'"
  using assms
  by (auto simp: wf_rw_def token_bucket_rw_dec_def token_bucket_rw_dec_read_def token_bucket_rw_dec_write_def
      intro: wf_raw_dec split: prod.splits)

lemma rw_step_wf: "rw_step ticks b b' \<Longrightarrow> wf_rw b \<Longrightarrow> wf_rw b'"
proof (induction rule: rw_step.induct)
  case (adjust b r bst)
  then show ?case by (intro wf_rw_adjust) (auto simp: wf_rw_def wf_raw_def)
next
  case (reset b now)
  then show ?case by (intro wf_rw_reset) (simp add: wf_rw_def)
next
  case (refill b now f b')
  then show ?case by (blast intro: wf_rw_refill)
next
  case (dec n_read b n_written f b')
  then show ?case by (blast intro: wf_rw_dec)
qed

lemma rw_reachable_wf: "rw_reachable ticks b \<Longrightarrow> wf_rw b"
proof (induction rule: rw_reachable.induct)
  case (init r bst now)
  have "wf_rw (token_bucket_rw_adjust ticks
      \<lparr>rw_cfg = \<lparr>rate = 0, burst = 0\<rparr>, read_bucket = \<lparr>bucket = 0\<rparr>, write_bucket = \<lparr>bucket = 0\<rparr>,
       last_refilled_at_timestamp = 0\<rparr> r bst)"
    by (rule wf_rw_adjust) simp_all
  then show ?case
    unfolding token_bucket_rw_init_def Let_def by (intro wf_rw_reset) (simp add: wf_rw_def)
next
  case (step b b')
  then show ?case by (blast intro: rw_step_wf)
qed

section \<open>Spending from a bucket\<close>

datatype bucket_op = Refill nat | Spend int

text \<open>A client that spends at most what \<open>token_bucket_raw_get\<close> offers; anything else is \<open>None\<close>.\<close>

fun run_bucket :: "token_bucket_cfg \<Rightarrow> token_bucket_raw \<Rightarrow> bucket_op list \<Rightarrow> token_bucket_raw option" where
  "run_bucket cfg b [] = Some b"
| "run_bucket cfg b (Refill e # ops) =
     (case token_bucket_raw_refill_steps b cfg e of None \<Rightarrow> None | Some (f, b) \<Rightarrow> run_bucket cfg b ops)"
| "run_bucket cfg b (Spend n # ops) =
     (if 0 \<le> n \<and> n \<le> token_bucket_raw_get b then run_bucket cfg (snd (token_bucket_raw_dec b n)) ops
      else None)"

fun spent :: "bucket_op list \<Rightarrow> int" where
  "spent [] = 0"
| "spent (Refill e # ops) = spent ops"
| "spent (Spend n # ops) = n + spent ops"

fun elapsed_in :: "bucket_op list \<Rightarrow> nat" where
  "elapsed_in [] = 0"
| "elapsed_in (Refill e # ops) = e + elapsed_in ops"
| "elapsed_in (Spend n # ops) = elapsed_in ops"

lemma run_bucket_account:
  "wf_cfg cfg \<Longrightarrow> wf_raw cfg b \<Longrightarrow> 0 \<le> bucket b \<Longrightarrow> run_bucket cfg b ops = Some b' \<Longrightarrow>
   0 \<le> bucket b' \<and> bucket b' + spent ops \<le> bucket b + int (rate cfg) * int (elapsed_in ops)"
proof (induction cfg b ops rule: run_bucket.induct)
  case (1 cfg b)
  then show ?case by simp
next
  case (2 cfg b e ops)
  define l where "l = min (burst cfg) (bucket b + int (rate cfg) * int e)"
  have r: "token_bucket_raw_refill_steps b cfg e = Some (bucket b \<le> 0 \<and> 0 < l, b\<lparr>bucket := l\<rparr>)"
    using "2.prems" by (simp add: refill_steps_exact l_def Let_def)
  have "0 \<le> bucket (b\<lparr>bucket := l\<rparr>)"
    using "2.prems" by (auto simp: l_def wf_cfg_def)
  moreover have "wf_raw cfg (b\<lparr>bucket := l\<rparr>)"
    using "2.prems"(1,2) r by (rule wf_raw_refill)
  ultimately have "0 \<le> bucket b' \<and> bucket b' + spent ops \<le> l + int (rate cfg) * int (elapsed_in ops)"
    using "2.IH" [OF r refl] "2.prems" r by simp
  moreover have "l \<le> bucket b + int (rate cfg) * int e" by (simp add: l_def)
  ultimately show ?case by (simp add: distrib_left)
next
  case (3 cfg b n ops)
  then have n: "0 \<le> n" "n \<le> bucket b" by (auto simp: token_bucket_raw_get_def split: if_splits)
  have d: "snd (token_bucket_raw_dec b n) = b\<lparr>bucket := bucket b - n\<rparr>"
    using dec_exact [of cfg b n] "3.prems" n by simp
  have "wf_raw cfg (b\<lparr>bucket := bucket b - n\<rparr>)"
    using "3.prems" n by (auto simp: wf_raw_def)
  with 3 n d show ?case by (simp add: token_bucket_raw_get_def)
qed

section \<open>Properties\<close>

text \<open>on a well-formed bucket a refill adds exactly rate times elapsed tokens, capped at the burst,
  with no overflow, and reports whether an empty bucket became non-empty.\<close>

theorem token_bucket_refill_exact:
  assumes "wf_cfg cfg" and "wf_raw cfg b"
  shows "token_bucket_raw_refill_steps b cfg elapsed =
    (let l = min (burst cfg) (bucket b + int (rate cfg) * int elapsed)
     in Some (bucket b \<le> 0 \<and> 0 < l, b\<lparr>bucket := l\<rparr>))"
  using assms by (rule refill_steps_exact)

theorem token_bucket_refill_exact_witness:
  "wf_cfg \<lparr>rate = 3, burst = 100\<rparr> \<and> wf_raw \<lparr>rate = 3, burst = 100\<rparr> \<lparr>bucket = - 5\<rparr> \<and>
   token_bucket_raw_refill_steps \<lparr>bucket = - 5\<rparr> \<lparr>rate = 3, burst = 100\<rparr> 7 = Some (True, \<lparr>bucket = 16\<rparr>)"
proof -
  have h: "wf_cfg \<lparr>rate = 3, burst = 100\<rparr>" "wf_raw \<lparr>rate = 3, burst = 100\<rparr> \<lparr>bucket = - 5\<rparr>"
    by (simp_all add: wf_cfg_def wf_raw_def)
  from token_bucket_refill_exact [OF h, of 7] h show ?thesis by simp
qed



text \<open>C13: the rate limit: a client that spends only what the bucket offers spends, over any sequence of
  refills and spendings, at most the initial level plus rate times elapsed time.\<close>

theorem token_bucket_rate_limit:
  assumes "wf_cfg cfg" and "wf_raw cfg b" and "0 \<le> bucket b" and "run_bucket cfg b ops = Some b'"
  shows "spent ops \<le> bucket b + int (rate cfg) * int (elapsed_in ops)"
  using run_bucket_account [OF assms] by linarith

theorem token_bucket_rate_limit_witness:
  "wf_cfg \<lparr>rate = 3, burst = 10\<rparr> \<and> wf_raw \<lparr>rate = 3, burst = 10\<rparr> \<lparr>bucket = 10\<rparr> \<and>
   run_bucket \<lparr>rate = 3, burst = 10\<rparr> \<lparr>bucket = 10\<rparr> [Spend 8, Refill 2, Spend 8] = Some \<lparr>bucket = 0\<rparr> \<and>
   spent [Spend 8, Refill 2, Spend 8] \<le> 10 + 3 * 2"
proof -
  have h: "wf_cfg \<lparr>rate = 3, burst = 10\<rparr>" "wf_raw \<lparr>rate = 3, burst = 10\<rparr> \<lparr>bucket = 10\<rparr>"
    "0 \<le> bucket \<lparr>bucket = 10\<rparr>"
    by (simp_all add: wf_cfg_def wf_raw_def)
  have r: "run_bucket \<lparr>rate = 3, burst = 10\<rparr> \<lparr>bucket = 10\<rparr> [Spend 8, Refill 2, Spend 8] = Some \<lparr>bucket = 0\<rparr>"
    by (simp add: token_bucket_raw_refill_steps_def token_bucket_raw_dec_def token_bucket_raw_get_def to_int32_def)
  from token_bucket_rate_limit [OF h r] h r show ?thesis by simp
qed

text \<open>a counter bucket never holds more than its burst after a refill, and a jump of the clock by more
  than a quarter of its range adds nothing.\<close>

theorem token_bucket_ctr_refill_bounds:
  assumes "wf_cfg (ctr_cfg b)" and "wf_raw (ctr_cfg b) (counter b)"
  shows "\<exists>b'. token_bucket_ctr_refill b now = Some b' \<and> wf_raw (ctr_cfg b') (counter b') \<and>
    bucket (counter b) \<le> bucket (counter b') \<and>
    (unat (now - ctr_last_refilled_at_timestamp b) > (2 ^ 32 - 1) div 4 \<longrightarrow> counter b' = counter b)"
proof (cases "unat (now - ctr_last_refilled_at_timestamp b) > (2 ^ 32 - 1) div 4")
  case True
  with assms show ?thesis by (simp add: token_bucket_ctr_refill_def Let_def)
next
  case False
  obtain f c where
    c: "token_bucket_raw_refill_steps (counter b) (ctr_cfg b) (unat (now - ctr_last_refilled_at_timestamp b)) = Some (f, c)"
    using assms by (simp add: refill_steps_exact Let_def)
  with assms have "wf_raw (ctr_cfg b) c" "bucket (counter b) \<le> bucket c"
    by (blast intro: wf_raw_refill refill_mono)+
  with False c show ?thesis by (simp add: token_bucket_ctr_refill_def Let_def)
qed

theorem token_bucket_ctr_refill_bounds_witness:
  "wf_cfg (ctr_cfg (token_bucket_ctr_init 3 90 100)) \<and>
   wf_raw (ctr_cfg (token_bucket_ctr_init 3 90 100)) (counter (token_bucket_ctr_init 3 90 100)) \<and>
   (\<exists>b'. token_bucket_ctr_refill (token_bucket_ctr_init 3 90 100) 50 = Some b' \<and>
      counter b' = counter (token_bucket_ctr_init 3 90 100))"
proof -
  have h: "wf_cfg (ctr_cfg (token_bucket_ctr_init 3 90 100))"
    "wf_raw (ctr_cfg (token_bucket_ctr_init 3 90 100)) (counter (token_bucket_ctr_init 3 90 100))"
    by (simp_all add: token_bucket_ctr_init_def token_bucket_ctr_adjust_def token_bucket_ctr_reset_def
        token_bucket_cfg_init_def token_bucket_raw_reset_def TOKEN_BUCKET_MAX_BURST_def Let_def wf_cfg_def wf_raw_def)
  have j: "unat (50 - ctr_last_refilled_at_timestamp (token_bucket_ctr_init 3 90 100)) > (2 ^ 32 - 1) div 4"
    by (simp add: token_bucket_ctr_init_def token_bucket_ctr_reset_def Let_def)
  from token_bucket_ctr_refill_bounds [OF h, of 50] h j show ?thesis by blast
qed

end
