(* ===== verification/Parse_Int.thy ===== *)
theory Parse_Int
  imports Prelude
begin

text \<open>
  Integers from strings (tor/lib/parse_int.c), on top of the C library's \<open>strtol\<close> family, which is
  modelled as ISO C defines it: leading white space, an optional sign, an optional prefix, and as many
  digits of the base as follow. A string is the characters before the terminating NUL; a pointer into
  it is the number of characters skipped. The width of \<open>long\<close> is a parameter (64, or 32 on Windows).
\<close>

section \<open>The C library\<close>

definition c_isspace :: "char \<Rightarrow> bool" where
  "c_isspace c \<longleftrightarrow> c = CHR '' '' \<or> (9 \<le> (of_char c :: int) \<and> (of_char c :: int) \<le> 13)"

definition digit_value :: "char \<Rightarrow> nat option" where
  "digit_value c =
     (let n = of_char c :: int in
      if 48 \<le> n \<and> n \<le> 57 then Some (nat (n - 48))
      else if 65 \<le> n \<and> n \<le> 90 then Some (nat (n - 55))
      else if 97 \<le> n \<and> n \<le> 122 then Some (nat (n - 87))
      else None)"

definition is_digit_of :: "nat \<Rightarrow> char \<Rightarrow> bool" where
  "is_digit_of base c = (case digit_value c of None \<Rightarrow> False | Some v \<Rightarrow> v < base)"

definition digits_value :: "nat \<Rightarrow> string \<Rightarrow> nat" where
  "digits_value base = foldl (\<lambda>a c. a * base + the (digit_value c)) 0"

definition skip_prefix :: "nat \<Rightarrow> string \<Rightarrow> nat \<times> nat" where
  "skip_prefix base s =
     (let hex = 2 < length s \<and> s ! 0 = CHR ''0'' \<and> (s ! 1 = CHR ''x'' \<or> s ! 1 = CHR ''X'') \<and> is_digit_of 16 (s ! 2) in
      if base = 16 \<and> hex then (16, 2)
      else if base \<noteq> 0 then (base, 0)
      else if hex then (16, 2)
      else if s \<noteq> [] \<and> s ! 0 = CHR ''0'' then (8, 0)
      else (10, 0))"

text \<open>The sign, the magnitude and the number of characters converted; \<open>None\<close> when there is no digit.\<close>

definition scan_int :: "nat \<Rightarrow> string \<Rightarrow> (bool \<times> nat \<times> nat) option" where
  "scan_int base s =
     (let ws = length (takeWhile c_isspace s);
          t = drop ws s;
          signed = t \<noteq> [] \<and> (t ! 0 = CHR ''-'' \<or> t ! 0 = CHR ''+'');
          neg = (t \<noteq> [] \<and> t ! 0 = CHR ''-'');
          u = (if signed then drop 1 t else t);
          (b, p) = skip_prefix base u;
          ds = takeWhile (is_digit_of b) (drop p u)
      in if ds = [] then None
         else Some (neg, digits_value b ds, ws + (if signed then 1 else 0) + p + length ds))"

text \<open>The value, whether \<open>errno\<close> is \<open>ERANGE\<close>, and the end pointer.\<close>

definition strtoul :: "nat \<Rightarrow> nat \<Rightarrow> string \<Rightarrow> int \<times> bool \<times> nat" where
  "strtoul w base s =
     (case scan_int base s of
        None \<Rightarrow> (0, False, 0)
      | Some (neg, v, e) \<Rightarrow>
          if int v \<ge> 2 ^ w then (2 ^ w - 1, True, e)
          else (if neg then (- int v) mod 2 ^ w else int v, False, e))"

definition strtol :: "nat \<Rightarrow> nat \<Rightarrow> string \<Rightarrow> int \<times> bool \<times> nat" where
  "strtol w base s =
     (case scan_int base s of
        None \<Rightarrow> (0, False, 0)
      | Some (neg, v, e) \<Rightarrow>
          if neg then (if int v > 2 ^ (w - 1) then (- (2 ^ (w - 1)), True, e) else (- int v, False, e))
          else (if int v \<ge> 2 ^ (w - 1) then (2 ^ (w - 1) - 1, True, e) else (int v, False, e)))"

text \<open>\<open>printf\<close> with \<open>%d\<close> or \<open>%u\<close> on a value that is not negative.\<close>

definition digit_char :: "nat \<Rightarrow> char" where
  "digit_char d = char_of (48 + int d)"

fun show_nat :: "nat \<Rightarrow> string" where
  "show_nat n = (if n < 10 then [digit_char n] else show_nat (n div 10) @ [digit_char (n mod 10)])"

declare show_nat.simps [simp del]

section \<open>The code\<close>

record parse_result =
  parsed_value :: int
  parsed_ok :: bool
  parsed_next :: "nat option"

definition CHECK_STRTOX_RESULT :: "string \<Rightarrow> int \<Rightarrow> int \<Rightarrow> bool \<Rightarrow> int \<times> bool \<times> nat \<Rightarrow> parse_result" where
  "CHECK_STRTOX_RESULT s mn mx nxt conv =
     (case conv of (r, erange, endptr) \<Rightarrow>
        let err = \<lparr>parsed_value = 0, parsed_ok = False, parsed_next = (if nxt then Some endptr else None)\<rparr> in
        if erange then err
        else if endptr = 0 then err
        else if \<not> nxt \<and> endptr < length s then err
        else if mx < mn then err
        else if r < mn \<or> r > mx then err
        else \<lparr>parsed_value = r, parsed_ok = True, parsed_next = (if nxt then Some endptr else None)\<rparr>)"

definition tor_parse_long :: "nat \<Rightarrow> string \<Rightarrow> int \<Rightarrow> int \<Rightarrow> int \<Rightarrow> bool \<Rightarrow> parse_result" where
  "tor_parse_long w s base mn mx nxt =
     (if base < 0 then \<lparr>parsed_value = 0, parsed_ok = False, parsed_next = None\<rparr>
      else CHECK_STRTOX_RESULT s mn mx nxt (strtol w (nat base) s))"

definition tor_parse_ulong :: "nat \<Rightarrow> string \<Rightarrow> int \<Rightarrow> int \<Rightarrow> int \<Rightarrow> bool \<Rightarrow> parse_result" where
  "tor_parse_ulong w s base mn mx nxt =
     (if base < 0 then \<lparr>parsed_value = 0, parsed_ok = False, parsed_next = None\<rparr>
      else CHECK_STRTOX_RESULT s mn mx nxt (strtoul w (nat base) s))"

definition tor_parse_uint64 :: "string \<Rightarrow> int \<Rightarrow> int \<Rightarrow> int \<Rightarrow> bool \<Rightarrow> parse_result" where
  "tor_parse_uint64 s base mn mx nxt =
     (if base < 0 then \<lparr>parsed_value = 0, parsed_ok = False, parsed_next = None\<rparr>
      else CHECK_STRTOX_RESULT s mn mx nxt (strtoul 64 (nat base) s))"

section \<open>Decimal numbers\<close>

lemma of_char_digit_char: "d < 10 \<Longrightarrow> (of_char (digit_char d) :: int) = 48 + int d"
  by (simp add: digit_char_def)

lemma digit_char_value [simp]: "d < 10 \<Longrightarrow> digit_value (digit_char d) = Some d"
  by (simp add: digit_value_def Let_def of_char_digit_char)

lemma digit_char_is_digit [simp]: "d < 10 \<Longrightarrow> is_digit_of 10 (digit_char d)"
  by (simp add: is_digit_of_def)

lemma is_digit_10_iff: "is_digit_of 10 c \<longleftrightarrow> 48 \<le> (of_char c :: int) \<and> (of_char c :: int) \<le> 57"
  by (auto simp: is_digit_of_def digit_value_def Let_def)

lemma show_nat_digits: "list_all (is_digit_of 10) (show_nat n)"
  by (induction n rule: show_nat.induct) (subst show_nat.simps, simp)

lemma show_nat_not_Nil [simp]: "show_nat n \<noteq> []"
  by (subst show_nat.simps) simp

lemma digits_value_show_nat: "digits_value 10 (show_nat n) = n"
proof (induction n rule: show_nat.induct)
  case (1 n)
  show ?case
  proof (cases "n < 10")
    case True
    then show ?thesis by (simp add: show_nat.simps digits_value_def)
  next
    case False
    then have "digits_value 10 (show_nat n) = digits_value 10 (show_nat (n div 10)) * 10 + n mod 10"
      by (subst show_nat.simps) (simp add: digits_value_def)
    with 1 False show ?thesis by simp
  qed
qed

definition starts_with_digit :: "string \<Rightarrow> bool" where
  "starts_with_digit s \<longleftrightarrow> s \<noteq> [] \<and> is_digit_of 10 (hd s)"

lemma takeWhile_digits:
  "list_all P ds \<Longrightarrow> rest = [] \<or> \<not> P (hd rest) \<Longrightarrow> takeWhile P (ds @ rest) = ds"
  by (induction ds) (cases rest; auto)+

lemma digit_not_space: "is_digit_of 10 c \<Longrightarrow> \<not> c_isspace c"
  by (auto simp: is_digit_10_iff c_isspace_def)

lemma digit_not_sign: "is_digit_of 10 c \<Longrightarrow> c \<noteq> CHR ''-'' \<and> c \<noteq> CHR ''+''"
  by (auto simp: is_digit_10_iff)

text \<open>On a run of decimal digits, the scan reads them all and nothing else.\<close>

lemma scan_int_10:
  assumes ds: "list_all (is_digit_of 10) ds" "ds \<noteq> []" and rest: "\<not> starts_with_digit rest"
  shows "scan_int 10 (ds @ rest) = Some (False, digits_value 10 ds, length ds)"
proof -
  obtain c cs where c: "ds = c # cs" using ds by (cases ds) auto
  have d: "is_digit_of 10 c" using ds c by simp
  have "takeWhile (is_digit_of 10) (ds @ rest) = ds"
    using ds(1) rest by (intro takeWhile_digits) (auto simp: starts_with_digit_def)
  with c digit_not_space [OF d] digit_not_sign [OF d] show ?thesis
    by (simp add: scan_int_def skip_prefix_def Let_def)
qed

lemma tor_parse_ulong_digits:
  assumes "list_all (is_digit_of 10) ds" and "ds \<noteq> []" and "\<not> starts_with_digit rest"
    and "digits_value 10 ds < 2 ^ w" and "int (digits_value 10 ds) \<le> mx"
  shows "tor_parse_ulong w (ds @ rest) 10 0 mx True =
    \<lparr>parsed_value = int (digits_value 10 ds), parsed_ok = True, parsed_next = Some (length ds)\<rparr>"
  using assms scan_int_10 [OF assms(1,2,3)]
  by (simp add: tor_parse_ulong_def CHECK_STRTOX_RESULT_def strtoul_def Let_def)

lemma show_nat_split:
  "\<not> starts_with_digit rest \<Longrightarrow> scan_int 10 (show_nat n @ rest) = Some (False, n, length (show_nat n))"
  using scan_int_10 [OF show_nat_digits show_nat_not_Nil, of rest n] by (simp add: digits_value_show_nat)

section \<open>Properties\<close>

text \<open>a printed number parses back, whatever follows it that is not a digit, when it is in the
  bounds and in the machine type, and the end pointer is just after it.\<close>

theorem tor_parse_show_nat:
  assumes "\<not> starts_with_digit rest" and "mn \<le> int n" and "int n \<le> mx" and "n < 2 ^ 63"
  shows "tor_parse_uint64 (show_nat n @ rest) 10 mn mx True =
      \<lparr>parsed_value = int n, parsed_ok = True, parsed_next = Some (length (show_nat n))\<rparr> \<and>
    tor_parse_ulong 64 (show_nat n @ rest) 10 mn mx True = tor_parse_uint64 (show_nat n @ rest) 10 mn mx True \<and>
    tor_parse_long 64 (show_nat n @ rest) 10 mn mx True = tor_parse_uint64 (show_nat n @ rest) 10 mn mx True"
  using assms show_nat_split [OF assms(1), of n]
  by (simp add: tor_parse_uint64_def tor_parse_ulong_def tor_parse_long_def CHECK_STRTOX_RESULT_def
      strtoul_def strtol_def Let_def)

theorem tor_parse_show_nat_witness:
  "\<not> starts_with_digit ''-90'' \<and> show_nat 407 @ ''-90'' = ''407-90'' \<and>
   tor_parse_uint64 ''407-90'' 10 0 1000 True = \<lparr>parsed_value = 407, parsed_ok = True, parsed_next = Some 3\<rparr>"
proof -
  have h: "\<not> starts_with_digit ''-90''" by code_simp
  have s: "show_nat 407 = ''407''" by code_simp
  have "tor_parse_uint64 (show_nat 407 @ ''-90'') 10 0 1000 True = \<lparr>parsed_value = int 407, parsed_ok = True, parsed_next = Some (length (show_nat 407))\<rparr>"
    using tor_parse_show_nat [OF h, of 0 407 1000] by simp
  with h s show ?thesis by simp
qed

text \<open>whatever the string, an accepted number lies within the bounds, at least one character was
  converted, and the value is the one the digits denote, never a truncated one.\<close>

theorem tor_parse_long_sound:
  assumes "parsed_ok (tor_parse_long w s base mn mx nxt)"
  shows "mn \<le> parsed_value (tor_parse_long w s base mn mx nxt) \<and> parsed_value (tor_parse_long w s base mn mx nxt) \<le> mx \<and>
    (\<exists>neg v e. scan_int (nat base) s = Some (neg, v, e) \<and> 0 < e \<and>
       parsed_value (tor_parse_long w s base mn mx nxt) = (if neg then - int v else int v) \<and>
       (nxt \<or> length s \<le> e))"
  using assms
  by (auto simp: tor_parse_long_def CHECK_STRTOX_RESULT_def strtol_def Let_def
      split: if_splits prod.splits option.splits)

theorem tor_parse_long_sound_witness:
  "parsed_ok (tor_parse_long 64 '' -0x1f'' 0 (-50) 50 False) \<and> parsed_value (tor_parse_long 64 '' -0x1f'' 0 (-50) 50 False) = - 31 \<and>
   - 50 \<le> parsed_value (tor_parse_long 64 '' -0x1f'' 0 (-50) 50 False)"
proof -
  have e: "tor_parse_long 64 '' -0x1f'' 0 (-50) 50 False = \<lparr>parsed_value = - 31, parsed_ok = True, parsed_next = None\<rparr>"
    by (simp add: tor_parse_long_def CHECK_STRTOX_RESULT_def strtol_def scan_int_def skip_prefix_def
        c_isspace_def is_digit_of_def digit_value_def digits_value_def)
  then have "parsed_ok (tor_parse_long 64 '' -0x1f'' 0 (-50) 50 False)" by simp
  from tor_parse_long_sound [OF this] e show ?thesis by simp
qed

end
