(* ===== verification/Ctype.thy ===== *)
theory Ctype
  imports Prelude
begin

text \<open>
  Character classes (tor/lib/compat_ctype.c and .h): the bit tables the \<open>TOR_IS...\<close> functions read, the
  case tables, and the hex digits. A \<open>char\<close> is one of 256 byte values; the tables index it unsigned.
\<close>

section \<open>The tables\<close>

definition TOR_ISALPHA_TABLE :: "u32 list" where
  "TOR_ISALPHA_TABLE = [0, 0, 0x7fffffe, 0x7fffffe, 0, 0, 0, 0]"

definition TOR_ISALNUM_TABLE :: "u32 list" where
  "TOR_ISALNUM_TABLE = [0, 0x3ff0000, 0x7fffffe, 0x7fffffe, 0, 0, 0, 0]"

definition TOR_ISSPACE_TABLE :: "u32 list" where
  "TOR_ISSPACE_TABLE = [0x3e00, 1, 0, 0, 0, 0, 0, 0]"

definition TOR_ISXDIGIT_TABLE :: "u32 list" where
  "TOR_ISXDIGIT_TABLE = [0, 0x3ff0000, 0x7e, 0x7e, 0, 0, 0, 0]"

definition TOR_ISDIGIT_TABLE :: "u32 list" where
  "TOR_ISDIGIT_TABLE = [0, 0x3ff0000, 0, 0, 0, 0, 0, 0]"

definition TOR_ISPRINT_TABLE :: "u32 list" where
  "TOR_ISPRINT_TABLE = [0, 0xffffffff, 0xffffffff, 0x7fffffff, 0, 0, 0, 0]"

definition TOR_ISUPPER_TABLE :: "u32 list" where
  "TOR_ISUPPER_TABLE = [0, 0, 0x7fffffe, 0, 0, 0, 0, 0]"

definition TOR_ISLOWER_TABLE :: "u32 list" where
  "TOR_ISLOWER_TABLE = [0, 0, 0, 0x7fffffe, 0, 0, 0, 0]"

definition TOR_TOUPPER_TABLE :: "byte list" where
  "TOR_TOUPPER_TABLE =
    [0x00, 0x01, 0x02, 0x03, 0x04, 0x05, 0x06, 0x07, 0x08, 0x09, 0x0A, 0x0B, 0x0C, 0x0D, 0x0E, 0x0F,
     0x10, 0x11, 0x12, 0x13, 0x14, 0x15, 0x16, 0x17, 0x18, 0x19, 0x1A, 0x1B, 0x1C, 0x1D, 0x1E, 0x1F,
     0x20, 0x21, 0x22, 0x23, 0x24, 0x25, 0x26, 0x27, 0x28, 0x29, 0x2A, 0x2B, 0x2C, 0x2D, 0x2E, 0x2F,
     0x30, 0x31, 0x32, 0x33, 0x34, 0x35, 0x36, 0x37, 0x38, 0x39, 0x3A, 0x3B, 0x3C, 0x3D, 0x3E, 0x3F,
     0x40, 0x41, 0x42, 0x43, 0x44, 0x45, 0x46, 0x47, 0x48, 0x49, 0x4A, 0x4B, 0x4C, 0x4D, 0x4E, 0x4F,
     0x50, 0x51, 0x52, 0x53, 0x54, 0x55, 0x56, 0x57, 0x58, 0x59, 0x5A, 0x5B, 0x5C, 0x5D, 0x5E, 0x5F,
     0x60, 0x41, 0x42, 0x43, 0x44, 0x45, 0x46, 0x47, 0x48, 0x49, 0x4A, 0x4B, 0x4C, 0x4D, 0x4E, 0x4F,
     0x50, 0x51, 0x52, 0x53, 0x54, 0x55, 0x56, 0x57, 0x58, 0x59, 0x5A, 0x7B, 0x7C, 0x7D, 0x7E, 0x7F,
     0x80, 0x81, 0x82, 0x83, 0x84, 0x85, 0x86, 0x87, 0x88, 0x89, 0x8A, 0x8B, 0x8C, 0x8D, 0x8E, 0x8F,
     0x90, 0x91, 0x92, 0x93, 0x94, 0x95, 0x96, 0x97, 0x98, 0x99, 0x9A, 0x9B, 0x9C, 0x9D, 0x9E, 0x9F,
     0xA0, 0xA1, 0xA2, 0xA3, 0xA4, 0xA5, 0xA6, 0xA7, 0xA8, 0xA9, 0xAA, 0xAB, 0xAC, 0xAD, 0xAE, 0xAF,
     0xB0, 0xB1, 0xB2, 0xB3, 0xB4, 0xB5, 0xB6, 0xB7, 0xB8, 0xB9, 0xBA, 0xBB, 0xBC, 0xBD, 0xBE, 0xBF,
     0xC0, 0xC1, 0xC2, 0xC3, 0xC4, 0xC5, 0xC6, 0xC7, 0xC8, 0xC9, 0xCA, 0xCB, 0xCC, 0xCD, 0xCE, 0xCF,
     0xD0, 0xD1, 0xD2, 0xD3, 0xD4, 0xD5, 0xD6, 0xD7, 0xD8, 0xD9, 0xDA, 0xDB, 0xDC, 0xDD, 0xDE, 0xDF,
     0xE0, 0xE1, 0xE2, 0xE3, 0xE4, 0xE5, 0xE6, 0xE7, 0xE8, 0xE9, 0xEA, 0xEB, 0xEC, 0xED, 0xEE, 0xEF,
     0xF0, 0xF1, 0xF2, 0xF3, 0xF4, 0xF5, 0xF6, 0xF7, 0xF8, 0xF9, 0xFA, 0xFB, 0xFC, 0xFD, 0xFE, 0xFF]"

definition TOR_TOLOWER_TABLE :: "byte list" where
  "TOR_TOLOWER_TABLE =
    [0x00, 0x01, 0x02, 0x03, 0x04, 0x05, 0x06, 0x07, 0x08, 0x09, 0x0A, 0x0B, 0x0C, 0x0D, 0x0E, 0x0F,
     0x10, 0x11, 0x12, 0x13, 0x14, 0x15, 0x16, 0x17, 0x18, 0x19, 0x1A, 0x1B, 0x1C, 0x1D, 0x1E, 0x1F,
     0x20, 0x21, 0x22, 0x23, 0x24, 0x25, 0x26, 0x27, 0x28, 0x29, 0x2A, 0x2B, 0x2C, 0x2D, 0x2E, 0x2F,
     0x30, 0x31, 0x32, 0x33, 0x34, 0x35, 0x36, 0x37, 0x38, 0x39, 0x3A, 0x3B, 0x3C, 0x3D, 0x3E, 0x3F,
     0x40, 0x61, 0x62, 0x63, 0x64, 0x65, 0x66, 0x67, 0x68, 0x69, 0x6A, 0x6B, 0x6C, 0x6D, 0x6E, 0x6F,
     0x70, 0x71, 0x72, 0x73, 0x74, 0x75, 0x76, 0x77, 0x78, 0x79, 0x7A, 0x5B, 0x5C, 0x5D, 0x5E, 0x5F,
     0x60, 0x61, 0x62, 0x63, 0x64, 0x65, 0x66, 0x67, 0x68, 0x69, 0x6A, 0x6B, 0x6C, 0x6D, 0x6E, 0x6F,
     0x70, 0x71, 0x72, 0x73, 0x74, 0x75, 0x76, 0x77, 0x78, 0x79, 0x7A, 0x7B, 0x7C, 0x7D, 0x7E, 0x7F,
     0x80, 0x81, 0x82, 0x83, 0x84, 0x85, 0x86, 0x87, 0x88, 0x89, 0x8A, 0x8B, 0x8C, 0x8D, 0x8E, 0x8F,
     0x90, 0x91, 0x92, 0x93, 0x94, 0x95, 0x96, 0x97, 0x98, 0x99, 0x9A, 0x9B, 0x9C, 0x9D, 0x9E, 0x9F,
     0xA0, 0xA1, 0xA2, 0xA3, 0xA4, 0xA5, 0xA6, 0xA7, 0xA8, 0xA9, 0xAA, 0xAB, 0xAC, 0xAD, 0xAE, 0xAF,
     0xB0, 0xB1, 0xB2, 0xB3, 0xB4, 0xB5, 0xB6, 0xB7, 0xB8, 0xB9, 0xBA, 0xBB, 0xBC, 0xBD, 0xBE, 0xBF,
     0xC0, 0xC1, 0xC2, 0xC3, 0xC4, 0xC5, 0xC6, 0xC7, 0xC8, 0xC9, 0xCA, 0xCB, 0xCC, 0xCD, 0xCE, 0xCF,
     0xD0, 0xD1, 0xD2, 0xD3, 0xD4, 0xD5, 0xD6, 0xD7, 0xD8, 0xD9, 0xDA, 0xDB, 0xDC, 0xDD, 0xDE, 0xDF,
     0xE0, 0xE1, 0xE2, 0xE3, 0xE4, 0xE5, 0xE6, 0xE7, 0xE8, 0xE9, 0xEA, 0xEB, 0xEC, 0xED, 0xEE, 0xEF,
     0xF0, 0xF1, 0xF2, 0xF3, 0xF4, 0xF5, 0xF6, 0xF7, 0xF8, 0xF9, 0xFA, 0xFB, 0xFC, 0xFD, 0xFE, 0xFF]"

section \<open>The code\<close>

definition ctype_lookup :: "u32 list \<Rightarrow> char \<Rightarrow> bool" where
  "ctype_lookup tbl c =
     (let u = of_char c :: byte
      in (tbl ! unat (drop_bit 5 u AND 7)) AND push_bit (unat (u AND 31)) 1 \<noteq> 0)"

definition TOR_ISALPHA :: "char \<Rightarrow> bool" where
  "TOR_ISALPHA c = ctype_lookup TOR_ISALPHA_TABLE c"

definition TOR_ISALNUM :: "char \<Rightarrow> bool" where
  "TOR_ISALNUM c = ctype_lookup TOR_ISALNUM_TABLE c"

definition TOR_ISSPACE :: "char \<Rightarrow> bool" where
  "TOR_ISSPACE c = ctype_lookup TOR_ISSPACE_TABLE c"

definition TOR_ISDIGIT :: "char \<Rightarrow> bool" where
  "TOR_ISDIGIT c = ctype_lookup TOR_ISDIGIT_TABLE c"

definition TOR_ISXDIGIT :: "char \<Rightarrow> bool" where
  "TOR_ISXDIGIT c = ctype_lookup TOR_ISXDIGIT_TABLE c"

definition TOR_ISPRINT :: "char \<Rightarrow> bool" where
  "TOR_ISPRINT c = ctype_lookup TOR_ISPRINT_TABLE c"

definition TOR_ISLOWER :: "char \<Rightarrow> bool" where
  "TOR_ISLOWER c = ctype_lookup TOR_ISLOWER_TABLE c"

definition TOR_ISUPPER :: "char \<Rightarrow> bool" where
  "TOR_ISUPPER c = ctype_lookup TOR_ISUPPER_TABLE c"

definition TOR_TOLOWER :: "char \<Rightarrow> char" where
  "TOR_TOLOWER c = char_of (uint (TOR_TOLOWER_TABLE ! unat (of_char c :: byte)))"

definition TOR_TOUPPER :: "char \<Rightarrow> char" where
  "TOR_TOUPPER c = char_of (uint (TOR_TOUPPER_TABLE ! unat (of_char c :: byte)))"

text \<open>The labels of the cases of the switch, with the values they return.\<close>

definition hex_cases :: "(string \<times> int) list" where
  "hex_cases =
    [(''0'', 0), (''1'', 1), (''2'', 2), (''3'', 3), (''4'', 4), (''5'', 5), (''6'', 6), (''7'', 7),
     (''8'', 8), (''9'', 9), (''Aa'', 10), (''Bb'', 11), (''Cc'', 12), (''Dd'', 13), (''Ee'', 14), (''Ff'', 15)]"

definition hex_decode_digit :: "char \<Rightarrow> int" where
  "hex_decode_digit c =
     (case find (\<lambda>(labels, v). c \<in> set labels) hex_cases of Some (labels, v) \<Rightarrow> v | None \<Rightarrow> - 1)"

section \<open>What the tables decide\<close>

definition is_upper :: "int \<Rightarrow> bool" where "is_upper n \<longleftrightarrow> 65 \<le> n \<and> n \<le> 90"
definition is_lower :: "int \<Rightarrow> bool" where "is_lower n \<longleftrightarrow> 97 \<le> n \<and> n \<le> 122"
definition is_digit :: "int \<Rightarrow> bool" where "is_digit n \<longleftrightarrow> 48 \<le> n \<and> n \<le> 57"
definition is_xletter :: "int \<Rightarrow> bool" where "is_xletter n \<longleftrightarrow> (65 \<le> n \<and> n \<le> 70) \<or> (97 \<le> n \<and> n \<le> 102)"

definition table_bits :: "u32 list \<Rightarrow> bool list" where
  "table_bits tbl = concat (map (\<lambda>w. map (bit w) [0..<32]) tbl)"

lemma nth_concat_map_upt:
  "n < length xs * k \<Longrightarrow> concat (map (\<lambda>x. map (f x) [0..<k]) xs) ! n = f (xs ! (n div k)) (n mod k)"
proof (induction xs arbitrary: n)
  case Nil
  then show ?case by simp
next
  case (Cons x xs)
  have "0 < k" using Cons.prems by (cases k) auto
  show ?case
  proof (cases "n < k")
    case True
    then show ?thesis by (simp add: nth_append)
  next
    case False
    then have "n div k = Suc ((n - k) div k)" "n mod k = (n - k) mod k"
      using \<open>0 < k\<close> by (simp_all add: le_div_geq le_mod_geq)
    then show ?thesis using False Cons.IH [of "n - k"] Cons.prems by (simp add: nth_append)
  qed
qed

lemma of_char_byte: "unat (of_char c :: byte) = of_char c"
proof -
  have "(of_char c :: byte) = of_nat (of_char c)" by (simp add: of_nat_of_char)
  then show ?thesis using nat_of_char_less_256 [of c] by (simp add: unat_of_nat)
qed

lemma ctype_lookup_bits:
  assumes "length tbl = 8"
  shows "ctype_lookup tbl c = table_bits tbl ! (of_char c :: nat)"
proof -
  let ?n = "of_char c :: nat"
  define u where "u = (of_char c :: byte)"
  have u: "unat u = ?n" by (simp add: u_def of_char_byte)
  have n: "?n < 256" by simp
  have "unat (drop_bit 5 u AND 7) = ?n div 32"
  proof -
    have "drop_bit 5 u AND 7 = take_bit 3 (drop_bit 5 u)" by (simp add: take_bit_eq_mask mask_eq_exp_minus_1)
    then have "unat (drop_bit 5 u AND 7) = take_bit 3 (unat (drop_bit 5 u))" by (simp add: unsigned_take_bit_eq)
    also have "\<dots> = ?n div 32 mod 8" by (simp add: unat_drop_bit u take_bit_eq_mod)
    finally show ?thesis using n by simp
  qed
  moreover have "unat (u AND 31) = ?n mod 32"
  proof -
    have "u AND 31 = take_bit 5 u" by (simp add: take_bit_eq_mask mask_eq_exp_minus_1)
    then have "unat (u AND 31) = take_bit 5 (unat u)" by (simp only: unsigned_take_bit_eq)
    then show ?thesis by (simp add: u take_bit_eq_mod)
  qed
  moreover have "(w AND push_bit k 1 \<noteq> 0) = bit w k" if "k < 32" for w :: u32 and k
    using that by (metis and_exp_eq_0_iff_not_bit push_bit_of_1)
  ultimately show ?thesis
    using assms n by (simp add: ctype_lookup_def Let_def u_def [symmetric] table_bits_def nth_concat_map_upt)
qed

lemma bits_of_tables:
  "table_bits TOR_ISUPPER_TABLE = map is_upper [0..255]"
  "table_bits TOR_ISLOWER_TABLE = map is_lower [0..255]"
  "table_bits TOR_ISDIGIT_TABLE = map is_digit [0..255]"
  "table_bits TOR_ISALPHA_TABLE = map (\<lambda>n. is_upper n \<or> is_lower n) [0..255]"
  "table_bits TOR_ISALNUM_TABLE = map (\<lambda>n. is_upper n \<or> is_lower n \<or> is_digit n) [0..255]"
  "table_bits TOR_ISXDIGIT_TABLE = map (\<lambda>n. is_digit n \<or> is_xletter n) [0..255]"
  "table_bits TOR_ISSPACE_TABLE = map (\<lambda>n. n = 32 \<or> (9 \<le> n \<and> n \<le> 13)) [0..255]"
  "table_bits TOR_ISPRINT_TABLE = map (\<lambda>n. 32 \<le> n \<and> n \<le> 126) [0..255]"
  by code_simp+

lemma case_tables:
  "TOR_TOLOWER_TABLE = map (\<lambda>n. word_of_int (if is_upper n then n + 32 else n)) [0..255]"
  "TOR_TOUPPER_TABLE = map (\<lambda>n. word_of_int (if is_lower n then n - 32 else n)) [0..255]"
  by code_simp+

lemma nth_upto_char: "map f [0..255] ! (of_char c :: nat) = f (of_char c :: int)"
proof -
  have "[0..255] ! (of_char c :: nat) = int (of_char c)"
    using nat_of_char_less_256 [of c] by (subst nth_upto) linarith+
  then show ?thesis using nat_of_char_less_256 [of c] by (simp add: of_nat_of_char)
qed

lemma ctype_class:
  "length tbl = 8 \<Longrightarrow> table_bits tbl = map P [0..255] \<Longrightarrow> ctype_lookup tbl c = P (of_char c)"
  by (simp add: ctype_lookup_bits nth_upto_char)

lemma TOR_ISDIGIT_iff [code]: "TOR_ISDIGIT c = is_digit (of_char c)"
  and TOR_ISUPPER_iff [code]: "TOR_ISUPPER c = is_upper (of_char c)"
  and TOR_ISLOWER_iff [code]: "TOR_ISLOWER c = is_lower (of_char c)"
  and TOR_ISALPHA_iff [code]: "TOR_ISALPHA c = (is_upper (of_char c) \<or> is_lower (of_char c))"
  and TOR_ISALNUM_iff [code]: "TOR_ISALNUM c = (is_upper (of_char c) \<or> is_lower (of_char c) \<or> is_digit (of_char c))"
  and TOR_ISXDIGIT_iff [code]: "TOR_ISXDIGIT c = (is_digit (of_char c) \<or> is_xletter (of_char c))"
  and TOR_ISSPACE_iff [code]: "TOR_ISSPACE c = ((of_char c :: int) = 32 \<or> (9 \<le> (of_char c :: int) \<and> (of_char c :: int) \<le> 13))"
  and TOR_ISPRINT_iff [code]: "TOR_ISPRINT c = (32 \<le> (of_char c :: int) \<and> (of_char c :: int) \<le> 126)"
  unfolding TOR_ISDIGIT_def TOR_ISUPPER_def TOR_ISLOWER_def TOR_ISALPHA_def TOR_ISALNUM_def
    TOR_ISXDIGIT_def TOR_ISSPACE_def TOR_ISPRINT_def
  by (rule ctype_class [OF _ bits_of_tables(3)] ctype_class [OF _ bits_of_tables(1)]
      ctype_class [OF _ bits_of_tables(2)] ctype_class [OF _ bits_of_tables(4)]
      ctype_class [OF _ bits_of_tables(5)] ctype_class [OF _ bits_of_tables(6)]
      ctype_class [OF _ bits_of_tables(7)] ctype_class [OF _ bits_of_tables(8)], code_simp)+

lemma uint_byte: "0 \<le> n \<Longrightarrow> n < 256 \<Longrightarrow> uint (word_of_int n :: byte) = n"
  by (simp add: uint_word_of_int)

lemma int_of_char: "0 \<le> (of_char c :: int)" "(of_char c :: int) < 256"
  using nat_of_char_less_256 [of c] of_nat_of_char [of c, where 'a=int] by linarith+

lemma TOR_TOLOWER_eq [code]: "TOR_TOLOWER c = (if is_upper (of_char c) then char_of ((of_char c :: int) + 32) else c)"
  and TOR_TOUPPER_eq [code]: "TOR_TOUPPER c = (if is_lower (of_char c) then char_of ((of_char c :: int) - 32) else c)"
  using int_of_char [of c]
  by (simp_all add: TOR_TOLOWER_def TOR_TOUPPER_def case_tables of_char_byte nth_upto_char uint_byte is_upper_def is_lower_def)

lemma all_chars: "list_all P (Enum.enum :: char list) \<Longrightarrow> P c"
  by (simp add: list_all_iff enum_UNIV)

lemma xdigit_all: "list_all (\<lambda>c. TOR_ISXDIGIT c = (hex_decode_digit c \<noteq> - 1)) (Enum.enum :: char list)"
  by code_simp

section \<open>Properties\<close>

text \<open>the bit tables are the ASCII classes on all 256 characters, and the case tables change the ASCII
  letters only; in particular upper-casing undoes lower-casing on an upper-case letter.\<close>

theorem ctype_tables_ascii:
  "TOR_ISDIGIT c = (of_char c \<in> {48..57::int}) \<and>
   TOR_ISALPHA c = (of_char c \<in> {65..90::int} \<union> {97..122}) \<and>
   TOR_ISALNUM c = (TOR_ISALPHA c \<or> TOR_ISDIGIT c) \<and>
   TOR_ISUPPER c = (of_char c \<in> {65..90::int}) \<and> TOR_ISLOWER c = (of_char c \<in> {97..122::int}) \<and>
   TOR_ISSPACE c = (of_char c \<in> {9..13::int} \<union> {32}) \<and>
   TOR_ISPRINT c = (of_char c \<in> {32..126::int}) \<and>
   TOR_ISXDIGIT c = (hex_decode_digit c \<noteq> - 1) \<and>
   of_char (TOR_TOLOWER c) = (if TOR_ISUPPER c then of_char c + 32 else of_char c :: int) \<and>
   of_char (TOR_TOUPPER c) = (if TOR_ISLOWER c then of_char c - 32 else of_char c :: int)"
proof (intro conjI)
  show "TOR_ISXDIGIT c = (hex_decode_digit c \<noteq> - 1)" using all_chars [OF xdigit_all] by blast
qed (use int_of_char [of c] in \<open>auto simp: TOR_ISDIGIT_iff TOR_ISALPHA_iff TOR_ISALNUM_iff TOR_ISUPPER_iff TOR_ISLOWER_iff
  TOR_ISSPACE_iff TOR_ISPRINT_iff TOR_TOLOWER_eq TOR_TOUPPER_eq is_upper_def is_lower_def is_digit_def\<close>)

end
