(* ===== verification/C_String.thy ===== *)
theory C_String
  imports Parse_Int Ctype
begin

text \<open>
  Strings and text buffers: NUL-terminated strings as suffixes, splitting and joining
  (tor/lib/smartlist_split.c and smartlist_join_strings of smartlist.c), stripping
  (tor/lib/util_string.c) and hexadecimal text (tor/lib/binascii.c). A string is the characters
  before its NUL.
\<close>

section \<open>The C library\<close>

definition char_at :: "string \<Rightarrow> char" where
  "char_at s = (case s of [] \<Rightarrow> char_of (0::nat) | c # _ \<Rightarrow> c)"

text \<open>\<open>memchr\<close> on the first \<open>n\<close> characters, as the distance to the match.\<close>

definition memchr :: "string \<Rightarrow> char \<Rightarrow> nat \<Rightarrow> nat option" where
  "memchr s c n = (let k = length (takeWhile (\<lambda>d. d \<noteq> c) (take n s)) in if k < min n (length s) then Some k else None)"

fun strstr :: "string \<Rightarrow> string \<Rightarrow> nat option" where
  "strstr [] sep = (if sep = [] then Some 0 else None)"
| "strstr (c # s) sep = (if take (length sep) (c # s) = sep then Some 0 else map_option Suc (strstr s sep))"

definition c_str :: "string \<Rightarrow> string" where
  "c_str s = takeWhile (\<lambda>c. c \<noteq> char_of (0::nat)) s"

section \<open>The code\<close>

definition tor_strstrip :: "string \<Rightarrow> string \<Rightarrow> string" where
  "tor_strstrip s strip = filter (\<lambda>c. c \<notin> set strip) s"

record split_flags =
  SPLIT_SKIP_SPACE :: bool
  SPLIT_IGNORE_BLANK :: bool
  SPLIT_STRIP_SPACE :: bool

definition split_end :: "string option \<Rightarrow> int \<Rightarrow> nat \<Rightarrow> string \<Rightarrow> nat" where
  "split_end sep mx n cp =
     (if mx > 0 \<and> int n = mx - 1 then length cp
      else case sep of
             Some sep \<Rightarrow> (case strstr cp sep of Some k \<Rightarrow> k | None \<Rightarrow> length cp)
           | None \<Rightarrow> length (takeWhile (\<lambda>c. c \<noteq> CHR 0x09 \<and> c \<noteq> CHR '' '') cp))"

definition split_next :: "string option \<Rightarrow> string \<Rightarrow> string" where
  "split_next sep at_end =
     (case sep of
        Some sep \<Rightarrow> drop (length sep) at_end
      | None \<Rightarrow> dropWhile (\<lambda>c. c = CHR 0x09 \<or> c = CHR '' '') (drop 1 at_end))"

definition trim_end :: "string \<Rightarrow> string" where
  "trim_end s = rev (dropWhile TOR_ISSPACE (rev s))"

lemma split_next_shorter: "sep \<noteq> Some [] \<Longrightarrow> at_end \<noteq> [] \<Longrightarrow> length (split_next sep at_end) < length at_end"
proof (cases sep)
  case None
  assume "at_end \<noteq> []"
  with None show ?thesis
    using length_dropWhile_le [of "\<lambda>c. c = CHR 0x09 \<or> c = CHR '' ''" "drop 1 at_end"]
    by (cases at_end) (auto simp: split_next_def)
next
  case (Some s)
  assume "sep \<noteq> Some []" and "at_end \<noteq> []"
  with Some show ?thesis by (simp add: split_next_def)
qed

lemma split_step_shorter:
  assumes "sep \<noteq> Some []" and "drop e cp \<noteq> []" and "cp = (if b then dropWhile P cp0 else cp0)"
  shows "length (split_next sep (drop e cp)) < length cp0"
proof -
  have "length (split_next sep (drop e cp)) < length (drop e cp)" using assms(1,2) by (rule split_next_shorter)
  also have "\<dots> \<le> length cp" by simp
  also have "\<dots> \<le> length cp0" using assms(3) by (simp add: length_dropWhile_le)
  finally show ?thesis .
qed

text \<open>
  The loop, from the position \<open>cp\<close> with \<open>n\<close> pieces added. An empty separator never advances; no
  caller passes one, and it is \<open>None\<close>.
\<close>

function split_loop :: "string option \<Rightarrow> split_flags \<Rightarrow> int \<Rightarrow> string \<Rightarrow> nat \<Rightarrow> string list option" where
  "split_loop sep flags mx cp0 n =
     (if sep = Some [] then None
      else
        let cp = (if SPLIT_SKIP_SPACE flags then dropWhile TOR_ISSPACE cp0 else cp0);
            e = split_end sep mx n cp;
            at_end = drop e cp;
            piece = (if SPLIT_SKIP_SPACE flags then trim_end (take e cp) else take e cp);
            added = (if piece \<noteq> [] \<or> \<not> SPLIT_IGNORE_BLANK flags
                     then [if SPLIT_STRIP_SPACE flags then tor_strstrip piece '' '' else piece] else [])
        in if at_end = [] then Some added
           else map_option (\<lambda>rest. added @ rest)
             (split_loop sep flags mx (split_next sep at_end) (n + length added)))"
  by pat_completeness auto

termination
  by (relation "measure (\<lambda>(sep, flags, mx, cp, n). length cp)", simp)
    (simp only: in_measure prod.case, rule split_step_shorter, assumption+, simp_all)

declare split_loop.simps [simp del]

definition smartlist_split_string :: "string \<Rightarrow> string option \<Rightarrow> split_flags \<Rightarrow> int \<Rightarrow> string list option" where
  "smartlist_split_string str sep flags mx = split_loop sep flags mx str 0"

text \<open>The size the first loop of \<open>smartlist_join_strings2\<close> allocates for, and what the second one writes.\<close>

fun join_size :: "string list \<Rightarrow> nat \<Rightarrow> nat" where
  "join_size [] join_len = 0"
| "join_size (s # sl) join_len = length s + (if sl \<noteq> [] then join_len else 0) + join_size sl join_len"

fun join_write :: "string list \<Rightarrow> string \<Rightarrow> string" where
  "join_write [] sep = []"
| "join_write (s # sl) sep = s @ (if sl \<noteq> [] then sep else []) @ join_write sl sep"

definition smartlist_join_strings2 :: "string list \<Rightarrow> string \<Rightarrow> bool \<Rightarrow> nat \<times> string" where
  "smartlist_join_strings2 sl join terminate =
     (let n = (if terminate then length join else 0) + join_size sl (length join);
          r = join_write sl join @ (if terminate then join else [])
      in (n, r))"

definition smartlist_join_strings :: "string list \<Rightarrow> string \<Rightarrow> bool \<Rightarrow> string" where
  "smartlist_join_strings sl join terminate = snd (smartlist_join_strings2 sl join terminate)"

definition hex_digits :: string where
  "hex_digits = ''0123456789ABCDEF''"

definition base16_encode :: "byte list \<Rightarrow> string" where
  "base16_encode src = concat (map (\<lambda>b. [hex_digits ! unat (drop_bit 4 b), hex_digits ! unat (b AND 0xF)]) src)"

fun base16_decode_loop :: "string \<Rightarrow> byte list option" where
  "base16_decode_loop (a # b # src) =
     (let v1 = hex_decode_digit a; v2 = hex_decode_digit b
      in if v1 < 0 \<or> v2 < 0 then None
         else map_option (\<lambda>ds. (push_bit 4 (word_of_int v1) OR word_of_int v2) # ds) (base16_decode_loop src))"
| "base16_decode_loop src = Some []"

text \<open>The bytes stored to \<open>dest\<close> (their number is the result), \<open>None\<close> for \<open>-1\<close>.\<close>

definition base16_decode :: "nat \<Rightarrow> string \<Rightarrow> byte list option" where
  "base16_decode destlen src =
     (if length src mod 2 \<noteq> 0 then None
      else if destlen < length src div 2 \<or> destlen > 2 ^ 31 - 1 then None
      else base16_decode_loop src)"

section \<open>Scanning\<close>

lemma TOR_ISDIGIT_is_digit: "TOR_ISDIGIT c = is_digit_of 10 c"
  by (simp add: TOR_ISDIGIT_iff is_digit_def is_digit_10_iff)

lemma char_at_show_nat [simp]: "TOR_ISDIGIT (char_at (show_nat n @ rest))"
  using show_nat_digits [of n]
  by (cases "show_nat n") (auto simp: TOR_ISDIGIT_is_digit char_at_def show_nat_not_Nil [unfolded not_def])

lemma takeWhile_no_sep: "c \<notin> set a \<Longrightarrow> takeWhile (\<lambda>d. d \<noteq> c) (a @ c # rest) = a"
  by (induction a) auto

lemma takeWhile_no_sep_end: "c \<notin> set a \<Longrightarrow> takeWhile (\<lambda>d. d \<noteq> c) a = a"
  by (induction a) auto

lemma memchr_append:
  assumes "c \<notin> set a"
  shows "memchr (a @ rest) c (length a) = None"
    and "memchr (a @ c # rest) c (Suc (length a + n)) = Some (length a)"
proof -
  show "memchr (a @ rest) c (length a) = None"
    using takeWhile_no_sep_end [OF assms, THEN arg_cong, of length] by (simp add: memchr_def)
  have "take (Suc (length a + n)) (a @ c # rest) = a @ c # take n rest" by simp
  then show "memchr (a @ c # rest) c (Suc (length a + n)) = Some (length a)"
    unfolding memchr_def by (simp only: takeWhile_no_sep [OF assms] Let_def) simp
qed


lemma strstr_Some:
  "strstr s sep = Some k \<Longrightarrow> \<exists>r. drop k s = sep @ r \<and> k \<le> length s \<and> (\<forall>i<k. take (length sep) (drop i s) \<noteq> sep)"
proof (induction s arbitrary: k)
  case Nil
  then show ?case by (auto split: if_splits)
next
  case (Cons c s)
  show ?case
  proof (cases "take (length sep) (c # s) = sep")
    case True
    then have "c # s = sep @ drop (length sep) (c # s)" by (metis append_take_drop_id)
    with True Cons.prems show ?thesis by auto
  next
    case False
    with Cons.prems obtain j where j: "k = Suc j" "strstr s sep = Some j" by auto
    from Cons.IH [OF j(2)] False j(1) show ?thesis
      by (auto simp: less_Suc_eq_0_disj)
  qed
qed


definition no_flags :: split_flags where
  "no_flags = \<lparr>SPLIT_SKIP_SPACE = False, SPLIT_IGNORE_BLANK = False, SPLIT_STRIP_SPACE = False\<rparr>"

lemma no_flags_simps [simp]:
  "SPLIT_SKIP_SPACE no_flags = False" "SPLIT_IGNORE_BLANK no_flags = False" "SPLIT_STRIP_SPACE no_flags = False"
  by (simp_all add: no_flags_def)

lemma strstr_None: "strstr s sep = None \<Longrightarrow> take (length sep) (drop i s) \<noteq> sep"
proof (induction s arbitrary: i)
  case Nil
  then show ?case by (auto split: if_splits)
next
  case (Cons c s)
  then show ?case by (cases i) (auto split: if_splits)
qed

lemma strstr_char: "c \<notin> set a \<Longrightarrow> strstr a [c] = None" "c \<notin> set a \<Longrightarrow> strstr (a @ c # r) [c] = Some (length a)"
  by (induction a) auto

text \<open>One turn of the loop without flags.\<close>

lemma split_loop_plain:
  assumes "sep \<noteq> []"
  shows "split_loop (Some sep) no_flags mx cp n =
    (let e = split_end (Some sep) mx n cp
     in if drop e cp = [] then Some [take e cp]
        else map_option (\<lambda>rest. take e cp # rest) (split_loop (Some sep) no_flags mx (drop (length sep) (drop e cp)) (n + 1)))"
proof -
  have "(@) [p] = (#) p" for p :: string by auto
  with assms show ?thesis by (subst split_loop.simps) (simp add: Let_def split_next_def)
qed

lemma split_three_words:
  assumes "CHR '' '' \<notin> set a" and "CHR '' '' \<notin> set b" and "CHR '' '' \<notin> set c"
  shows "smartlist_split_string (a @ CHR '' '' # b @ CHR '' '' # c) (Some '' '') no_flags 4 = Some [a, b, c]"
proof -
  have 3: "split_loop (Some '' '') no_flags 4 c 2 = Some [c]"
    using strstr_char(1) [OF assms(3)] by (subst split_loop_plain) (simp_all add: split_end_def)
  have 2: "split_loop (Some '' '') no_flags 4 (b @ CHR '' '' # c) 1 = Some [b, c]"
    using strstr_char(2) [OF assms(2), of c] 3
    by (subst split_loop_plain) (simp_all add: split_end_def numeral_2_eq_2)
  show ?thesis
    using strstr_char(2) [OF assms(1), of "b @ CHR '' '' # c"] 2
    by (subst smartlist_split_string_def, subst split_loop_plain) (simp_all add: split_end_def)
qed

lemma split_loop_join:
  assumes "sep \<noteq> []" and "mx \<le> 0"
  shows "\<exists>ps. split_loop (Some sep) no_flags mx cp n = Some ps \<and> ps \<noteq> [] \<and> join_write ps sep = cp \<and>
    (\<forall>p\<in>set ps. strstr p sep = None)"
proof (induction "length cp" arbitrary: cp n rule: less_induct)
  case less
  show ?case
  proof (cases "strstr cp sep")
    case None
    then show ?thesis using assms by (subst split_loop_plain) (auto simp: split_end_def)
  next
    case (Some k)
    then obtain r where r: "drop k cp = sep @ r" "k \<le> length cp" and first: "\<forall>i<k. take (length sep) (drop i cp) \<noteq> sep"
      using strstr_Some by blast
    have cp: "cp = take k cp @ sep @ r" using r by (metis append_take_drop_id)
    have "length (drop k cp) = length sep + length r" using r(1) by simp
    then have "length r < length cp" using assms(1) r(2) by (cases sep) auto
    then obtain ps where ps: "split_loop (Some sep) no_flags mx r (n + 1) = Some ps" "ps \<noteq> []" "join_write ps sep = r"
      "\<forall>p\<in>set ps. strstr p sep = None" using less [of r "n + 1"] by blast
    have "strstr (take k cp) sep = None"
    proof (rule ccontr)
      assume "strstr (take k cp) sep \<noteq> None"
      then obtain j r' where j: "drop j (take k cp) = sep @ r'" "j \<le> length (take k cp)"
        using strstr_Some by (metis not_None_eq)
      have "j < k" using j assms(1) by (cases "j < k") auto
      moreover have "take (length sep) (drop j cp) = sep"
        using j by (metis append_eq_conv_conj append_take_drop_id drop_append drop_take take_add take_append take_take min.commute append.assoc)
      ultimately show False using first by blast
    qed
    then show ?thesis
      using Some ps r assms cp
      by (subst split_loop_plain) (auto simp: split_end_def intro!: exI [of _ "take k cp # ps"])
  qed
qed

lemma join_write_size: "length (join_write sl sep) = join_size sl (length sep)"
  by (induction sl) auto

section \<open>Hexadecimal text\<close>

lemma hex_digit_back: "d < 16 \<Longrightarrow> hex_decode_digit (hex_digits ! d) = int d"
proof -
  assume "d < 16"
  then have "d \<in> set [0..<16]" by simp
  moreover have "list_all (\<lambda>d. hex_decode_digit (hex_digits ! d) = int d) [0..<16]" by code_simp
  ultimately show ?thesis by (simp add: list_all_iff)
qed

lemma hex_digit_no_space: "d < 16 \<Longrightarrow> hex_digits ! d \<noteq> CHR '' '' \<and> hex_digits ! d \<noteq> CHR 0x0A \<and> hex_digits ! d \<noteq> CHR 0x00"
proof -
  assume "d < 16"
  then have "d \<in> set [0..<16]" by simp
  moreover have "list_all (\<lambda>d. hex_digits ! d \<noteq> CHR '' '' \<and> hex_digits ! d \<noteq> CHR 0x0A \<and> hex_digits ! d \<noteq> CHR 0x00) [0..<16]"
    by code_simp
  ultimately show ?thesis by (simp add: list_all_iff)
qed

lemma nybbles: "unat (drop_bit 4 b) < 16" "unat (b AND 0xF) < 16" "push_bit 4 (drop_bit 4 b) OR (b AND 0xF) = b"
  for b :: byte
proof -
  show "unat (drop_bit 4 b) < 16" using unat_less_exp [of b] by (simp add: unat_drop_bit)
  have m: "b AND 0xF = take_bit 4 b" by (simp add: take_bit_eq_mask mask_eq_exp_minus_1)
  have "unat (b AND 0xF) = take_bit 4 (unat b)" unfolding m by (simp only: unsigned_take_bit_eq)
  then show "unat (b AND 0xF) < 16" by (simp add: take_bit_eq_mod)
  show "push_bit 4 (drop_bit 4 b) OR (b AND 0xF) = b"
    unfolding m by (rule bit_word_eqI) (auto simp: bit_simps)
qed

lemma base16_encode_length: "length (base16_encode bs) = 2 * length bs"
  by (induction bs) (auto simp: base16_encode_def)

lemma base16_encode_chars:
  "c \<in> set (base16_encode bs) \<Longrightarrow> c \<noteq> CHR '' '' \<and> c \<noteq> CHR 0x0A \<and> c \<noteq> CHR 0x00"
  using nybbles hex_digit_no_space by (auto simp: base16_encode_def)

lemma base16_decode_loop_encode: "base16_decode_loop (base16_encode bs) = Some bs"
proof (induction bs)
  case Nil
  then show ?case by (simp add: base16_encode_def)
next
  case (Cons b bs)
  have "word_of_int (int (unat (drop_bit 4 b))) = drop_bit 4 b" "word_of_int (int (unat (b AND 0xF))) = b AND 0xF"
    by simp_all
  with Cons nybbles [of b] show ?case
    by (simp add: base16_encode_def hex_digit_back Let_def)
qed

section \<open>Properties\<close>

text \<open>C23: joining writes exactly the number of characters it allocates for, and splitting at a separator
  and joining the pieces again gives the string back, with no separator left in a piece.\<close>

theorem split_join_roundtrip:
  assumes "sep \<noteq> []" and "mx \<le> 0"
  shows "\<exists>ps. smartlist_split_string str (Some sep) no_flags mx = Some ps \<and>
    smartlist_join_strings ps sep False = str \<and> (\<forall>p\<in>set ps. strstr p sep = None) \<and>
    (case smartlist_join_strings2 ps sep terminate of (n, r) \<Rightarrow> length r = n)"
  using split_loop_join [OF assms, of str 0]
  by (auto simp: smartlist_split_string_def smartlist_join_strings_def smartlist_join_strings2_def Let_def join_write_size)

theorem split_join_roundtrip_witness:
  "smartlist_split_string ''a, b,,c'' (Some '','') no_flags 0 = Some [''a'', '' b'', [], ''c''] \<and>
   smartlist_join_strings [''a'', '' b'', [], ''c''] '','' False = ''a, b,,c''"
proof -
  have "smartlist_split_string ''a, b,,c'' (Some '','') no_flags 0 = Some [''a'', '' b'', [], ''c'']" by code_simp
  then show ?thesis using split_join_roundtrip [of "'',''" 0 "''a, b,,c''"] by auto
qed

text \<open>hexadecimal encoding is undone by decoding into a buffer of the right size.\<close>

theorem base16_roundtrip:
  assumes "length bs \<le> destlen" and "destlen < 2 ^ 31"
  shows "base16_decode destlen (base16_encode bs) = Some bs"
  using assms by (simp add: base16_decode_def base16_encode_length base16_decode_loop_encode)

theorem base16_roundtrip_witness:
  "base16_encode [0x0F, 0xA0] = ''0FA0'' \<and> base16_decode 2 ''0FA0'' = Some [0x0F, 0xA0]"
proof -
  have e: "base16_encode [0x0F, 0xA0] = ''0FA0''" by code_simp
  show ?thesis using base16_roundtrip [of "[0x0F, 0xA0]" 2] unfolding e by simp
qed

end
