(* ===== verification/Protover.thy ===== *)
theory Protover
  imports C_String "HOL-Library.Char_ord" "HOL-Library.List_Lexorder"
begin

text \<open>
  Subprotocol version lists (tor/core/protover.c): parsing, encoding, the authorities' vote and the
  check of the consensus's lists against what this client speaks. A pointer into a string is the
  suffix it points at, an end pointer the distance from it; NUL is read at the end of a suffix.
  The code's undefined behaviour (counting the zeros of 0, shifting by 64 or more) and a failed
  assertion are \<open>None\<close>.
\<close>

section \<open>The code\<close>

datatype protocol_type_t =
    PRT_LINK | PRT_LINKAUTH | PRT_RELAY | PRT_DIRCACHE | PRT_HSDIR | PRT_HSINTRO | PRT_HSREND
  | PRT_DESC | PRT_MICRODESC | PRT_CONS | PRT_PADDING | PRT_FLOWCTRL | PRT_CONFLUX

definition PROTOCOL_NAMES :: "(protocol_type_t \<times> string) list" where
  "PROTOCOL_NAMES =
    [(PRT_LINK, ''Link''), (PRT_LINKAUTH, ''LinkAuth''), (PRT_RELAY, ''Relay''),
     (PRT_DIRCACHE, ''DirCache''), (PRT_HSDIR, ''HSDir''), (PRT_HSINTRO, ''HSIntro''),
     (PRT_HSREND, ''HSRend''), (PRT_DESC, ''Desc''), (PRT_MICRODESC, ''Microdesc''),
     (PRT_PADDING, ''Padding''), (PRT_CONS, ''Cons''), (PRT_FLOWCTRL, ''FlowCtrl''),
     (PRT_CONFLUX, ''Conflux'')]"

definition MAX_PROTOCOL_NAME_LENGTH :: nat where
  "MAX_PROTOCOL_NAME_LENGTH = 100"

definition MAX_PROTOCOL_VERSION :: nat where
  "MAX_PROTOCOL_VERSION = 63"

definition protocol_type_to_str :: "protocol_type_t \<Rightarrow> string" where
  "protocol_type_to_str pr =
     (case filter (\<lambda>(t, n). t = pr) PROTOCOL_NAMES of (t, n) # _ \<Rightarrow> n | [] \<Rightarrow> ''UNKNOWN'')"

record proto_entry_t =
  name :: string
  bitmask :: u64

definition parse_version_range :: "string \<Rightarrow> nat \<Rightarrow> (nat \<times> nat) option" where
  "parse_version_range s end_of_range =
     (if \<not> TOR_ISDIGIT (char_at s) then None
      else
        let p = tor_parse_ulong 64 s 10 0 (int MAX_PROTOCOL_VERSION) True;
            low = nat (parsed_value p);
            nx = the (parsed_next p)
        in if \<not> parsed_ok p then None
           else if nx > end_of_range then None
           else if nx = end_of_range then Some (low, low)
           else if char_at (drop nx s) \<noteq> CHR ''-'' then None
           else
             let t = drop (nx + 1) s
             in if \<not> TOR_ISDIGIT (char_at t) then None
                else
                  let q = tor_parse_ulong 64 t 10 0 (int MAX_PROTOCOL_VERSION) True;
                      high = nat (parsed_value q)
                  in if \<not> parsed_ok q then None
                     else if nx + 1 + the (parsed_next q) \<noteq> end_of_range then None
                     else if low > high then None
                     else Some (low, high))"

definition is_valid_keyword :: "string \<Rightarrow> nat \<Rightarrow> bool" where
  "is_valid_keyword s n = list_all (\<lambda>c. TOR_ISALNUM c \<or> c = CHR ''-'') (take n s)"

definition bitmask_for_range :: "nat \<Rightarrow> nat \<Rightarrow> u64" where
  "bitmask_for_range low high =
     (let msk = NOT 0;
          msk = push_bit (63 - high) msk;
          msk = drop_bit (63 - high + low) msk;
          msk = push_bit low msk
      in msk)"

lemma parse_version_range_comma_pos:
  assumes "parse_version_range s k = Some r" and "memchr s CHR '','' n = Some k"
  shows "0 < k"
proof (rule ccontr)
  assume "\<not> 0 < k"
  with assms(2) have "char_at s = CHR '',''"
    by (cases s; cases n) (auto simp: memchr_def char_at_def split: if_splits)
  with assms(1) show False by (simp add: parse_version_range_def TOR_ISDIGIT_iff is_digit_def)
qed

text \<open>The loop over the ranges, from \<open>s\<close> to the entry's end at distance \<open>n\<close>.\<close>

function parse_ranges :: "string \<Rightarrow> nat \<Rightarrow> u64 \<Rightarrow> u64 option" where
  "parse_ranges s n msk =
     (if n = 0 then Some msk
      else
        let comma = (case memchr s CHR '','' n of None \<Rightarrow> n | Some k \<Rightarrow> k)
        in case parse_version_range s comma of
             None \<Rightarrow> None
           | Some (low, high) \<Rightarrow>
               let msk = msk OR bitmask_for_range low high
               in if comma < n - 1 then parse_ranges (drop (comma + 1) s) (n - (comma + 1)) msk
                  else parse_ranges (drop comma s) (n - comma) msk)"
  by pat_completeness auto

termination
  by (relation "measure (\<lambda>(s, n, msk). n)")
    (auto split: option.splits dest: parse_version_range_comma_pos)

definition parse_single_entry :: "string \<Rightarrow> nat \<Rightarrow> proto_entry_t option" where
  "parse_single_entry s end_of_entry =
     (case memchr s CHR ''='' end_of_entry of
        None \<Rightarrow> None
      | Some equals \<Rightarrow>
          if equals = 0 then None
          else if equals > MAX_PROTOCOL_NAME_LENGTH then None
          else if \<not> is_valid_keyword s equals then None
          else
            case parse_ranges (drop (equals + 1) s) (end_of_entry - (equals + 1)) 0 of
              None \<Rightarrow> None
            | Some msk \<Rightarrow> Some \<lparr>name = take equals s, bitmask = msk\<rparr>)"

definition end_of_entry :: "string \<Rightarrow> nat" where
  "end_of_entry s = (case memchr s CHR '' '' (length s) of None \<Rightarrow> length s | Some k \<Rightarrow> k)"

lemma parse_single_entry_pos: "parse_single_entry s n = Some e \<Longrightarrow> 0 < n"
  by (auto simp: parse_single_entry_def memchr_def Let_def split: option.splits if_splits)

function parse_protocol_list :: "string \<Rightarrow> proto_entry_t list option" where
  "parse_protocol_list s =
     (if s = [] then Some []
      else
        case parse_single_entry s (end_of_entry s) of
          None \<Rightarrow> None
        | Some entry \<Rightarrow>
            (case parse_protocol_list (dropWhile (\<lambda>c. c = CHR '' '') (drop (end_of_entry s) s)) of
               None \<Rightarrow> None
             | Some es \<Rightarrow> Some (entry # es)))"
  by pat_completeness auto

termination
proof (relation "measure length", simp)
  fix s :: string and e
  assume "s \<noteq> []" and "parse_single_entry s (end_of_entry s) = Some e"
  then have "0 < end_of_entry s" and "s \<noteq> []" by (auto dest: parse_single_entry_pos)
  moreover have "length (dropWhile (\<lambda>c. c = CHR '' '') (drop (end_of_entry s) s)) \<le> length (drop (end_of_entry s) s)"
    by (rule length_dropWhile_le)
  ultimately show "(dropWhile (\<lambda>c. c = CHR '' '') (drop (end_of_entry s) s), s) \<in> measure length"
    by (cases s) auto
qed

declare parse_ranges.simps [simp del] parse_protocol_list.simps [simp del]

definition protover_list_is_invalid :: "string \<Rightarrow> bool" where
  "protover_list_is_invalid s = (case parse_protocol_list s of None \<Rightarrow> True | Some es \<Rightarrow> False)"

definition find_entry_by_name :: "proto_entry_t list \<Rightarrow> string \<Rightarrow> proto_entry_t option" where
  "find_entry_by_name protos nm = find (\<lambda>ent. name ent = nm) protos"

definition BIT :: "nat \<Rightarrow> u64" where
  "BIT x = push_bit x 1"

definition protocol_list_contains :: "proto_entry_t list \<Rightarrow> protocol_type_t \<Rightarrow> u32 \<Rightarrow> bool" where
  "protocol_list_contains protos pr ver =
     (if unat ver > MAX_PROTOCOL_VERSION then False
      else case find_entry_by_name protos (protocol_type_to_str pr) of
             Some ent \<Rightarrow> bitmask ent AND BIT (unat ver) \<noteq> 0
           | None \<Rightarrow> False)"

definition protocol_list_supports_protocol :: "string \<Rightarrow> protocol_type_t \<Rightarrow> u32 \<Rightarrow> bool" where
  "protocol_list_supports_protocol l tp version =
     (case parse_protocol_list l of
        None \<Rightarrow> False
      | Some protocols \<Rightarrow> protocol_list_contains protocols tp version)"

definition c_tolower :: "char \<Rightarrow> char" where
  "c_tolower c = (let n = of_char c :: nat in if 65 \<le> n \<and> n \<le> 90 then char_of (n + 32) else c)"

definition strcasecmp_eq :: "string \<Rightarrow> string \<Rightarrow> bool" where
  "strcasecmp_eq a b \<longleftrightarrow> map c_tolower a = map c_tolower b"

definition protocol_list_supports_protocol_or_later :: "string \<Rightarrow> protocol_type_t \<Rightarrow> u32 \<Rightarrow> bool option" where
  "protocol_list_supports_protocol_or_later l tp version =
     (case parse_protocol_list l of
        None \<Rightarrow> Some False
      | Some protocols \<Rightarrow>
          if unat version > 63 then None
          else
            let pr_name = protocol_type_to_str tp;
                msk = bitmask_for_range (unat version) 63
            in Some (list_ex (\<lambda>proto. strcasecmp_eq (name proto) pr_name \<and> bitmask proto AND msk \<noteq> 0) protocols))"

text \<open>\<open>tls\<close> is whether \<open>HAVE_WORKING_TOR_TLS_GET_TLSSECRETS\<close> is defined.\<close>

definition protover_get_supported :: "bool \<Rightarrow> protocol_type_t \<Rightarrow> string" where
  "protover_get_supported tls type =
     (case type of
        PRT_CONFLUX \<Rightarrow> ''1''
      | PRT_CONS \<Rightarrow> ''1-2''
      | PRT_DESC \<Rightarrow> ''1-2''
      | PRT_DIRCACHE \<Rightarrow> ''2''
      | PRT_FLOWCTRL \<Rightarrow> ''1-2''
      | PRT_HSDIR \<Rightarrow> ''2''
      | PRT_HSINTRO \<Rightarrow> ''4-5''
      | PRT_HSREND \<Rightarrow> ''1-2''
      | PRT_LINK \<Rightarrow> ''1-5''
      | PRT_LINKAUTH \<Rightarrow> if tls then ''1,3'' else ''3''
      | PRT_MICRODESC \<Rightarrow> ''1-2''
      | PRT_PADDING \<Rightarrow> ''2''
      | PRT_RELAY \<Rightarrow> ''1-4'')"

definition protover_get_supported_protocols :: "bool \<Rightarrow> string" where
  "protover_get_supported_protocols tls =
     ''Conflux='' @ protover_get_supported tls PRT_CONFLUX @ '' '' @
     ''Cons='' @ protover_get_supported tls PRT_CONS @ '' '' @
     ''Desc='' @ protover_get_supported tls PRT_DESC @ '' '' @
     ''DirCache='' @ protover_get_supported tls PRT_DIRCACHE @ '' '' @
     ''FlowCtrl='' @ protover_get_supported tls PRT_FLOWCTRL @ '' '' @
     ''HSDir='' @ protover_get_supported tls PRT_HSDIR @ '' '' @
     ''HSIntro='' @ protover_get_supported tls PRT_HSINTRO @ '' '' @
     ''HSRend='' @ protover_get_supported tls PRT_HSREND @ '' '' @
     ''Link='' @ protover_get_supported tls PRT_LINK @ '' '' @
     ''LinkAuth='' @ protover_get_supported tls PRT_LINKAUTH @ '' '' @
     ''Microdesc='' @ protover_get_supported tls PRT_MICRODESC @ '' '' @
     ''Padding='' @ protover_get_supported tls PRT_PADDING @ '' '' @
     ''Relay='' @ protover_get_supported tls PRT_RELAY"

definition protover_get_recommended_client_protocols :: string where
  "protover_get_recommended_client_protocols =
     ''Cons=2 Desc=2 DirCache=2 HSDir=2 HSIntro=4 HSRend=2 '' @ ''Link=4-5 Microdesc=2 Relay=2''"

definition protover_get_recommended_relay_protocols :: string where
  "protover_get_recommended_relay_protocols =
     ''Cons=2 Desc=2 DirCache=2 HSDir=2 HSIntro=4 HSRend=2 '' @ ''Link=4-5 LinkAuth=3 Microdesc=2 Relay=2''"

definition protover_get_required_client_protocols :: string where
  "protover_get_required_client_protocols = ''Cons=2 Desc=2 Link=4 Microdesc=2 Relay=2''"

definition protover_get_required_relay_protocols :: string where
  "protover_get_required_relay_protocols =
     ''Cons=2 Desc=2 DirCache=2 HSDir=2 HSIntro=4 HSRend=2 '' @ ''Link=4-5 LinkAuth=3 Microdesc=2 Relay=2''"

definition get_supported_protocol_list :: "bool \<Rightarrow> proto_entry_t list option" where
  "get_supported_protocol_list tls = parse_protocol_list (protover_get_supported_protocols tls)"

definition protover_is_supported_here :: "bool \<Rightarrow> protocol_type_t \<Rightarrow> u32 \<Rightarrow> bool" where
  "protover_is_supported_here tls pr ver =
     (case get_supported_protocol_list tls of
        None \<Rightarrow> False
      | Some ours \<Rightarrow> protocol_list_contains ours pr ver)"

text \<open>The number of trailing zeros, \<open>None\<close> for 0.\<close>

definition trailing_zeros :: "u64 \<Rightarrow> nat option" where
  "trailing_zeros x = (if x = 0 then None else Some (length (takeWhile (\<lambda>i. \<not> bit x i) [0..<64])))"

lemma trailing_zeros_Some:
  assumes "trailing_zeros x = Some k"
  shows "k < 64 \<and> bit x k \<and> (\<forall>i<k. \<not> bit x i)"
proof -
  have x: "x \<noteq> 0" and k: "k = length (takeWhile (\<lambda>i. \<not> bit x i) [0..<64])"
    using assms by (auto simp: trailing_zeros_def split: if_splits)
  have low: "\<forall>i<k. \<not> bit x i"
  proof (intro allI impI)
    fix i assume "i < k"
    then have "i \<in> set (takeWhile (\<lambda>i. \<not> bit x i) [0..<64])"
      using nth_mem [of i "takeWhile (\<lambda>i. \<not> bit x i) [0..<64]"] takeWhile_nth [of i "\<lambda>i. \<not> bit x i" "[0..<64]"]
        length_takeWhile_le [of "\<lambda>i. \<not> bit x i" "[0..<64]"] k by simp
    then show "\<not> bit x i" by (auto dest: set_takeWhileD)
  qed
  obtain j where "j < 64" "bit x j" using x by (auto simp: bit_eq_iff dest: bit_imp_le_length)
  then have "k < 64" using low by (meson not_less less_le_trans)
  then show ?thesis using low k nth_length_takeWhile [of "\<lambda>i. \<not> bit x i" "[0..<64]"] by simp
qed

lemma encode_shift_less:
  assumes "trailing_zeros m = Some z" and "trailing_zeros (NOT (drop_bit z m)) = Some k"
  shows "0 < k \<and> unat (drop_bit k (drop_bit z m)) < unat m"
proof -
  have z: "bit m z" using trailing_zeros_Some [OF assms(1)] by simp
  have k: "bit (NOT (drop_bit z m)) k" using trailing_zeros_Some [OF assms(2)] by simp
  then have pos: "0 < k" using z by (cases k) (auto simp: bit_simps)
  have "drop_bit z m \<noteq> 0" using z by (auto simp: bit_eq_iff bit_simps intro!: exI [of _ 0])
  then have "0 < unat (drop_bit z m)" by (simp add: unat_gt_0)
  moreover have "(1::nat) < 2 ^ k" using pos by (intro one_less_power) simp_all
  ultimately have "unat (drop_bit z m) div 2 ^ k < unat (drop_bit z m)" by (intro div_less_dividend)
  moreover have "unat (drop_bit z m) \<le> unat m" by (simp add: unat_drop_bit)
  ultimately show ?thesis using pos unat_drop_bit [of k "drop_bit z m"] by linarith
qed

lemma drop_trailing_not_0: "trailing_zeros m = Some z \<Longrightarrow> drop_bit z m \<noteq> 0"
  using trailing_zeros_Some [of m z] by (auto simp: bit_eq_iff bit_simps intro!: exI [of _ 0])

function encode_ranges :: "u64 \<Rightarrow> nat \<Rightarrow> bool \<Rightarrow> string option" where
  "encode_ranges msk shift first =
     (if msk = 0 then Some []
      else
        let comma = (if first then [] else '','') in
        case trailing_zeros msk of
          None \<Rightarrow> None
        | Some zeros \<Rightarrow>
            let msk = drop_bit zeros msk;
                shift = shift + zeros
            in case (if msk = 0 then Some 64 else trailing_zeros (NOT msk)) of
                 None \<Rightarrow> None
               | Some ones \<Rightarrow>
                   let chunk = (if ones = 1 then comma @ show_nat shift
                                else comma @ show_nat shift @ ''-'' @ show_nat (shift + ones - 1))
                   in if ones = 64 then Some chunk
                      else
                        case encode_ranges (drop_bit ones msk) (shift + ones) False of
                          None \<Rightarrow> None
                        | Some rest \<Rightarrow> Some (chunk @ rest))"
  by pat_completeness auto


termination
  by (relation "measure (\<lambda>(m, sh, f). unat m)")
    (auto split: if_splits simp: drop_trailing_not_0 dest: encode_shift_less)

declare encode_ranges.simps [simp del]

definition proto_entry_encode_into :: "proto_entry_t \<Rightarrow> string option" where
  "proto_entry_encode_into entry =
     map_option (\<lambda>ranges. name entry @ ''='' @ ranges) (encode_ranges (bitmask entry) 0 True)"

primrec encode_entries :: "proto_entry_t list \<Rightarrow> string \<Rightarrow> string option" where
  "encode_entries [] separator = Some []"
| "encode_entries (ent # sl) separator =
     (case proto_entry_encode_into ent of
        None \<Rightarrow> None
      | Some chunk \<Rightarrow> map_option (\<lambda>rest. separator @ chunk @ rest) (encode_entries sl '' ''))"

definition encode_protocol_list :: "proto_entry_t list \<Rightarrow> string option" where
  "encode_protocol_list sl = encode_entries sl []"

definition add_name :: "proto_entry_t \<Rightarrow> string list \<Rightarrow> string list" where
  "add_name ent proto_names = (if name ent \<in> set proto_names then proto_names else proto_names @ [name ent])"

primrec parse_votes :: "string list \<Rightarrow> proto_entry_t list list \<Rightarrow> string list \<Rightarrow> proto_entry_t list list \<times> string list" where
  "parse_votes [] parsed proto_names = (parsed, proto_names)"
| "parse_votes (vote # votes) parsed proto_names =
     (case parse_protocol_list vote of
        None \<Rightarrow> parse_votes votes parsed proto_names
      | Some unexpanded \<Rightarrow> parse_votes votes (parsed @ [unexpanded]) (fold add_name unexpanded proto_names))"

definition count_vote :: "string \<Rightarrow> proto_entry_t list \<Rightarrow> byte list \<Rightarrow> byte list" where
  "count_vote nm vote counts =
     (case find_entry_by_name vote nm of
        None \<Rightarrow> counts
      | Some ent \<Rightarrow> map (\<lambda>i. if bitmask ent AND BIT i \<noteq> 0 then counts ! i + 1 else counts ! i) [0..<64])"

definition result_bitmask :: "byte list \<Rightarrow> int \<Rightarrow> u64" where
  "result_bitmask counts threshold =
     fold (\<lambda>i m. if uint (counts ! i) \<ge> threshold then m OR BIT i else m) [0..<64] 0"

definition vote_entries :: "proto_entry_t list list \<Rightarrow> int \<Rightarrow> string list \<Rightarrow> proto_entry_t list" where
  "vote_entries parsed threshold proto_names =
     concat (map (\<lambda>nm. let m = result_bitmask (fold (count_vote nm) parsed (replicate 64 0)) threshold
                       in if m \<noteq> 0 then [\<lparr>name = nm, bitmask = m\<rparr>] else []) proto_names)"

definition protover_compute_vote :: "string list \<Rightarrow> int \<Rightarrow> string option" where
  "protover_compute_vote list_of_proto_strings threshold =
     (if length list_of_proto_strings \<ge> 256 then None
      else if length list_of_proto_strings = 0 then Some []
      else
        case parse_votes list_of_proto_strings [] [] of
          (parsed, proto_names) \<Rightarrow> encode_protocol_list (vote_entries parsed threshold (sort proto_names)))"

definition missing_entries :: "proto_entry_t list \<Rightarrow> proto_entry_t list \<Rightarrow> proto_entry_t list" where
  "missing_entries supported entries =
     concat (map (\<lambda>ent.
       case find_entry_by_name supported (name ent) of
         None \<Rightarrow> if bitmask ent \<noteq> 0 then [\<lparr>name = name ent, bitmask = bitmask ent\<rparr>] else []
       | Some mine \<Rightarrow>
           let missing_mask = bitmask ent AND NOT (bitmask mine)
           in if missing_mask \<noteq> 0 then [\<lparr>name = name ent, bitmask = missing_mask\<rparr>] else []) entries)"

text \<open>
  The result and what is stored to \<open>missing_out\<close>, when \<open>want_missing\<close> says it is not NULL.
\<close>

definition protover_all_supported :: "bool \<Rightarrow> string option \<Rightarrow> bool \<Rightarrow> (bool \<times> string option) option" where
  "protover_all_supported tls s want_missing =
     (case s of
        None \<Rightarrow> Some (True, None)
      | Some s \<Rightarrow>
          (case parse_protocol_list s of
             None \<Rightarrow> Some (True, None)
           | Some entries \<Rightarrow>
               let supported = (case get_supported_protocol_list tls of None \<Rightarrow> [] | Some l \<Rightarrow> l);
                   missing = missing_entries supported entries;
                   all_supported = (missing = [])
               in if \<not> all_supported \<and> want_missing then
                    map_option (\<lambda>m. (all_supported, Some m)) (encode_protocol_list missing)
                  else Some (all_supported, None)))"

section \<open>Ranges of versions\<close>

lemma bit_BIT [simp]: "i < 64 \<Longrightarrow> bit (BIT i) j \<longleftrightarrow> j = i"
  by (auto simp: BIT_def bit_simps dest: bit_imp_le_length)

lemma and_BIT [simp]: "i < 64 \<Longrightarrow> (m AND BIT i \<noteq> 0) = bit m i"
proof -
  assume i: "i < 64"
  have "m AND BIT i = (if bit m i then BIT i else 0)"
    by (rule bit_word_eqI) (auto simp: bit_simps i)
  moreover have "BIT i \<noteq> 0" using bit_BIT [OF i, of i] by auto
  ultimately show ?thesis by simp
qed

lemma bit_bitmask_for_range:
  assumes "low \<le> high" and "high \<le> 63"
  shows "bit (bitmask_for_range low high) i \<longleftrightarrow> low \<le> i \<and> i \<le> high"
  using assms by (auto simp: bitmask_for_range_def Let_def bit_simps dest: bit_imp_le_length)

definition range_text :: "nat \<Rightarrow> nat \<Rightarrow> string" where
  "range_text lo hi = (if lo = hi then show_nat lo else show_nat lo @ ''-'' @ show_nat hi)"

lemma parse_ulong_show_nat:
  assumes "n \<le> 63" and "\<not> starts_with_digit rest"
  shows "tor_parse_ulong 64 (show_nat n @ rest) 10 0 (int MAX_PROTOCOL_VERSION) True =
    \<lparr>parsed_value = int n, parsed_ok = True, parsed_next = Some (length (show_nat n))\<rparr>"
  using tor_parse_ulong_digits [OF show_nat_digits show_nat_not_Nil assms(2), of n 64 "int MAX_PROTOCOL_VERSION"] assms(1)
  by (simp add: digits_value_show_nat MAX_PROTOCOL_VERSION_def)

lemma parse_version_range_text:
  assumes "lo \<le> hi" and "hi \<le> 63" and "\<not> starts_with_digit rest"
  shows "parse_version_range (range_text lo hi @ rest) (length (range_text lo hi)) = Some (lo, hi)"
proof (cases "lo = hi")
  case True
  with assms show ?thesis
    by (simp add: parse_version_range_def range_text_def parse_ulong_show_nat Let_def)
next
  case False
  have "\<not> starts_with_digit (''-'' @ show_nat hi @ rest)"
    by (simp add: starts_with_digit_def is_digit_10_iff)
  from parse_ulong_show_nat [OF _ this, of lo] assms
  have p: "tor_parse_ulong 64 (show_nat lo @ ''-'' @ show_nat hi @ rest) 10 0 (int MAX_PROTOCOL_VERSION) True =
      \<lparr>parsed_value = int lo, parsed_ok = True, parsed_next = Some (length (show_nat lo))\<rparr>"
    by simp
  show ?thesis
    using False assms p parse_ulong_show_nat [OF assms(2,3)] char_at_show_nat [of lo "''-'' @ show_nat hi @ rest"]
    by (simp add: parse_version_range_def range_text_def Let_def char_at_def [of "CHR ''-'' # _"])
qed

definition range_char :: "char \<Rightarrow> bool" where
  "range_char c \<longleftrightarrow> is_digit_of 10 c \<or> c = CHR ''-''"

lemma range_text_chars: "list_all range_char (range_text lo hi)"
  using show_nat_digits [of lo] show_nat_digits [of hi]
  by (auto simp: range_text_def range_char_def list_all_iff)

lemma range_text_no_sep:
  "CHR '','' \<notin> set (range_text lo hi)" "CHR '' '' \<notin> set (range_text lo hi)" "CHR ''='' \<notin> set (range_text lo hi)"
  using range_text_chars [of lo hi] by (auto simp: list_all_iff range_char_def is_digit_10_iff)

lemma range_text_not_Nil [simp]: "range_text lo hi \<noteq> []"
  by (simp add: range_text_def)

text \<open>One turn of the loop of \<open>parse_single_entry\<close>, on the last range and on one that others follow.\<close>

lemma parse_ranges_last:
  assumes "lo \<le> hi" "hi \<le> 63" "\<not> starts_with_digit rest"
  shows "parse_ranges (range_text lo hi @ rest) (length (range_text lo hi)) acc = Some (acc OR bitmask_for_range lo hi)"
  using assms
  by (subst parse_ranges.simps)
    (simp add: Let_def memchr_append(1) range_text_no_sep parse_version_range_text parse_ranges.simps [of _ 0])

lemma parse_ranges_more:
  assumes "lo \<le> hi" "hi \<le> 63" "t \<noteq> []"
  shows "parse_ranges (range_text lo hi @ CHR '','' # t @ rest) (Suc (length (range_text lo hi) + length t)) acc =
    parse_ranges (t @ rest) (length t) (acc OR bitmask_for_range lo hi)"
proof -
  have nd: "\<not> starts_with_digit (CHR '','' # t @ rest)" by (simp add: starts_with_digit_def is_digit_10_iff)
  show ?thesis
    using assms
    by (subst parse_ranges.simps)
      (simp add: Let_def memchr_append(2) range_text_no_sep parse_version_range_text [OF assms(1,2) nd])
qed

section \<open>Encoding\<close>

lemma encode_ranges_step:
  assumes "m \<noteq> 0" and "m \<noteq> NOT 0"
  obtains z k where "trailing_zeros m = Some z" and "trailing_zeros (NOT (drop_bit z m)) = Some k"
    and "z + k \<le> 64" and "0 < k" and "k < 64"
    and "\<forall>i. bit m i \<longleftrightarrow> (z \<le> i \<and> i < z + k) \<or> (z + k \<le> i \<and> bit (drop_bit (z + k) m) (i - (z + k)))"
    and "encode_ranges m sh first =
      map_option (\<lambda>rest. (if first then [] else '','') @ range_text (sh + z) (sh + z + k - 1) @ rest)
        (encode_ranges (drop_bit (z + k) m) (sh + z + k) False)"
proof -
  obtain z where z: "trailing_zeros m = Some z" using assms(1) by (simp add: trailing_zeros_def)
  note zs = trailing_zeros_Some [OF z]
  have "NOT (drop_bit z m) \<noteq> 0"
  proof
    assume full: "NOT (drop_bit z m) = 0"
    then have "bit (drop_bit z m) 63" using bit_not_iff_eq [of "drop_bit z m" 63] by simp
    then have "z = 0" by (auto simp: bit_simps dest: bit_imp_le_length)
    with full assms(2) show False by (metis bit.double_compl drop_bit_0 id_apply)
  qed
  then obtain k where k: "trailing_zeros (NOT (drop_bit z m)) = Some k" by (simp add: trailing_zeros_def)
  note ks = trailing_zeros_Some [OF k]
  have pos: "0 < k" using encode_shift_less [OF z k] by simp
  have run: "bit m (z + i)" if "i < k" for i using ks that by (auto simp: bit_simps)
  then have le: "z + k \<le> 64" using bit_imp_le_length [OF run [of "k - 1"]] pos by simp
  show thesis
  proof (rule that [OF z k le pos])
    show "k < 64" using ks by simp
    show "\<forall>i. bit m i \<longleftrightarrow> (z \<le> i \<and> i < z + k) \<or> (z + k \<le> i \<and> bit (drop_bit (z + k) m) (i - (z + k)))"
    proof
      fix i
      show "bit m i \<longleftrightarrow> (z \<le> i \<and> i < z + k) \<or> (z + k \<le> i \<and> bit (drop_bit (z + k) m) (i - (z + k)))"
      proof (cases "i < z")
        case True
        then show ?thesis using zs by simp
      next
        case False
        then show ?thesis using run [of "i - z"] by (cases "i < z + k") (simp_all add: bit_simps)
      qed
    qed
    have sh: "drop_bit k (drop_bit z m) = drop_bit (z + k) m" by (simp add: add.commute)
    show "encode_ranges m sh first =
      map_option (\<lambda>rest. (if first then [] else '','') @ range_text (sh + z) (sh + z + k - 1) @ rest)
        (encode_ranges (drop_bit (z + k) m) (sh + z + k) False)"
      using assms(1) z k pos ks sh drop_trailing_not_0 [OF z]
      by (subst encode_ranges.simps) (auto simp: Let_def range_text_def split: option.split)
  qed
qed

lemma drop_bit_not_full: "0 < k \<Longrightarrow> drop_bit k (m :: u64) \<noteq> NOT 0"
proof
  assume k: "0 < k" and full: "drop_bit k m = NOT 0"
  have "bit (drop_bit k m) 63" unfolding full by simp
  then show False using k by (auto simp: bit_simps dest: bit_imp_le_length)
qed

lemma encode_ranges_total: "m \<noteq> NOT 0 \<Longrightarrow> \<exists>t. encode_ranges m sh first = Some t"
proof (induction "unat m" arbitrary: m sh first rule: less_induct)
  case less
  show ?case
  proof (cases "m = 0")
    case True
    then show ?thesis by (simp add: encode_ranges.simps)
  next
    case False
    obtain z k where z: "trailing_zeros m = Some z" and k: "trailing_zeros (NOT (drop_bit z m)) = Some k" and "0 < k"
      and e: "encode_ranges m sh first =
        map_option (\<lambda>rest. (if first then [] else '','') @ range_text (sh + z) (sh + z + k - 1) @ rest)
          (encode_ranges (drop_bit (z + k) m) (sh + z + k) False)"
      by (rule encode_ranges_step [OF False less.prems, of sh first])
    have "unat (drop_bit (z + k) m) < unat m"
      using encode_shift_less [OF z k] by (simp add: add.commute)
    then obtain t where "encode_ranges (drop_bit (z + k) m) (sh + z + k) False = Some t"
      using less.hyps [of "drop_bit (z + k) m"] drop_bit_not_full [of "z + k" m] \<open>0 < k\<close> by auto
    with e show ?thesis by simp
  qed
qed

lemma encode_full_None: "encode_ranges (NOT 0) sh first = None"
proof -
  have "takeWhile (\<lambda>i. \<not> bit (NOT 0 :: u64) i) [0..<64] = []" by (simp add: upt_conv_Cons)
  then have "trailing_zeros (NOT 0) = Some 0" by (simp add: trailing_zeros_def)
  moreover have "trailing_zeros (NOT (NOT 0)) = None" by (simp add: trailing_zeros_def)
  ultimately show ?thesis by (subst encode_ranges.simps) (simp add: Let_def)
qed

text \<open>What the encoding loop writes, the parsing loop reads back.\<close>

definition fits :: "nat \<Rightarrow> u64 \<Rightarrow> bool" where
  "fits sh m \<longleftrightarrow> (\<forall>i. bit m i \<longrightarrow> sh + i < 64)"

lemma split_run:
  assumes bits: "\<forall>i. bit m i \<longleftrightarrow> (z \<le> i \<and> i < z + k) \<or> (z + k \<le> i \<and> bit (drop_bit (z + k) m) (i - (z + k)))"
    and "0 < k" and hi: "sh + z + k - 1 \<le> 63"
  shows "acc OR bitmask_for_range (sh + z) (sh + z + k - 1) OR push_bit (sh + z + k) (drop_bit (z + k) m) =
    acc OR push_bit sh m"
proof (rule bit_word_eqI)
  fix i assume "i < LENGTH(64)"
  then have i: "i < 64" by simp
  have push: "bit (push_bit n x) i \<longleftrightarrow> n \<le> i \<and> bit x (i - n)" for n and x :: u64
    using i by (auto simp: bit_push_bit_iff dest: bit_imp_le_length)
  have mask: "bit (bitmask_for_range (sh + z) (sh + z + k - 1)) i \<longleftrightarrow> sh + z \<le> i \<and> i < sh + z + k"
    using bit_bitmask_for_range [OF _ hi, of "sh + z" i] \<open>0 < k\<close> by auto
  have "bit (push_bit sh m) i \<longleftrightarrow> (sh + z \<le> i \<and> i < sh + z + k) \<or> bit (push_bit (sh + z + k) (drop_bit (z + k) m)) i"
  proof (cases "sh \<le> i")
    case True
    have "(z \<le> i - sh) = (sh + z \<le> i)" "(i - sh < z + k) = (i < sh + z + k)" "(z + k \<le> i - sh) = (sh + z + k \<le> i)"
      "i - sh - (z + k) = i - (sh + z + k)"
      using True by linarith+
    then show ?thesis using bits [rule_format, of "i - sh"] True by (simp only: push simp_thms)
  next
    case False
    then show ?thesis by (simp add: push)
  qed
  then show "bit (acc OR bitmask_for_range (sh + z) (sh + z + k - 1) OR push_bit (sh + z + k) (drop_bit (z + k) m)) i =
      bit (acc OR push_bit sh m) i"
    by (simp only: bit_or_iff mask)
qed

lemma encode_ranges_parse:
  assumes "encode_ranges m sh first = Some t" and "m \<noteq> 0" and "m \<noteq> NOT 0" and "fits sh m"
    and "\<not> starts_with_digit rest"
  obtains u where "t = (if first then [] else '','') @ u" and "u \<noteq> []"
    and "\<And>acc. parse_ranges (u @ rest) (length u) acc = Some (acc OR push_bit sh m)"
    and "list_all (\<lambda>c. range_char c \<or> c = CHR '','') u"
  using assms
proof (induction "unat m" arbitrary: m sh first t thesis rule: less_induct)
  case less
  obtain z k where z: "trailing_zeros m = Some z" and k: "trailing_zeros (NOT (drop_bit z m)) = Some k" and "0 < k"
    and bits: "\<forall>i. bit m i \<longleftrightarrow> (z \<le> i \<and> i < z + k) \<or> (z + k \<le> i \<and> bit (drop_bit (z + k) m) (i - (z + k)))"
    and e: "encode_ranges m sh first =
      map_option (\<lambda>rest. (if first then [] else '','') @ range_text (sh + z) (sh + z + k - 1) @ rest)
        (encode_ranges (drop_bit (z + k) m) (sh + z + k) False)"
    by (rule encode_ranges_step [OF less.prems(3,4), of sh first])
  define m' where "m' = drop_bit (z + k) m"
  define lo where "lo = sh + z"
  define hi where "hi = sh + z + k - 1"
  have "z \<le> z + k - 1 \<and> z + k - 1 < z + k" using \<open>0 < k\<close> by linarith
  then have "bit m (z + k - 1)" using bits [rule_format, of "z + k - 1"] by blast
  then have range: "lo \<le> hi" "hi \<le> 63" using less.prems(5) \<open>0 < k\<close> by (auto simp: lo_def hi_def fits_def)
  have "0 < z + k" using \<open>0 < k\<close> by simp
  have split: "acc OR bitmask_for_range lo hi OR push_bit (sh + z + k) m' = acc OR push_bit sh m" for acc
    unfolding m'_def using split_run [OF bits \<open>0 < k\<close>, of sh acc] range unfolding lo_def hi_def by blast
  obtain t' where t': "encode_ranges m' (sh + z + k) False = Some t'"
    and t: "t = (if first then [] else '','') @ range_text lo hi @ t'"
    using e less.prems(2) unfolding m'_def lo_def hi_def
    by (cases "encode_ranges (drop_bit (z + k) m) (sh + z + k) False") auto
  show ?case
  proof (cases "m' = 0")
    case True
    then have "t' = []" using t' by (simp add: encode_ranges.simps)
    moreover have "acc OR bitmask_for_range lo hi = acc OR push_bit sh m" for acc
      using split [of acc] True by simp
    ultimately show ?thesis
      using t range_text_chars [of lo hi] parse_ranges_last [OF range less.prems(6)]
      by (intro less.prems(1) [of "range_text lo hi"]) (auto simp: list_all_iff)
  next
    case False
    have sm: "unat m' < unat m" using encode_shift_less [OF z k] by (simp add: m'_def add.commute)
    have nf: "m' \<noteq> NOT 0" using drop_bit_not_full [OF \<open>0 < z + k\<close>] by (simp add: m'_def)
    have ft: "fits (sh + z + k) m'"
      using less.prems(5) unfolding fits_def m'_def bit_drop_bit_eq comp_def by (metis add.assoc)
    obtain u where "t' = (if False then [] else '','') @ u" and u: "u \<noteq> []"
        "\<And>acc. parse_ranges (u @ rest) (length u) acc = Some (acc OR push_bit (sh + z + k) m')"
        "list_all (\<lambda>c. range_char c \<or> c = CHR '','') u"
      by (rule less.hyps [OF sm _ t' False nf ft less.prems(6)]) (rule that)
    then have tu: "t' = CHR '','' # u" by simp
    show ?thesis
    proof (rule less.prems(1) [of "range_text lo hi @ CHR '','' # u"])
      show "parse_ranges ((range_text lo hi @ CHR '','' # u) @ rest) (length (range_text lo hi @ CHR '','' # u)) acc =
          Some (acc OR push_bit sh m)" for acc
        using parse_ranges_more [OF range u(1), of rest acc] u(2) split [of acc] by (simp add: or.assoc)
      show "list_all (\<lambda>c. range_char c \<or> c = CHR '','') (range_text lo hi @ CHR '','' # u)"
        using range_text_chars [of lo hi] u(3) by (auto simp: list_all_iff)
    qed (simp_all add: t tu)
  qed
qed

definition valid_name :: "string \<Rightarrow> bool" where
  "valid_name nm \<longleftrightarrow> nm \<noteq> [] \<and> length nm \<le> 100 \<and> list_all (\<lambda>c. TOR_ISALNUM c \<or> c = CHR ''-'') nm"

definition encodable :: "proto_entry_t \<Rightarrow> bool" where
  "encodable e \<longleftrightarrow> valid_name (name e) \<and> bitmask e \<noteq> NOT 0"

lemma name_char_no_sep:
  "TOR_ISALNUM c \<or> c = CHR ''-'' \<Longrightarrow> c \<noteq> CHR ''='' \<and> c \<noteq> CHR '' ''"
  by (auto simp: TOR_ISALNUM_iff is_upper_def is_lower_def is_digit_def)

lemma valid_name_no_sep: "valid_name nm \<Longrightarrow> CHR ''='' \<notin> set nm \<and> CHR '' '' \<notin> set nm"
  using name_char_no_sep by (auto simp: valid_name_def list_all_iff)

lemma encode_entry_parse:
  assumes "encodable e" and "\<not> starts_with_digit rest"
  obtains chunk where "proto_entry_encode_into e = Some chunk" and "CHR '' '' \<notin> set chunk" and "chunk \<noteq> []"
    and "hd chunk \<noteq> CHR '' ''" and "parse_single_entry (chunk @ rest) (length chunk) = Some e"
proof -
  have nm: "valid_name (name e)" and full: "bitmask e \<noteq> NOT 0" using assms by (auto simp: encodable_def)
  obtain u where u: "encode_ranges (bitmask e) 0 True = Some u" using encode_ranges_total [OF full] by blast
  have ranges: "parse_ranges (u @ rest) (length u) 0 = Some (bitmask e) \<and> CHR '' '' \<notin> set u"
  proof (cases "bitmask e = 0")
    case True
    then have "u = []" using u by (simp add: encode_ranges.simps)
    with True show ?thesis by (simp add: parse_ranges.simps)
  next
    case False
    have "fits 0 (bitmask e)" by (auto simp: fits_def dest: bit_imp_le_length)
    from encode_ranges_parse [OF u False full this assms(2)]
    obtain v where "u = (if True then [] else '','') @ v"
      and "\<And>acc. parse_ranges (v @ rest) (length v) acc = Some (acc OR push_bit 0 (bitmask e))"
      and "list_all (\<lambda>c. range_char c \<or> c = CHR '','') v" by metis
    then show ?thesis by (auto simp: list_all_iff range_char_def is_digit_10_iff)
  qed
  define chunk where "chunk = name e @ ''='' @ u"
  show thesis
  proof (rule that)
    show "proto_entry_encode_into e = Some chunk" by (simp add: proto_entry_encode_into_def u chunk_def)
    show "CHR '' '' \<notin> set chunk" using ranges valid_name_no_sep [OF nm] by (simp add: chunk_def)
    show "chunk \<noteq> []" by (simp add: chunk_def)
    show "hd chunk \<noteq> CHR '' ''" using valid_name_no_sep [OF nm] by (cases "name e") (auto simp: chunk_def)
    have "memchr (name e @ CHR ''='' # u @ rest) CHR ''='' (Suc (length (name e) + length u)) = Some (length (name e))"
      using valid_name_no_sep [OF nm] by (intro memchr_append) simp
    then show "parse_single_entry (chunk @ rest) (length chunk) = Some e"
      using nm ranges by (auto simp: parse_single_entry_def chunk_def valid_name_def is_valid_keyword_def
          MAX_PROTOCOL_NAME_LENGTH_def)
  qed
qed

lemma end_of_entry_append:
  "CHR '' '' \<notin> set a \<Longrightarrow> end_of_entry a = length a"
  "CHR '' '' \<notin> set a \<Longrightarrow> end_of_entry (a @ CHR '' '' # rest) = length a"
  using memchr_append(1) [of "CHR '' ''" a "[]"] memchr_append(2) [of "CHR '' ''" a rest "length rest"]
  by (simp_all add: end_of_entry_def)

lemma encode_entries_parse:
  "list_all encodable es \<Longrightarrow>
   \<exists>t. encode_entries es sep = Some (if es = [] then [] else sep @ t) \<and> parse_protocol_list t = Some es \<and>
     (t = [] \<or> hd t \<noteq> CHR '' '')"
proof (induction es arbitrary: sep)
  case Nil
  then show ?case by (auto simp: parse_protocol_list.simps intro: exI [of _ "[]"])
next
  case (Cons e es)
  then obtain t where t: "encode_entries es '' '' = Some (if es = [] then [] else '' '' @ t)"
    "parse_protocol_list t = Some es" "t = [] \<or> hd t \<noteq> CHR '' ''" by auto
  define rest where "rest = (if es = [] then [] else CHR '' '' # t)"
  have "\<not> starts_with_digit rest" by (simp add: rest_def starts_with_digit_def is_digit_10_iff)
  then obtain chunk where c: "proto_entry_encode_into e = Some chunk" "CHR '' '' \<notin> set chunk" "chunk \<noteq> []"
    "hd chunk \<noteq> CHR '' ''" "parse_single_entry (chunk @ rest) (length chunk) = Some e"
    using Cons.prems by (auto elim: encode_entry_parse [of e rest])
  have "end_of_entry (chunk @ rest) = length chunk"
    using end_of_entry_append [OF c(2)] by (simp add: rest_def)
  moreover have "dropWhile (\<lambda>c. c = CHR '' '') rest = (if es = [] then [] else t)"
    using t(3) by (cases t) (auto simp: rest_def)
  ultimately have "parse_protocol_list (chunk @ rest) = Some (e # es)"
    using c t(2) by (subst parse_protocol_list.simps) (auto simp: parse_protocol_list.simps [of "[]"])
  with c t(1) show ?case by (intro exI [of _ "chunk @ rest"]) (auto simp: rest_def)
qed

lemma encode_protocol_list_parse:
  "list_all encodable es \<Longrightarrow> \<exists>t. encode_protocol_list es = Some t \<and> parse_protocol_list t = Some es"
  using encode_entries_parse [of es "[]"] parse_protocol_list.simps [of "[]"]
  by (auto simp: encode_protocol_list_def split: if_splits)

text \<open>Every name that parsing accepts can be encoded again.\<close>

lemma parse_single_entry_valid: "parse_single_entry s n = Some e \<Longrightarrow> valid_name (name e)"
  by (auto simp: parse_single_entry_def valid_name_def is_valid_keyword_def MAX_PROTOCOL_NAME_LENGTH_def
      split: option.splits if_splits) (auto simp: memchr_def Let_def split: if_splits)

lemma parse_protocol_list_valid: "parse_protocol_list s = Some es \<Longrightarrow> \<forall>e\<in>set es. valid_name (name e)"
proof (induction s arbitrary: es rule: parse_protocol_list.induct)
  case (1 s)
  show ?case
  proof (cases "s = []")
    case True
    then show ?thesis using "1.prems" by (simp add: parse_protocol_list.simps)
  next
    case False
    with "1.prems" obtain e es' where e: "parse_single_entry s (end_of_entry s) = Some e"
      and es': "parse_protocol_list (dropWhile (\<lambda>c. c = CHR '' '') (drop (end_of_entry s) s)) = Some es'"
      and es: "es = e # es'"
      by (subst (asm) parse_protocol_list.simps) (auto split: option.splits)
    from "1.IH" [OF False e es'] e es show ?thesis by (auto dest: parse_single_entry_valid)
  qed
qed

section \<open>Voting\<close>

text \<open>Whether a list of entries lists a version, reading only its first entry of the name, as the code does.\<close>

definition lists_version :: "proto_entry_t list \<Rightarrow> string \<Rightarrow> nat \<Rightarrow> bool" where
  "lists_version es nm v = (case find_entry_by_name es nm of None \<Rightarrow> False | Some ent \<Rightarrow> bit (bitmask ent) v)"

definition votes_for :: "string list \<Rightarrow> string \<Rightarrow> nat \<Rightarrow> nat" where
  "votes_for votes nm v =
     length (filter (\<lambda>vote. case parse_protocol_list vote of None \<Rightarrow> False | Some es \<Rightarrow> lists_version es nm v) votes)"

lemma find_entry_name: "find_entry_by_name es nm = Some ent \<Longrightarrow> ent \<in> set es \<and> name ent = nm"
  by (auto simp: find_entry_by_name_def find_Some_iff)

lemma count_vote_nth:
  "i < 64 \<Longrightarrow> length counts = 64 \<Longrightarrow>
   count_vote nm vote counts ! i = counts ! i + (if lists_version vote nm i then 1 else 0) \<and>
   length (count_vote nm vote counts) = 64"
  by (auto simp: count_vote_def lists_version_def split: option.splits)

lemma count_votes_nth:
  "i < 64 \<Longrightarrow> length counts = 64 \<Longrightarrow>
   fold (count_vote nm) parsed counts ! i =
     counts ! i + of_nat (length (filter (\<lambda>vote. lists_version vote nm i) parsed))"
proof (induction parsed arbitrary: counts)
  case Nil
  then show ?case by simp
next
  case (Cons vote parsed)
  note c = count_vote_nth [OF Cons.prems, of nm vote]
  show ?case using Cons.IH [of "count_vote nm vote counts"] Cons.prems c by simp
qed

lemma result_bitmask_bit:
  "bit (result_bitmask counts threshold) i \<longleftrightarrow> i < 64 \<and> uint (counts ! i) \<ge> threshold"
proof -
  have "bit (fold (\<lambda>i m. if uint (counts ! i) \<ge> threshold then m OR BIT i else m) xs m) i \<longleftrightarrow>
      bit m i \<or> (i \<in> set xs \<and> uint (counts ! i) \<ge> threshold)"
    if "\<forall>j\<in>set xs. j < 64" for xs and m :: u64
    using that by (induction xs arbitrary: m) (auto simp: bit_or_iff)
  from this [of "[0..<64]" 0] show ?thesis by (auto simp: result_bitmask_def)
qed

lemma add_names_set:
  "set (fold add_name es ns) = set ns \<union> name ` set es" "distinct ns \<Longrightarrow> distinct (fold add_name es ns)"
  by (induction es arbitrary: ns) (auto simp: add_name_def)

lemma parse_votes_spec:
  "parse_votes votes parsed ns = (parsed', ns') \<Longrightarrow>
     parsed' = parsed @ List.map_filter parse_protocol_list votes \<and>
     set ns' = set ns \<union> name ` \<Union> (set ` set (List.map_filter parse_protocol_list votes)) \<and>
     (distinct ns \<longrightarrow> distinct ns')"
proof (induction votes arbitrary: parsed ns)
  case Nil
  then show ?case by (simp add: map_filter_simps)
next
  case (Cons vote votes)
  show ?case
  proof (cases "parse_protocol_list vote")
    case None
    with Cons show ?thesis by (simp add: map_filter_simps)
  next
    case (Some es)
    with Cons.prems have "parse_votes votes (parsed @ [es]) (fold add_name es ns) = (parsed', ns')" by simp
    from Cons.IH [OF this] Some show ?thesis by (simp add: map_filter_simps add_names_set image_Un Un_assoc)
  qed
qed

lemma votes_for_parsed:
  "votes_for votes nm v =
     length (filter (\<lambda>vote. lists_version vote nm v) (List.map_filter parse_protocol_list votes))"
  by (induction votes) (auto simp: votes_for_def map_filter_simps split: option.splits)

lemma vote_mask_bit:
  assumes "length parsed < 256"
  shows "bit (result_bitmask (fold (count_vote nm) parsed (replicate 64 0)) threshold) v \<longleftrightarrow>
    v < 64 \<and> threshold \<le> int (length (filter (\<lambda>vote. lists_version vote nm v) parsed))"
proof (cases "v < 64")
  case True
  have "length (filter (\<lambda>vote. lists_version vote nm v) parsed) < 2 ^ 8"
    using assms le_less_trans [OF length_filter_le] by fastforce
  then have "uint (of_nat (length (filter (\<lambda>vote. lists_version vote nm v) parsed)) :: byte) =
      int (length (filter (\<lambda>vote. lists_version vote nm v) parsed))"
    by (simp add: uint_nat unat_of_nat)
  then show ?thesis using True by (simp add: result_bitmask_bit count_votes_nth)
next
  case False
  then show ?thesis by (simp add: result_bitmask_bit)
qed

lemma vote_entries_find:
  assumes "distinct ns"
  shows "find_entry_by_name (vote_entries parsed th ns) nm =
    (let m = result_bitmask (fold (count_vote nm) parsed (replicate 64 0)) th
     in if nm \<in> set ns \<and> m \<noteq> 0 then Some \<lparr>name = nm, bitmask = m\<rparr> else None)"
  using assms
  by (induction ns) (auto simp: vote_entries_def find_entry_by_name_def Let_def)

lemma not_listed: "v < 64 \<Longrightarrow> nm \<notin> name ` \<Union> (set ` set parsed) \<Longrightarrow> filter (\<lambda>vote. lists_version vote nm v) parsed = []"
  by (auto simp: lists_version_def filter_empty_conv split: option.splits dest!: find_entry_name)

lemma concat_map_if: "concat (map (\<lambda>x. if P x then [f x] else []) xs) = map f (filter P xs)"
  by (induction xs) auto

lemma length_map_filter_le: "length (List.map_filter f xs) \<le> length xs"
  by (simp add: map_filter_def)

text \<open>The entries the vote encodes, as the parsed votes determine them.\<close>

lemma compute_vote_entries:
  assumes "length votes < 256" and "0 < threshold"
    and "\<forall>nm. \<exists>v<64. int (votes_for votes nm v) < threshold"
  obtains es where "protover_compute_vote votes threshold = encode_protocol_list es"
    and "list_all encodable es" and "sorted (map name es)" and "distinct (map name es)"
    and "\<forall>nm v. lists_version es nm v \<longleftrightarrow> v < 64 \<and> threshold \<le> int (votes_for votes nm v)"
proof -
  define parsed where "parsed = List.map_filter parse_protocol_list votes"
  obtain ns where pv: "parse_votes votes [] [] = (parsed, ns)"
    and ns: "set ns = name ` \<Union> (set ` set parsed)" "distinct ns"
    using parse_votes_spec [of votes "[]" "[]"] by (cases "parse_votes votes [] []") (auto simp: parsed_def)
  define es where "es = vote_entries parsed threshold (sort ns)"
  have len: "length parsed < 256" using assms(1) length_map_filter_le [of parse_protocol_list votes] by (simp add: parsed_def)
  define m where "m nm = result_bitmask (fold (count_vote nm) parsed (replicate 64 0)) threshold" for nm
  have bits: "bit (m nm) v \<longleftrightarrow> v < 64 \<and> threshold \<le> int (votes_for votes nm v)" for nm v
    using vote_mask_bit [OF len] by (simp add: m_def votes_for_parsed parsed_def)
  have es: "es = map (\<lambda>nm. \<lparr>name = nm, bitmask = m nm\<rparr>) (filter (\<lambda>nm. m nm \<noteq> 0) (sort ns))"
    by (simp add: es_def vote_entries_def Let_def m_def concat_map_if)
  show thesis
  proof (rule that)
    show "protover_compute_vote votes threshold = encode_protocol_list es"
      using assms(1) pv by (cases votes) (auto simp: protover_compute_vote_def es_def vote_entries_def encode_protocol_list_def)
    have "m nm \<noteq> NOT 0" for nm
    proof
      assume "m nm = NOT 0"
      moreover obtain v where "v < 64" "\<not> bit (m nm) v" using assms(3) bits by (meson not_le)
      ultimately show False by simp
    qed
    moreover have "valid_name nm" if "nm \<in> set ns" for nm
      using that ns(1) parse_protocol_list_valid by (force simp: parsed_def map_filter_def)
    ultimately show "list_all encodable es" by (auto simp: es list_all_iff encodable_def)
    show "sorted (map name es)" "distinct (map name es)"
      using ns(2) by (simp_all add: es comp_def sorted_filter [of id, simplified])
    show "\<forall>nm v. lists_version es nm v \<longleftrightarrow> v < 64 \<and> threshold \<le> int (votes_for votes nm v)"
    proof (intro allI)
      fix nm v
      show "lists_version es nm v \<longleftrightarrow> v < 64 \<and> threshold \<le> int (votes_for votes nm v)"
      proof (cases "nm \<in> set ns")
        case True
        then show ?thesis
          using vote_entries_find [of "sort ns" parsed threshold nm] ns(2) bits [of nm v] assms(2)
          by (auto simp: lists_version_def es_def Let_def m_def)
      next
        case False
        then have "lists_version es nm v = False"
          using vote_entries_find [of "sort ns" parsed threshold nm] ns(2) by (simp add: lists_version_def es_def Let_def)
        moreover have "v < 64 \<Longrightarrow> votes_for votes nm v = 0"
          using False not_listed [of v nm parsed] ns(1) by (simp add: votes_for_parsed parsed_def)
        ultimately show ?thesis using assms(2) by auto
      qed
    qed
  qed
qed

section \<open>Supported protocols\<close>

definition our_entries :: "bool \<Rightarrow> proto_entry_t list" where
  "our_entries tls =
    [\<lparr>name = ''Conflux'', bitmask = 2\<rparr>, \<lparr>name = ''Cons'', bitmask = 6\<rparr>, \<lparr>name = ''Desc'', bitmask = 6\<rparr>,
     \<lparr>name = ''DirCache'', bitmask = 4\<rparr>, \<lparr>name = ''FlowCtrl'', bitmask = 6\<rparr>, \<lparr>name = ''HSDir'', bitmask = 4\<rparr>,
     \<lparr>name = ''HSIntro'', bitmask = 48\<rparr>, \<lparr>name = ''HSRend'', bitmask = 6\<rparr>, \<lparr>name = ''Link'', bitmask = 62\<rparr>,
     \<lparr>name = ''LinkAuth'', bitmask = if tls then 10 else 8\<rparr>, \<lparr>name = ''Microdesc'', bitmask = 6\<rparr>,
     \<lparr>name = ''Padding'', bitmask = 4\<rparr>, \<lparr>name = ''Relay'', bitmask = 30\<rparr>]"

lemma supported_list_True: "get_supported_protocol_list True = Some (our_entries True)"
  by code_simp

lemma supported_list_False: "get_supported_protocol_list False = Some (our_entries False)"
  by code_simp

lemma supported_list: "get_supported_protocol_list tls = Some (our_entries tls)"
  by (cases tls) (simp_all add: supported_list_True supported_list_False)

lemma missing_entries_bits:
  "(\<exists>e\<in>set (missing_entries ours es). name e = nm \<and> bit (bitmask e) v) \<longleftrightarrow>
     (\<exists>e\<in>set es. name e = nm \<and> bit (bitmask e) v \<and> \<not> lists_version ours nm v)"
proof (induction es)
  case Nil
  then show ?case by (simp add: missing_entries_def)
next
  case (Cons e es)
  have "missing_entries ours (e # es) = missing_entries ours [e] @ missing_entries ours es"
    by (simp add: missing_entries_def)
  moreover have "(\<exists>e'\<in>set (missing_entries ours [e]). name e' = nm \<and> bit (bitmask e') v) \<longleftrightarrow>
      name e = nm \<and> bit (bitmask e) v \<and> \<not> lists_version ours nm v"
  proof (cases "find_entry_by_name ours (name e)")
    case None
    then show ?thesis by (auto simp: missing_entries_def lists_version_def)
  next
    case (Some mine)
    have "bit (bitmask e AND NOT (bitmask mine)) v \<longleftrightarrow> bit (bitmask e) v \<and> \<not> bit (bitmask mine) v"
      by (auto simp: bit_simps dest: bit_imp_le_length)
    with Some show ?thesis
      by (cases "bitmask e AND NOT (bitmask mine) = 0") (auto simp: missing_entries_def lists_version_def Let_def)
  qed
  ultimately show ?case using Cons.IH by auto
qed

lemma missing_entries_nonzero: "e \<in> set (missing_entries ours es) \<Longrightarrow> bitmask e \<noteq> 0"
  by (auto simp: missing_entries_def Let_def split: option.splits if_splits)

lemma missing_entries_full:
  assumes "\<forall>e\<in>set es. encodable e"
  shows "list_all encodable (missing_entries ours es)"
proof -
  have "m AND NOT k \<noteq> NOT 0" if "m \<noteq> NOT 0" for m k :: u64
  proof
    assume "m AND NOT k = NOT 0"
    then have "bit m i" if "i < 64" for i using that bit_and_iff [of m "NOT k" i] by simp
    then have "m = NOT 0" by (intro bit_word_eqI) simp
    with that show False by contradiction
  qed
  then show ?thesis
    using assms by (auto simp: missing_entries_def list_all_iff encodable_def Let_def split: option.splits if_splits)
qed

definition relay_entries :: "proto_entry_t list" where
  "relay_entries =
    [\<lparr>name = ''Cons'', bitmask = 4\<rparr>, \<lparr>name = ''Desc'', bitmask = 4\<rparr>, \<lparr>name = ''DirCache'', bitmask = 4\<rparr>,
     \<lparr>name = ''HSDir'', bitmask = 4\<rparr>, \<lparr>name = ''HSIntro'', bitmask = 16\<rparr>, \<lparr>name = ''HSRend'', bitmask = 4\<rparr>,
     \<lparr>name = ''Link'', bitmask = 48\<rparr>, \<lparr>name = ''LinkAuth'', bitmask = 8\<rparr>, \<lparr>name = ''Microdesc'', bitmask = 4\<rparr>,
     \<lparr>name = ''Relay'', bitmask = 4\<rparr>]"

definition client_entries :: "proto_entry_t list" where
  "client_entries =
    [\<lparr>name = ''Cons'', bitmask = 4\<rparr>, \<lparr>name = ''Desc'', bitmask = 4\<rparr>, \<lparr>name = ''Link'', bitmask = 16\<rparr>,
     \<lparr>name = ''Microdesc'', bitmask = 4\<rparr>, \<lparr>name = ''Relay'', bitmask = 4\<rparr>]"

lemma required_client_parsed: "parse_protocol_list protover_get_required_client_protocols = Some client_entries"
  by code_simp

lemma required_relay_parsed: "parse_protocol_list protover_get_required_relay_protocols = Some relay_entries"
  by code_simp

lemma recommended_client_parsed:
  "parse_protocol_list protover_get_recommended_client_protocols =
     Some (filter (\<lambda>e. name e \<noteq> ''LinkAuth'') relay_entries)"
  by code_simp

lemma recommended_relay_parsed: "parse_protocol_list protover_get_recommended_relay_protocols = Some relay_entries"
  using required_relay_parsed
  by (simp add: protover_get_recommended_relay_protocols_def protover_get_required_relay_protocols_def)

lemmas required_parsed =
  required_client_parsed required_relay_parsed recommended_client_parsed recommended_relay_parsed

lemma required_missing:
  "missing_entries (our_entries tls) client_entries = []"
  "missing_entries (our_entries tls) relay_entries = []"
  "missing_entries (our_entries tls) (filter (\<lambda>e. name e \<noteq> ''LinkAuth'') relay_entries) = []"
  by (simp_all add: missing_entries_def our_entries_def client_entries_def relay_entries_def find_entry_by_name_def)

section \<open>An entry for all 64 versions\<close>

lemma full_parsed: "parse_protocol_list ''Foo=0-63'' = Some [\<lparr>name = ''Foo'', bitmask = NOT 0\<rparr>]"
  by code_simp

lemma full_encode: "encode_protocol_list [\<lparr>name = nm, bitmask = NOT 0\<rparr>] = None"
  by (simp add: encode_protocol_list_def proto_entry_encode_into_def encode_full_None del: bit.compl_zero)

lemma full_missing:
  "missing_entries (our_entries tls) [\<lparr>name = ''Foo'', bitmask = NOT 0\<rparr>] = [\<lparr>name = ''Foo'', bitmask = NOT 0\<rparr>]"
  by (simp add: missing_entries_def our_entries_def find_entry_by_name_def)

lemma full_vote: "protover_compute_vote [''Foo=0-63''] 1 = None"
proof -
  let ?es = "[\<lparr>name = ''Foo'', bitmask = NOT 0\<rparr>]"
  have "parse_votes [''Foo=0-63''] [] [] = ([?es], [''Foo''])"
    by (simp add: full_parsed add_name_def del: bit.compl_zero)
  moreover have "result_bitmask (fold (count_vote ''Foo'') [?es] (replicate 64 0)) 1 = NOT 0"
    by (rule bit_word_eqI, subst vote_mask_bit) (simp_all add: lists_version_def find_entry_by_name_def)
  moreover have "(NOT 0 :: u64) \<noteq> 0" by simp
  ultimately show ?thesis
    using full_encode
    by (simp add: protover_compute_vote_def vote_entries_def Let_def del: bit.compl_zero fold_simps parse_votes.simps)
qed

section \<open>Properties\<close>

text \<open>for versions in range, the three shifts of \<open>bitmask_for_range\<close> set exactly the bits from low to
  high, with no bit lost.\<close>

theorem bitmask_for_range_correct:
  assumes "low \<le> high" and "high \<le> MAX_PROTOCOL_VERSION"
  shows "bit (bitmask_for_range low high) v \<longleftrightarrow> low \<le> v \<and> v \<le> high"
  using assms by (intro bit_bitmask_for_range) (simp_all add: MAX_PROTOCOL_VERSION_def)

theorem bitmask_for_range_correct_witness:
  "(0::nat) \<le> 63 \<and> 63 \<le> MAX_PROTOCOL_VERSION \<and> bit (bitmask_for_range 0 63) 63 \<and> \<not> bit (bitmask_for_range 4 5) 3"
  using bitmask_for_range_correct [of 0 63 63] bitmask_for_range_correct [of 4 5 3]
  by (simp add: MAX_PROTOCOL_VERSION_def)

text \<open>C20: a list of entries with valid names, none of which has all 64 versions, encodes to a string that
  parses back to the same list.\<close>

theorem protocol_list_roundtrip:
  assumes "list_all encodable es"
  shows "\<exists>s. encode_protocol_list es = Some s \<and> parse_protocol_list s = Some es \<and> \<not> protover_list_is_invalid s"
  using encode_protocol_list_parse [OF assms] by (auto simp: protover_list_is_invalid_def)

theorem protocol_list_roundtrip_witness:
  "list_all encodable [\<lparr>name = ''Link'', bitmask = 62\<rparr>, \<lparr>name = ''X-1'', bitmask = 0\<rparr>, \<lparr>name = ''Foo'', bitmask = 11\<rparr>] \<and>
   (\<exists>s. encode_protocol_list [\<lparr>name = ''Link'', bitmask = 62\<rparr>, \<lparr>name = ''X-1'', bitmask = 0\<rparr>, \<lparr>name = ''Foo'', bitmask = 11\<rparr>] = Some s \<and>
     s = ''Link=1-5 X-1= Foo=0-1,3'')"
proof -
  have h: "list_all encodable [\<lparr>name = ''Link'', bitmask = 62\<rparr>, \<lparr>name = ''X-1'', bitmask = 0\<rparr>, \<lparr>name = ''Foo'', bitmask = 11\<rparr>]"
    by code_simp
  moreover have "encode_protocol_list [\<lparr>name = ''Link'', bitmask = 62\<rparr>, \<lparr>name = ''X-1'', bitmask = 0\<rparr>, \<lparr>name = ''Foo'', bitmask = 11\<rparr>] =
      Some ''Link=1-5 X-1= Foo=0-1,3''"
    by code_simp
  ultimately show ?thesis using protocol_list_roundtrip [OF h] by auto
qed






text \<open>every list the authorities recommend or require, for clients and for relays, is supported by
  this client itself.\<close>

theorem required_protocols_supported:
  "protover_all_supported tls (Some protover_get_required_client_protocols) True = Some (True, None) \<and>
   protover_all_supported tls (Some protover_get_required_relay_protocols) True = Some (True, None) \<and>
   protover_all_supported tls (Some protover_get_recommended_client_protocols) True = Some (True, None) \<and>
   protover_all_supported tls (Some protover_get_recommended_relay_protocols) True = Some (True, None) \<and>
   \<not> protover_list_is_invalid protover_get_required_client_protocols \<and>
   \<not> protover_list_is_invalid protover_get_required_relay_protocols \<and>
   \<not> protover_list_is_invalid protover_get_recommended_client_protocols \<and>
   \<not> protover_list_is_invalid protover_get_recommended_relay_protocols"
  using required_parsed
  by (simp add: protover_all_supported_def protover_list_is_invalid_def supported_list Let_def required_missing)

end
