(* ===== verification/List_Prelude.thy ===== *)
theory List_Prelude
  imports Prelude "HOL-Library.Sublist"
begin

text \<open>Facts on subsequences of lists, shared by the consensus diffs and the script interpreter.\<close>

lemma subseq_rev: "subseq xs ys \<Longrightarrow> subseq (rev xs) (rev ys)"
  by (induction rule: list_emb.induct) (auto intro: list_emb_append_mono subseq_rev_drop_many)

end
