(* ===== verification/Smartlist.thy ===== *)
theory Smartlist
  imports Prelude "HOL-Library.Multiset" "HOL-Library.Sublist"
begin

text \<open>
  The growable pointer array of tor/lib/smartlist_core.c and the set-like and search operations of
  tor/lib/smartlist.c over it. A \<open>void *\<close> is an \<open>'a option\<close>, None being NULL; the record
  has the three fields of \<open>smartlist_t\<close>. An operation that fails an assertion, or that would not
  return, gives None. The abstraction \<open>elems\<close> reads the used part as a list, and every
  operation is shown to refine one on lists, a run of operations through the locale
  \<open>refinement\<close> of the prelude.
\<close>

section \<open>The structure\<close>

record 'a smartlist =
  lst :: "'a option list"
  num_used :: nat
  capacity :: nat

definition SMARTLIST_DEFAULT_CAPACITY :: nat where
  "SMARTLIST_DEFAULT_CAPACITY = 16"

definition INT_MAX :: int where
  "INT_MAX = 2147483647"

definition MAX_CAPACITY :: nat where
  "MAX_CAPACITY = nat INT_MAX"

text \<open>\<open>memset (l + i, 0, n * sizeof (void *))\<close> and \<open>memcpy (l + i, xs)\<close>; \<open>memmove\<close> reads its
  source before it writes, and is such a copy of a part of the list itself.\<close>

definition memset_null :: "'a option list \<Rightarrow> nat \<Rightarrow> nat \<Rightarrow> 'a option list" where
  "memset_null l i n = take i l @ replicate n None @ drop (i + n) l"

definition write_at :: "'a list \<Rightarrow> nat \<Rightarrow> 'a list \<Rightarrow> 'a list" where
  "write_at l i xs = take i l @ xs @ drop (i + length xs) l"

definition smartlist_new :: "'a smartlist" where
  "smartlist_new = \<lparr>lst = replicate SMARTLIST_DEFAULT_CAPACITY None, num_used = 0,
                    capacity = SMARTLIST_DEFAULT_CAPACITY\<rparr>"

definition smartlist_clear :: "'a smartlist \<Rightarrow> 'a smartlist" where
  "smartlist_clear sl = sl\<lparr>lst := memset_null (lst sl) 0 (num_used sl), num_used := 0\<rparr>"

section \<open>Growing\<close>

text \<open>The loop that doubles the capacity, on \<open>size_t\<close>.\<close>

partial_function (option) double_until :: "nat \<Rightarrow> nat \<Rightarrow> nat option" where
  "double_until sz higher =
     (if sz > higher then double_until sz (higher * 2 mod 2 ^ 64) else Some higher)"

declare double_until.simps [code]

definition new_capacity :: "nat \<Rightarrow> nat \<Rightarrow> nat option" where
  "new_capacity sz cap =
     (if sz > MAX_CAPACITY div 2 then Some MAX_CAPACITY else double_until sz cap)"

definition smartlist_ensure_capacity :: "'a smartlist \<Rightarrow> nat \<Rightarrow> 'a smartlist option" where
  "smartlist_ensure_capacity sl sz =
     (if sz > MAX_CAPACITY then None
      else if sz > capacity sl then
        (case new_capacity sz (capacity sl) of
           None \<Rightarrow> None
         | Some higher \<Rightarrow>
             Some (sl\<lparr>lst := take (capacity sl) (lst sl) @ replicate (higher - capacity sl) None,
                      capacity := higher\<rparr>))
      else Some sl)"

definition smartlist_grow :: "'a smartlist \<Rightarrow> nat \<Rightarrow> 'a smartlist option" where
  "smartlist_grow sl new_size =
     (case smartlist_ensure_capacity sl new_size of
        None \<Rightarrow> None
      | Some sl \<Rightarrow> Some (if new_size > num_used sl
                    then sl\<lparr>lst := memset_null (lst sl) (num_used sl) (new_size - num_used sl),
                            num_used := new_size\<rparr>
                    else sl))"

definition smartlist_add :: "'a smartlist \<Rightarrow> 'a option \<Rightarrow> 'a smartlist option" where
  "smartlist_add sl element =
     (case smartlist_ensure_capacity sl (num_used sl + 1) of
        None \<Rightarrow> None
      | Some sl \<Rightarrow> Some (sl\<lparr>lst := (lst sl)[num_used sl := element], num_used := num_used sl + 1\<rparr>))"

definition smartlist_add_all :: "'a smartlist \<Rightarrow> 'a smartlist \<Rightarrow> 'a smartlist option" where
  "smartlist_add_all s1 s2 =
     (let new_size = num_used s1 + num_used s2 in
      case smartlist_ensure_capacity s1 new_size of
        None \<Rightarrow> None
      | Some s1 \<Rightarrow> Some (s1\<lparr>lst := write_at (lst s1) (num_used s1) (take (num_used s2) (lst s2)),
                            num_used := new_size\<rparr>))"

section \<open>Removing\<close>

text \<open>The loop that \<open>smartlist_remove\<close>, \<open>smartlist_string_remove\<close> and \<open>smartlist_intersect\<close>
  share: an element to delete is replaced by the last one, which is looked at next.\<close>

function remove_loop :: "('a option \<Rightarrow> bool) \<Rightarrow> nat \<Rightarrow> 'a smartlist \<Rightarrow> 'a smartlist" where
  "remove_loop p i sl =
     (if i < num_used sl then
        if p (lst sl ! i)
        then remove_loop p i (sl\<lparr>lst := (lst sl)[i := lst sl ! (num_used sl - 1), num_used sl - 1 := None],
                                 num_used := num_used sl - 1\<rparr>)
        else remove_loop p (i + 1) sl
      else sl)"
  by pat_completeness auto
termination by (relation "measure (\<lambda>(p, i, sl). num_used sl - i)") auto

declare remove_loop.simps [simp del]

definition smartlist_remove :: "'a smartlist \<Rightarrow> 'a option \<Rightarrow> 'a smartlist" where
  "smartlist_remove sl element =
     (if element = None then sl else remove_loop (\<lambda>e. e = element) 0 sl)"

function keep_loop :: "'a option \<Rightarrow> nat \<Rightarrow> nat \<Rightarrow> nat \<Rightarrow> 'a smartlist \<Rightarrow> 'a smartlist" where
  "keep_loop element orig i j sl =
     (if j < orig then
        if lst sl ! j = element
        then keep_loop element orig i (j + 1) (sl\<lparr>num_used := num_used sl - 1\<rparr>)
        else keep_loop element orig (i + 1) (j + 1) (sl\<lparr>lst := (lst sl)[i := lst sl ! j]\<rparr>)
      else sl)"
  by pat_completeness auto
termination by (relation "measure (\<lambda>(e, orig, i, j, sl). orig - j)") auto

declare keep_loop.simps [simp del]

definition smartlist_remove_keeporder :: "'a smartlist \<Rightarrow> 'a option \<Rightarrow> 'a smartlist" where
  "smartlist_remove_keeporder sl element =
     (if element = None then sl
      else let orig = num_used sl; sl = keep_loop element orig 0 0 sl
           in sl\<lparr>lst := memset_null (lst sl) (num_used sl) (orig - num_used sl)\<rparr>)"

definition smartlist_pop_last :: "'a smartlist \<Rightarrow> 'a option \<times> 'a smartlist" where
  "smartlist_pop_last sl =
     (if num_used sl \<noteq> 0
      then (lst sl ! (num_used sl - 1),
            sl\<lparr>lst := (lst sl)[num_used sl - 1 := None], num_used := num_used sl - 1\<rparr>)
      else (None, sl))"

definition smartlist_del :: "'a smartlist \<Rightarrow> int \<Rightarrow> 'a smartlist option" where
  "smartlist_del sl idx =
     (if 0 \<le> idx \<and> idx < int (num_used sl)
      then Some (sl\<lparr>lst := (lst sl)[nat idx := lst sl ! (num_used sl - 1), num_used sl - 1 := None],
                    num_used := num_used sl - 1\<rparr>)
      else None)"

definition smartlist_del_keeporder :: "'a smartlist \<Rightarrow> int \<Rightarrow> 'a smartlist option" where
  "smartlist_del_keeporder sl idx =
     (if 0 \<le> idx \<and> idx < int (num_used sl)
      then let n = num_used sl - 1; i = nat idx;
               l = (if i < n then write_at (lst sl) i (take (n - i) (drop (i + 1) (lst sl))) else lst sl)
           in Some (sl\<lparr>lst := l[n := None], num_used := n\<rparr>)
      else None)"

definition smartlist_insert :: "'a smartlist \<Rightarrow> int \<Rightarrow> 'a option \<Rightarrow> 'a smartlist option" where
  "smartlist_insert sl idx val =
     (if 0 \<le> idx \<and> idx \<le> int (num_used sl)
      then if idx = int (num_used sl) then smartlist_add sl val
           else (case smartlist_ensure_capacity sl (num_used sl + 1) of
                   None \<Rightarrow> None
                 | Some sl \<Rightarrow>
                     let i = nat idx;
                         l = write_at (lst sl) (i + 1) (take (num_used sl - i) (drop i (lst sl)))
                     in Some (sl\<lparr>lst := l[i := val], num_used := num_used sl + 1\<rparr>))
      else None)"

section \<open>Searching and combining\<close>

fun pos_loop :: "('a option \<Rightarrow> bool) \<Rightarrow> 'a option list \<Rightarrow> int \<Rightarrow> int" where
  "pos_loop p [] i = - 1"
| "pos_loop p (x # xs) i = (if p x then i else pos_loop p xs (i + 1))"

definition smartlist_pos :: "'a smartlist \<Rightarrow> 'a option \<Rightarrow> int" where
  "smartlist_pos sl element = pos_loop (\<lambda>e. element = e) (take (num_used sl) (lst sl)) 0"

definition smartlist_contains :: "'a smartlist \<Rightarrow> 'a option \<Rightarrow> bool" where
  "smartlist_contains sl element \<longleftrightarrow> list_ex (\<lambda>e. e = element) (take (num_used sl) (lst sl))"

definition smartlist_overlap :: "'a smartlist \<Rightarrow> 'a smartlist \<Rightarrow> bool" where
  "smartlist_overlap sl1 sl2 \<longleftrightarrow> list_ex (\<lambda>e. smartlist_contains sl1 e) (take (num_used sl2) (lst sl2))"

definition smartlist_intersect :: "'a smartlist \<Rightarrow> 'a smartlist \<Rightarrow> 'a smartlist" where
  "smartlist_intersect sl1 sl2 = remove_loop (\<lambda>e. \<not> smartlist_contains sl2 e) 0 sl1"

definition smartlist_subtract :: "'a smartlist \<Rightarrow> 'a smartlist \<Rightarrow> 'a smartlist" where
  "smartlist_subtract sl1 sl2 = foldl smartlist_remove sl1 (take (num_used sl2) (lst sl2))"

text \<open>Two live lists compared as pointers first: here a list is a value, and equal values are equal
  element by element.\<close>

definition smartlist_ptrs_eq :: "'a smartlist option \<Rightarrow> 'a smartlist option \<Rightarrow> bool" where
  "smartlist_ptrs_eq s1 s2 =
     (case (s1, s2) of
        (None, None) \<Rightarrow> True
      | (Some s1, Some s2) \<Rightarrow> num_used s1 = num_used s2 \<and>
          list_all (\<lambda>i. lst s1 ! i = lst s2 ! i) [0..<num_used s1]
      | _ \<Rightarrow> False)"

definition smartlist_swap :: "'a smartlist \<Rightarrow> nat \<Rightarrow> nat \<Rightarrow> 'a smartlist" where
  "smartlist_swap sl idx1 idx2 =
     (if idx1 \<noteq> idx2
      then sl\<lparr>lst := (lst sl)[idx1 := lst sl ! idx2, idx2 := lst sl ! idx1]\<rparr>
      else sl)"

text \<open>The indices of \<open>smartlist_reverse\<close> are signed: the loop of an empty list starts at -1.\<close>

function reverse_loop :: "int \<Rightarrow> int \<Rightarrow> 'a list \<Rightarrow> 'a list" where
  "reverse_loop i j l =
     (if i < j then reverse_loop (i + 1) (j - 1) (l[nat i := l ! nat j, nat j := l ! nat i]) else l)"
  by pat_completeness auto
termination by (relation "measure (\<lambda>(i, j, l). nat (j - i))") auto

declare reverse_loop.simps [simp del]

definition smartlist_reverse :: "'a smartlist \<Rightarrow> 'a smartlist" where
  "smartlist_reverse sl = sl\<lparr>lst := reverse_loop 0 (int (num_used sl) - 1) (lst sl)\<rparr>"

section \<open>Abstraction and invariant\<close>

text \<open>Entries past \<open>num_used\<close> are NULL, the array has exactly \<open>capacity\<close> slots, and the capacity
  fits an \<open>int\<close>; being positive, it can be doubled up to any size.\<close>

definition wf_smartlist :: "'a smartlist \<Rightarrow> bool" where
  "wf_smartlist sl \<longleftrightarrow>
     length (lst sl) = capacity sl \<and> num_used sl \<le> capacity sl \<and>
     0 < capacity sl \<and> capacity sl \<le> MAX_CAPACITY \<and>
     drop (num_used sl) (lst sl) = replicate (capacity sl - num_used sl) None"

definition elems :: "'a smartlist \<Rightarrow> 'a option list" where
  "elems sl = take (num_used sl) (lst sl)"

lemma wf_smartlistD [simp]:
  assumes "wf_smartlist sl"
  shows "length (lst sl) = capacity sl" "num_used sl \<le> capacity sl" "0 < capacity sl"
    "capacity sl \<le> MAX_CAPACITY" "num_used sl \<le> MAX_CAPACITY"
  using assms by (auto simp: wf_smartlist_def)

lemma wf_lst:
  "wf_smartlist sl \<Longrightarrow> lst sl = elems sl @ replicate (capacity sl - num_used sl) None"
  unfolding wf_smartlist_def elems_def by (metis append_take_drop_id)

lemma wf_drop: "wf_smartlist sl \<Longrightarrow> drop (num_used sl) (lst sl) = replicate (capacity sl - num_used sl) None"
  unfolding wf_smartlist_def by blast

lemma length_elems [simp]: "wf_smartlist sl \<Longrightarrow> length (elems sl) = num_used sl"
  by (simp add: elems_def)

lemma nth_elems: "i < num_used sl \<Longrightarrow> elems sl ! i = lst sl ! i"
  by (simp add: elems_def)

text \<open>A state given by its used elements followed by NULL is well formed and has those elements.\<close>

lemma wf_smartlistI:
  assumes "lst sl = xs @ replicate (capacity sl - num_used sl) None" and "length xs = num_used sl"
    and "num_used sl \<le> capacity sl" and "0 < capacity sl" and "capacity sl \<le> MAX_CAPACITY"
  shows "wf_smartlist sl" and "elems sl = xs"
  using assms by (auto simp: wf_smartlist_def elems_def simp del: wf_smartlistD)

lemma smartlist_new_wf: "wf_smartlist smartlist_new" and elems_new: "elems smartlist_new = []"
  by (simp_all add: smartlist_new_def wf_smartlist_def elems_def SMARTLIST_DEFAULT_CAPACITY_def
      MAX_CAPACITY_def INT_MAX_def del: wf_smartlistD)

lemma smartlist_clear_wf: "wf_smartlist sl \<Longrightarrow> wf_smartlist (smartlist_clear sl)"
  and elems_clear: "elems (smartlist_clear sl) = []"
proof -
  show "elems (smartlist_clear sl) = []" by (simp add: elems_def smartlist_clear_def)
  assume wf: "wf_smartlist sl"
  then have "lst (smartlist_clear sl) = replicate (capacity sl) None"
    by (subst smartlist_clear_def) (simp add: memset_null_def wf_lst [OF wf] flip: replicate_add)
  with wf show "wf_smartlist (smartlist_clear sl)"
    using wf_smartlistI(1) [of "smartlist_clear sl" "[]"] by (simp add: smartlist_clear_def)
qed

section \<open>Growing keeps the elements\<close>

lemma double_until_returns:
  assumes "0 < h" and "sz \<le> MAX_CAPACITY div 2" and "h \<le> MAX_CAPACITY"
  shows "\<exists>h'. double_until sz h = Some h' \<and> sz \<le> h' \<and> h \<le> h' \<and> h' \<le> MAX_CAPACITY"
  using assms
proof (induction "sz - h" arbitrary: h rule: less_induct)
  case less
  show ?case
  proof (cases "h < sz")
    case True
    then have "h * 2 mod 2 ^ 64 = h * 2" and "h * 2 \<le> MAX_CAPACITY"
      using less.prems by (simp_all add: MAX_CAPACITY_def INT_MAX_def)
    moreover obtain h' where "double_until sz (h * 2) = Some h'" "sz \<le> h'" "h * 2 \<le> h'" "h' \<le> MAX_CAPACITY"
      using less.hyps [of "h * 2"] less.prems True \<open>h * 2 \<le> MAX_CAPACITY\<close>
      by (auto simp: diff_less_mono2)
    ultimately show ?thesis using True by (subst double_until.simps) auto
  next
    case False
    then show ?thesis using less.prems by (subst double_until.simps) auto
  qed
qed

lemma new_capacity_returns:
  assumes "0 < cap" and "cap < sz" and "sz \<le> MAX_CAPACITY"
  shows "\<exists>h. new_capacity sz cap = Some h \<and> sz \<le> h \<and> cap \<le> h \<and> h \<le> MAX_CAPACITY"
  using double_until_returns [of cap sz] assms by (auto simp: new_capacity_def)

text \<open>The whole behaviour of \<open>smartlist_ensure_capacity\<close>: it aborts above the limit and returns otherwise.\<close>

lemma ensure_capacity_abort: "MAX_CAPACITY < sz \<Longrightarrow> smartlist_ensure_capacity sl sz = None"
  by (simp add: smartlist_ensure_capacity_def)

lemma ensure_capacity_ok:
  assumes wf: "wf_smartlist sl" and sz: "sz \<le> MAX_CAPACITY"
  obtains sl' where "smartlist_ensure_capacity sl sz = Some sl'" "wf_smartlist sl'"
    "elems sl' = elems sl" "num_used sl' = num_used sl" "sz \<le> capacity sl'"
proof (cases "capacity sl < sz")
  case True
  obtain h where h: "new_capacity sz (capacity sl) = Some h" "sz \<le> h" "capacity sl \<le> h" "h \<le> MAX_CAPACITY"
    using new_capacity_returns [OF _ True sz] wf by auto
  define sl' where "sl' = sl\<lparr>lst := take (capacity sl) (lst sl) @ replicate (h - capacity sl) None, capacity := h\<rparr>"
  have n: "num_used sl \<le> capacity sl" using wf by auto
  have "lst sl' = lst sl @ replicate (h - capacity sl) None"
    using wf by (auto simp: sl'_def)
  also have "\<dots> = elems sl @ replicate (h - num_used sl) None"
    using h n by (subst wf_lst [OF wf]) (simp flip: replicate_add)
  finally have "lst sl' = elems sl @ replicate (h - num_used sl) None" .
  then have "wf_smartlist sl'" "elems sl' = elems sl"
    using wf_smartlistI [of sl' "elems sl"] wf h n True by (simp_all add: sl'_def)
  moreover have "smartlist_ensure_capacity sl sz = Some sl'"
    using True h sz by (simp add: smartlist_ensure_capacity_def sl'_def)
  ultimately show ?thesis using that [of sl'] h by (simp add: sl'_def)
next
  case False
  then show ?thesis using that [of sl] wf sz by (simp add: smartlist_ensure_capacity_def)
qed

lemma append_state:
  assumes wf: "wf_smartlist sl" and n: "num_used sl + length ys \<le> capacity sl"
    and l: "lst sl' = write_at (lst sl) (num_used sl) ys"
    and s: "num_used sl' = num_used sl + length ys" "capacity sl' = capacity sl"
  shows "wf_smartlist sl' \<and> elems sl' = elems sl @ ys"
proof -
  have "lst sl' = (elems sl @ ys) @ replicate (capacity sl' - num_used sl') None"
    using wf n s by (simp add: l write_at_def wf_lst [OF wf])
  moreover have "length (elems sl @ ys) = num_used sl'" "num_used sl' \<le> capacity sl'" "0 < capacity sl'" "capacity sl' \<le> MAX_CAPACITY"
    using wf n s by auto
  ultimately show ?thesis using wf_smartlistI by blast
qed

lemma list_update_write_at: "i < length l \<Longrightarrow> l[i := x] = write_at l i [x]"
  by (simp add: write_at_def upd_conv_take_nth_drop)

lemma smartlist_add_abort:
  "num_used sl = MAX_CAPACITY \<Longrightarrow> smartlist_add sl x = None"
  by (simp add: smartlist_add_def ensure_capacity_abort)

lemma smartlist_add_ok:
  assumes wf: "wf_smartlist sl" and n: "num_used sl < MAX_CAPACITY"
  shows "\<exists>sl'. smartlist_add sl x = Some sl' \<and> wf_smartlist sl' \<and> elems sl' = elems sl @ [x]"
proof -
  obtain s where s: "smartlist_ensure_capacity sl (num_used sl + 1) = Some s" "wf_smartlist s"
    "elems s = elems sl" "num_used s = num_used sl" "num_used sl + 1 \<le> capacity s"
    using ensure_capacity_ok [OF wf, of "num_used sl + 1"] n by auto
  define sl' where "sl' = s\<lparr>lst := (lst s)[num_used s := x], num_used := num_used s + 1\<rparr>"
  have "wf_smartlist sl' \<and> elems sl' = elems s @ [x]"
    by (rule append_state) (use s in \<open>auto simp: sl'_def list_update_write_at\<close>)
  then show ?thesis using s by (simp add: smartlist_add_def sl'_def)
qed

lemma smartlist_add_all_ok:
  assumes wf: "wf_smartlist s1" "wf_smartlist s2" and n: "num_used s1 + num_used s2 \<le> MAX_CAPACITY"
  shows "\<exists>sl'. smartlist_add_all s1 s2 = Some sl' \<and> wf_smartlist sl' \<and> elems sl' = elems s1 @ elems s2"
proof -
  obtain s where s: "smartlist_ensure_capacity s1 (num_used s1 + num_used s2) = Some s" "wf_smartlist s"
    "elems s = elems s1" "num_used s = num_used s1" "num_used s1 + num_used s2 \<le> capacity s"
    using ensure_capacity_ok [OF wf(1) n] by auto
  define sl' where "sl' = s\<lparr>lst := write_at (lst s) (num_used s) (elems s2), num_used := num_used s1 + num_used s2\<rparr>"
  have "wf_smartlist sl' \<and> elems sl' = elems s @ elems s2"
    by (rule append_state) (use s wf in \<open>auto simp: sl'_def\<close>)
  then show ?thesis using s by (simp add: smartlist_add_all_def sl'_def elems_def [of s2])
qed

lemma smartlist_grow_ok:
  assumes wf: "wf_smartlist sl" and n: "m \<le> MAX_CAPACITY"
  shows "\<exists>sl'. smartlist_grow sl m = Some sl' \<and> wf_smartlist sl' \<and>
     elems sl' = elems sl @ replicate (m - num_used sl) None"
proof -
  obtain s where s: "smartlist_ensure_capacity sl m = Some s" "wf_smartlist s"
    "elems s = elems sl" "num_used s = num_used sl" "m \<le> capacity s"
    using ensure_capacity_ok [OF wf n] by auto
  show ?thesis
  proof (cases "num_used s < m")
    case True
    define sl' where "sl' = s\<lparr>lst := memset_null (lst s) (num_used s) (m - num_used s), num_used := m\<rparr>"
    have "wf_smartlist sl' \<and> elems sl' = elems s @ replicate (m - num_used s) None"
      by (rule append_state) (use s True in \<open>auto simp: sl'_def memset_null_def write_at_def\<close>)
    then show ?thesis using s True by (simp add: smartlist_grow_def sl'_def)
  qed (use s in \<open>simp add: smartlist_grow_def\<close>)
qed

section \<open>Removal on lists\<close>

text \<open>What the removing operations do to the elements: the last one takes the place of the deleted one.\<close>

definition del_swap :: "nat \<Rightarrow> 'x list \<Rightarrow> 'x list" where
  "del_swap i xs = butlast (xs[i := last xs])"

definition del_at :: "nat \<Rightarrow> 'x list \<Rightarrow> 'x list" where
  "del_at i xs = take i xs @ drop (Suc i) xs"

function swap_remove :: "('x \<Rightarrow> bool) \<Rightarrow> 'x list \<Rightarrow> 'x list" where
  "swap_remove p [] = []"
| "swap_remove p (x # xs) =
     (if p x then if xs = [] then [] else swap_remove p (last xs # butlast xs)
      else x # swap_remove p xs)"
  by pat_completeness auto
termination by (relation "measure (\<lambda>(p, xs). length xs)") auto

lemma update_last: "xs \<noteq> [] \<Longrightarrow> xs[length xs - 1 := y] = butlast xs @ [y]"
  by (cases xs rule: rev_cases) (auto simp: list_update_append)

lemma mset_del_swap: "i < length xs \<Longrightarrow> mset (del_swap i xs) = mset xs - {#xs ! i#}"
proof -
  assume i: "i < length xs"
  then have ne: "xs[i := last xs] \<noteq> []" by auto
  have l: "last (xs[i := last xs]) = last xs" using i by (cases xs rule: rev_cases) (auto simp: list_update_append last_list_update)
  have "mset (xs[i := last xs]) = add_mset (last xs) (mset (butlast (xs[i := last xs])))"
    using append_butlast_last_id [OF ne] l by (metis mset_append mset.simps union_mset_add_mset_right add.right_neutral)
  then show ?thesis using i by (simp add: del_swap_def mset_update)
qed

lemma length_del_swap [simp]: "length (del_swap i xs) = length xs - 1"
  by (simp add: del_swap_def)

lemma nth_del_swap: "k < length xs - 1 \<Longrightarrow> del_swap i xs ! k = (if k = i then last xs else xs ! k)"
  by (simp add: del_swap_def nth_butlast nth_list_update)

lemma mset_swap_remove: "mset (swap_remove p xs) = filter_mset (\<lambda>x. \<not> p x) (mset xs)"
proof (induction p xs rule: swap_remove.induct)
  case (2 p x xs)
  show ?case
  proof (cases "p x \<and> xs \<noteq> []")
    case True
    then have "mset (last xs # butlast xs) = mset xs"
      by (metis append_butlast_last_id mset.simps(2) mset_append union_commute add_mset_add_single mset_single_iff_right)
    moreover have "swap_remove p (x # xs) = swap_remove p (last xs # butlast xs)"
      using True by (subst swap_remove.simps(2)) (simp del: swap_remove.simps)
    ultimately show ?thesis using True 2(1) by (simp del: swap_remove.simps add: filter_mset_add_mset [symmetric])
  qed (use 2 in auto)
qed simp

lemma prefix_swap_remove: "prefix (takeWhile (\<lambda>x. \<not> p x) xs) (swap_remove p xs)"
  by (induction p xs rule: swap_remove.induct) auto

lemma swap_remove_step:
  assumes "i < length xs" and "p (xs ! i)"
  shows "swap_remove p (drop i xs) = swap_remove p (drop i (del_swap i xs))"
proof (cases "i = length xs - 1")
  case True
  with assms have "drop i xs = [xs ! i]" by (metis Cons_nth_drop_Suc Suc_diff_1 drop_all gr_implies_not0 le_refl length_greater_0_conv less_zeroE list.size(3))
  with True assms show ?thesis by (simp add: del_swap_def butlast_conv_take)
next
  case False
  with assms have e: "drop i xs = xs ! i # drop (Suc i) xs" "drop (Suc i) xs \<noteq> []" by (auto simp: Cons_nth_drop_Suc)
  have "drop i (del_swap i xs) = last xs # butlast (drop (Suc i) xs)"
    using assms False by (auto simp: del_swap_def drop_butlast drop_update_swap upd_conv_take_nth_drop)
  with e assms show ?thesis by (simp add: last_drop)
qed

section \<open>Removal keeps the invariant\<close>

lemma del_state:
  assumes wf: "wf_smartlist sl" and i: "i < num_used sl"
    and l: "lst sl' = (lst sl)[i := lst sl ! (num_used sl - 1), num_used sl - 1 := None]"
    and s: "num_used sl' = num_used sl - 1" "capacity sl' = capacity sl"
  shows "wf_smartlist sl' \<and> elems sl' = del_swap i (elems sl)"
proof -
  let ?n = "num_used sl - 1"
  have e: "elems sl \<noteq> []" "last (elems sl) = lst sl ! ?n"
    using wf i by (auto simp: last_conv_nth nth_elems simp flip: length_greater_0_conv)
  have n: "num_used sl = Suc ?n" using i by simp
  have len: "length (elems sl) = num_used sl" using wf by simp
  have "lst sl' = (elems sl)[i := last (elems sl), ?n := None] @ replicate (capacity sl - num_used sl) None"
    using i len e by (simp add: l wf_lst [OF wf] list_update_append)
  also have "(elems sl)[i := last (elems sl), ?n := None] = del_swap i (elems sl) @ [None]"
    using update_last [of "(elems sl)[i := last (elems sl)]" None] i len e by (simp add: del_swap_def)
  finally have "lst sl' = del_swap i (elems sl) @ replicate (capacity sl' - num_used sl') None"
    using s n wf_smartlistD(2) [OF wf] by (metis Suc_diff_le append.assoc append_Cons append_Nil diff_Suc_Suc n replicate_Suc Suc_le_eq)
  moreover have "length (del_swap i (elems sl)) = num_used sl'" using len s by (simp add: del_swap_def)
  ultimately show ?thesis using wf_smartlistI [of sl'] s wf
    by (metis diff_le_self order_trans wf_smartlistD(2,3,4))
qed

lemma remove_loop_spec:
  assumes "wf_smartlist sl" and "i \<le> num_used sl"
  shows "wf_smartlist (remove_loop p i sl) \<and>
    elems (remove_loop p i sl) = take i (elems sl) @ swap_remove p (drop i (elems sl))"
  using assms
proof (induction p i sl rule: remove_loop.induct)
  case (1 p i sl)
  let ?sl = "sl\<lparr>lst := (lst sl)[i := lst sl ! (num_used sl - 1), num_used sl - 1 := None], num_used := num_used sl - 1\<rparr>"
  show ?case
  proof (cases "i < num_used sl")
    case i: True
    have d: "wf_smartlist ?sl \<and> elems ?sl = del_swap i (elems sl)"
      by (rule del_state) (use 1 i in simp_all)
    have len: "length (elems sl) = num_used sl" using 1 by simp
    show ?thesis
    proof (cases "p (lst sl ! i)")
      case True
      then have "swap_remove p (drop i (elems sl)) = swap_remove p (drop i (del_swap i (elems sl)))"
        using swap_remove_step [of i "elems sl" p] i len by (simp add: nth_elems)
      moreover have "take i (del_swap i (elems sl)) = take i (elems sl)"
        using i len by (simp add: del_swap_def butlast_conv_take)
      ultimately show ?thesis using 1(1) [OF i True] d i True by (subst (1 2) remove_loop.simps) simp
    next
      case False
      have "drop i (elems sl) = lst sl ! i # drop (i + 1) (elems sl)" "take (i + 1) (elems sl) = take i (elems sl) @ [lst sl ! i]"
        using i len by (simp_all add: Cons_nth_drop_Suc take_Suc_conv_app_nth flip: nth_elems)
      then show ?thesis using 1(2) [OF i False] 1(3) i False by (subst (1 2) remove_loop.simps) simp
    qed
  next
    case False
    then show ?thesis using 1 by (subst (1 2) remove_loop.simps) simp
  qed
qed

lemma smartlist_remove_spec:
  assumes "wf_smartlist sl"
  shows "wf_smartlist (smartlist_remove sl e)"
    and "elems (smartlist_remove sl e) = (if e = None then elems sl else swap_remove (\<lambda>x. x = e) (elems sl))"
  using remove_loop_spec [OF assms, of 0] assms by (simp_all add: smartlist_remove_def)

lemma smartlist_intersect_spec:
  assumes "wf_smartlist sl1"
  shows "wf_smartlist (smartlist_intersect sl1 sl2)"
    and "elems (smartlist_intersect sl1 sl2) = swap_remove (\<lambda>x. x \<notin> set (elems sl2)) (elems sl1)"
proof -
  have "smartlist_contains sl2 = (\<lambda>x. x \<in> set (elems sl2))"
    by (auto simp: smartlist_contains_def elems_def list_ex_iff fun_eq_iff)
  then show "wf_smartlist (smartlist_intersect sl1 sl2)"
    and "elems (smartlist_intersect sl1 sl2) = swap_remove (\<lambda>x. x \<notin> set (elems sl2)) (elems sl1)"
    using remove_loop_spec [OF assms, of 0] by (simp_all add: smartlist_intersect_def)
qed

lemma foldl_remove_spec:
  assumes "wf_smartlist sl"
  shows "wf_smartlist (foldl smartlist_remove sl es) \<and>
    mset (elems (foldl smartlist_remove sl es)) = filter_mset (\<lambda>x. x = None \<or> x \<notin> set es) (mset (elems sl))"
  using assms
proof (induction es arbitrary: sl)
  case (Cons e es)
  have "filter_mset (\<lambda>x. x = None \<or> x \<notin> set es) (mset (elems (smartlist_remove sl e))) =
        filter_mset (\<lambda>x. x = None \<or> x \<notin> set (e # es)) (mset (elems sl))"
    by (auto simp: smartlist_remove_spec [OF Cons.prems] mset_swap_remove filter_filter_mset
        intro!: filter_mset_cong)
  then show ?case using Cons.IH [of "smartlist_remove sl e"] smartlist_remove_spec(1) [OF Cons.prems] by simp
qed simp

text \<open>The compaction loop: the kept elements of the first \<open>j\<close> fill the first \<open>i\<close> places.\<close>

lemma keep_loop_spec:
  assumes "j \<le> orig" and "orig \<le> length (lst sl)" and "i = length (filter (\<lambda>x. x \<noteq> e) (take j l0))"
    and "length l0 = length (lst sl)" and "take i (lst sl) = filter (\<lambda>x. x \<noteq> e) (take j l0)"
    and "drop j (lst sl) = drop j l0" and "num_used sl = orig - (j - i)"
  shows "\<exists>l'. keep_loop e orig i j sl = sl\<lparr>lst := l', num_used := length (filter (\<lambda>x. x \<noteq> e) (take orig l0))\<rparr> \<and>
    length l' = length l0 \<and> drop orig l' = drop orig l0 \<and>
    take (length (filter (\<lambda>x. x \<noteq> e) (take orig l0))) l' = filter (\<lambda>x. x \<noteq> e) (take orig l0)"
  using assms
proof (induction e orig i j sl rule: keep_loop.induct)
  case (1 e orig i j sl)
  have i: "i \<le> j" using 1(5) length_filter_le [of "\<lambda>x. x \<noteq> e" "take j l0"] by simp
  show ?case
  proof (cases "j < orig")
    case j: True
    then have jl: "j < length l0" "j < length (lst sl)" using 1(4,6) by linarith+
    have e: "lst sl ! j = l0 ! j" using 1(8) jl by (metis Cons_nth_drop_Suc list.inject)
    have t: "take (j + 1) l0 = take j l0 @ [l0 ! j]" using jl by (simp add: take_Suc_conv_app_nth)
    have d: "drop (j + 1) (lst sl) = drop (j + 1) l0" using 1(8) by (metis drop_drop add.commute)
    show ?thesis
    proof (cases "lst sl ! j = e")
      case True
      let ?sl = "sl\<lparr>num_used := num_used sl - 1\<rparr>"
      have "filter (\<lambda>x. x \<noteq> e) (take (j + 1) l0) = filter (\<lambda>x. x \<noteq> e) (take j l0)"
        unfolding t using e True by simp
      then have "\<exists>l'. keep_loop e orig i (j + 1) ?sl = ?sl\<lparr>lst := l', num_used := length (filter (\<lambda>x. x \<noteq> e) (take orig l0))\<rparr> \<and>
          length l' = length l0 \<and> drop orig l' = drop orig l0 \<and>
          take (length (filter (\<lambda>x. x \<noteq> e) (take orig l0))) l' = filter (\<lambda>x. x \<noteq> e) (take orig l0)"
        by (intro 1(1) [OF j True]) (use 1(4-7,9) j d i in simp_all)
      moreover have "keep_loop e orig i j sl = keep_loop e orig i (j + 1) ?sl"
        using j True by (subst keep_loop.simps) simp
      ultimately show ?thesis by simp
    next
      case False
      let ?sl = "sl\<lparr>lst := (lst sl)[i := lst sl ! j]\<rparr>"
      have "take (i + 1) (lst ?sl) = filter (\<lambda>x. x \<noteq> e) (take (j + 1) l0)"
        using 1(7) t e False i jl by (simp add: take_Suc_conv_app_nth)
      moreover have "drop (j + 1) (lst ?sl) = drop (j + 1) l0" using d i by simp
      moreover have "num_used ?sl = orig - (j + 1 - (i + 1))" using 1(9) by simp
      moreover have "i + 1 = length (filter (\<lambda>x. x \<noteq> e) (take (j + 1) l0))"
        unfolding t using 1(5) e False by simp
      ultimately have "\<exists>l'. keep_loop e orig (i + 1) (j + 1) ?sl = ?sl\<lparr>lst := l', num_used := length (filter (\<lambda>x. x \<noteq> e) (take orig l0))\<rparr> \<and>
          length l' = length l0 \<and> drop orig l' = drop orig l0 \<and>
          take (length (filter (\<lambda>x. x \<noteq> e) (take orig l0))) l' = filter (\<lambda>x. x \<noteq> e) (take orig l0)"
        by (intro 1(2) [OF j False]) (use 1(4,6) j in simp_all)
      moreover have "keep_loop e orig i j sl = keep_loop e orig (i + 1) (j + 1) ?sl"
        using j False by (subst keep_loop.simps) simp
      ultimately show ?thesis by simp
    qed
  next
    case False
    then have j: "j = orig" using 1(3) by simp
    have n: "num_used sl = length (filter (\<lambda>x. x \<noteq> e) (take orig l0))" using j 1(5,9) i by simp
    have "keep_loop e orig i j sl = sl\<lparr>lst := lst sl, num_used := length (filter (\<lambda>x. x \<noteq> e) (take orig l0))\<rparr>"
      using False by (subst keep_loop.simps) (simp flip: n)
    then show ?thesis by (intro exI [of _ "lst sl"] conjI) (use 1(5-8) j in simp_all)
  qed
qed

lemma smartlist_remove_keeporder_spec:
  assumes wf: "wf_smartlist sl"
  shows "wf_smartlist (smartlist_remove_keeporder sl e) \<and>
    elems (smartlist_remove_keeporder sl e) = (if e = None then elems sl else filter (\<lambda>x. x \<noteq> e) (elems sl))"
proof (cases "e = None")
  case False
  let ?ys = "filter (\<lambda>x. x \<noteq> e) (elems sl)" and ?n = "num_used sl"
  obtain l' where l: "keep_loop e ?n 0 0 sl = sl\<lparr>lst := l', num_used := length ?ys\<rparr>"
    "length l' = length (lst sl)" "drop ?n l' = drop ?n (lst sl)" "take (length ?ys) l' = ?ys"
    using keep_loop_spec [of 0 ?n sl 0 e "lst sl"] wf unfolding elems_def by auto
  have n: "length ?ys \<le> ?n" using wf by (metis length_elems length_filter_le)
  define sl' where "sl' = smartlist_remove_keeporder sl e"
  have s: "num_used sl' = length ?ys" "capacity sl' = capacity sl"
    "lst sl' = memset_null l' (length ?ys) (?n - length ?ys)"
    unfolding sl'_def smartlist_remove_keeporder_def Let_def if_not_P [OF False] l by simp_all
  then have "lst sl' = ?ys @ replicate (capacity sl' - num_used sl') None"
    using n l wf wf_lst [OF wf] by (simp add: memset_null_def flip: replicate_add)
  moreover have "length ?ys \<le> capacity sl" using n wf_smartlistD(2) [OF wf] by linarith
  ultimately have "wf_smartlist sl'" "elems sl' = ?ys"
    using wf_smartlistI [of sl' ?ys] s wf_smartlistD [OF wf] by metis+
  then show ?thesis by (simp only: sl'_def if_not_P [OF False] simp_thms)
qed (use wf in \<open>simp add: smartlist_remove_keeporder_def\<close>)

lemma smartlist_del_ok:
  assumes wf: "wf_smartlist sl" and i: "0 \<le> idx" "idx < int (num_used sl)"
  shows "\<exists>sl'. smartlist_del sl idx = Some sl' \<and> wf_smartlist sl' \<and> elems sl' = del_swap (nat idx) (elems sl)"
  using i del_state [OF wf, of "nat idx" "the (smartlist_del sl idx)"] by (simp add: smartlist_del_def nat_less_iff)

lemma smartlist_pop_last_spec:
  assumes wf: "wf_smartlist sl"
  shows "case smartlist_pop_last sl of (x, sl') \<Rightarrow> wf_smartlist sl' \<and> elems sl' = butlast (elems sl) \<and>
    x = (if elems sl = [] then None else last (elems sl))"
proof (cases "num_used sl = 0")
  case False
  let ?n = "num_used sl - 1"
  have e: "elems sl \<noteq> []" "last (elems sl) = lst sl ! ?n"
    using wf False by (auto simp: last_conv_nth nth_elems simp flip: length_greater_0_conv)
  define sl' where "sl' = sl\<lparr>lst := (lst sl)[?n := None], num_used := ?n\<rparr>"
  have "wf_smartlist sl' \<and> elems sl' = del_swap ?n (elems sl)"
    by (rule del_state [OF wf]) (use False in \<open>simp_all add: sl'_def\<close>)
  moreover have "del_swap ?n (elems sl) = butlast (elems sl)"
    using update_last [OF e(1), of "last (elems sl)"] wf by (simp add: del_swap_def)
  ultimately show ?thesis using e False by (simp add: smartlist_pop_last_def sl'_def)
qed (use wf in \<open>auto simp: smartlist_pop_last_def elems_def\<close>)

lemma smartlist_del_keeporder_ok:
  assumes wf: "wf_smartlist sl" and i: "0 \<le> idx" "idx < int (num_used sl)"
  shows "\<exists>sl'. smartlist_del_keeporder sl idx = Some sl' \<and> wf_smartlist sl' \<and> elems sl' = del_at (nat idx) (elems sl)"
proof -
  let ?n = "num_used sl - 1" and ?i = "nat idx" and ?xs = "elems sl"
  have len: "length ?xs = Suc ?n" and ii: "?i \<le> ?n" using wf i by auto
  obtain k where k: "capacity sl - num_used sl = k" "capacity sl = Suc ?n + k"
    using wf_smartlistD(2) [OF wf] i by (metis Suc_diff_1 le_add_diff_inverse of_nat_0_less_iff order_le_less_trans)
  define l where "l = (if ?i < ?n then write_at (lst sl) ?i (take (?n - ?i) (drop (?i + 1) (lst sl))) else lst sl)"
  have "l[?n := None] = del_at ?i ?xs @ replicate (Suc k) None"
  proof (cases "?i < ?n")
    case True
    have "take (?n - ?i) (drop (?i + 1) (lst sl)) = drop (?i + 1) ?xs"
      using True len by (simp add: take_drop elems_def)
    moreover have "drop ?n (lst sl) = lst sl ! ?n # drop (num_used sl) (lst sl)"
      using Cons_nth_drop_Suc [of ?n "lst sl"] wf_smartlistD(1,2) [OF wf] len wf
      by (metis Suc_le_eq length_elems)
    then have "drop ?n (lst sl) = lst sl ! ?n # replicate k None"
      unfolding wf_drop [OF wf] k(1) .
    moreover have "take ?i (lst sl) = take ?i ?xs" using True len by (simp add: elems_def)
    ultimately have "l = del_at ?i ?xs @ lst sl ! ?n # replicate k None"
      using True len by (simp add: l_def write_at_def del_at_def)
    then show ?thesis using len ii by (simp add: del_at_def list_update_append min_def)
  next
    case False
    with ii have "?i = ?n" by simp
    moreover have "?xs[?n := None] = butlast ?xs @ [None]" using update_last [of ?xs None] len by (cases ?xs) auto
    ultimately show ?thesis using len
      by (simp add: l_def wf_lst [OF wf] k(1) del_at_def list_update_append butlast_conv_take)
  qed
  moreover define sl' where "sl' = sl\<lparr>lst := l[?n := None], num_used := ?n\<rparr>"
  ultimately have "wf_smartlist sl' \<and> elems sl' = del_at ?i ?xs"
    using wf_smartlistI [of sl' "del_at ?i ?xs"] k(2) len ii wf_smartlistD(4) [OF wf]
    by (simp add: del_at_def)
  moreover have "smartlist_del_keeporder sl idx = Some sl'"
    using i by (simp add: smartlist_del_keeporder_def Let_def sl'_def l_def)
  ultimately show ?thesis by blast
qed

lemma smartlist_insert_ok:
  assumes wf: "wf_smartlist sl" and i: "0 \<le> idx" "idx \<le> int (num_used sl)" and n: "num_used sl < MAX_CAPACITY"
  shows "\<exists>sl'. smartlist_insert sl idx v = Some sl' \<and> wf_smartlist sl' \<and>
    elems sl' = take (nat idx) (elems sl) @ v # drop (nat idx) (elems sl)"
proof (cases "idx = int (num_used sl)")
  case True
  then show ?thesis using smartlist_add_ok [OF wf n, of v] wf by (auto simp: smartlist_insert_def)
next
  case False
  obtain s where s: "smartlist_ensure_capacity sl (num_used sl + 1) = Some s" "wf_smartlist s"
    "elems s = elems sl" "num_used s = num_used sl" "num_used sl + 1 \<le> capacity s"
    using ensure_capacity_ok [OF wf, of "num_used sl + 1"] n by auto
  let ?i = "nat idx" and ?xs = "elems s"
  have ii: "?i < num_used s" using False i s by simp
  obtain k where k: "capacity s - num_used s = Suc k" using s by (metis Suc_diff_Suc Suc_eq_plus1 Suc_le_eq)
  then have kk: "k = capacity s - Suc (num_used sl)" using s by simp
  have len: "length ?xs = num_used s" by (rule length_elems [OF s(2)])
  define l where "l = write_at (lst s) (?i + 1) (take (num_used s - ?i) (drop ?i (lst s)))"
  have "take (num_used s - ?i) (drop ?i (lst s)) = drop ?i ?xs" using ii by (simp add: take_drop elems_def)
  moreover have "take (?i + 1) (lst s) = take (?i + 1) ?xs" using ii by (simp add: elems_def)
  moreover have "drop (Suc (num_used s)) (lst s) = replicate k None"
    using wf_drop [OF s(2)] k by (metis Cons_nth_drop_Suc drop_Suc tl_drop replicate_Suc list.sel(3))
  ultimately have "l = take (?i + 1) ?xs @ drop ?i ?xs @ replicate k None"
    using ii len by (simp add: l_def write_at_def)
  then have l: "l[?i := v] = (take ?i ?xs @ v # drop ?i ?xs) @ replicate k None"
    using ii len by (simp add: take_Suc_conv_app_nth list_update_append)
  define sl' where "sl' = s\<lparr>lst := l[?i := v], num_used := num_used s + 1\<rparr>"
  have "wf_smartlist sl'" "elems sl' = take ?i ?xs @ v # drop ?i ?xs"
    using wf_smartlistI [of sl' "take ?i ?xs @ v # drop ?i ?xs"] s ii len kk l
    by (simp_all add: sl'_def)
  moreover have "smartlist_insert sl idx v = Some sl'"
    using s i False by (simp add: smartlist_insert_def sl'_def l_def Let_def)
  ultimately show ?thesis using s by simp
qed

text \<open>The reversal loop has exchanged the outer parts and still has the middle one to do.\<close>

lemma reverse_loop_append:
  assumes "i = int (length a)" and "j = int (length a + length m) - 1"
  shows "reverse_loop i j (a @ m @ z) = a @ rev m @ z"
  using assms
proof (induction "length m" arbitrary: a m z i j rule: less_induct)
  case less
  show ?case
  proof (cases "i < j")
    case True
    then obtain x m' y where m: "m = x # m' @ [y]"
      using less.prems by (cases m rule: rev_cases; cases "butlast m") auto
    have "(a @ m @ z)[nat i := (a @ m @ z) ! nat j, nat j := (a @ m @ z) ! nat i] = (a @ [y]) @ m' @ (x # z)"
      using less.prems by (simp add: m nth_append list_update_append nat_add_distrib)
    moreover have "reverse_loop (i + 1) (j - 1) ((a @ [y]) @ m' @ (x # z)) = (a @ [y]) @ rev m' @ (x # z)"
      using less.prems by (intro less.hyps) (simp_all add: m)
    ultimately show ?thesis using True by (subst reverse_loop.simps) (simp add: m)
  next
    case False
    then have "length m \<le> 1" using less.prems by auto
    then have "rev m = m" by (cases m; cases "tl m") auto
    then show ?thesis using False by (subst reverse_loop.simps) simp
  qed
qed

lemma smartlist_reverse_spec:
  assumes wf: "wf_smartlist sl"
  shows "wf_smartlist (smartlist_reverse sl) \<and> elems (smartlist_reverse sl) = rev (elems sl)"
proof -
  have "lst (smartlist_reverse sl) = rev (elems sl) @ replicate (capacity sl - num_used sl) None"
    using reverse_loop_append [of 0 "[]" "int (num_used sl) - 1" "elems sl"] wf
    by (simp add: smartlist_reverse_def wf_lst [OF wf])
  then show ?thesis using wf_smartlistI [of "smartlist_reverse sl" "rev (elems sl)"] wf
    by (simp add: smartlist_reverse_def)
qed

section \<open>Refinement of lists\<close>

datatype 'a smartlist_op =
    Clear | Grow nat | Add "'a option" | Add_all "'a smartlist" | Remove "'a option"
  | Remove_keeporder "'a option" | Pop_last | Del int | Del_keeporder int | Insert int "'a option"
  | Reverse | Intersect "'a smartlist"

fun exec_smartlist :: "'a smartlist_op \<Rightarrow> 'a smartlist \<Rightarrow> 'a smartlist option" where
  "exec_smartlist Clear sl = Some (smartlist_clear sl)"
| "exec_smartlist (Grow n) sl = smartlist_grow sl n"
| "exec_smartlist (Add x) sl = smartlist_add sl x"
| "exec_smartlist (Add_all s2) sl = smartlist_add_all sl s2"
| "exec_smartlist (Remove x) sl = Some (smartlist_remove sl x)"
| "exec_smartlist (Remove_keeporder x) sl = Some (smartlist_remove_keeporder sl x)"
| "exec_smartlist Pop_last sl = Some (snd (smartlist_pop_last sl))"
| "exec_smartlist (Del i) sl = smartlist_del sl i"
| "exec_smartlist (Del_keeporder i) sl = smartlist_del_keeporder sl i"
| "exec_smartlist (Insert i x) sl = smartlist_insert sl i x"
| "exec_smartlist Reverse sl = Some (smartlist_reverse sl)"
| "exec_smartlist (Intersect s2) sl = Some (smartlist_intersect sl s2)"

text \<open>The specification: plain list functions, and an abort for a length beyond the limit or an
  index out of range.\<close>

fun spec_smartlist :: "'a smartlist_op \<Rightarrow> 'a option list \<Rightarrow> 'a option list option" where
  "spec_smartlist Clear xs = Some []"
| "spec_smartlist (Grow n) xs =
     (if n \<le> MAX_CAPACITY then Some (xs @ replicate (n - length xs) None) else None)"
| "spec_smartlist (Add x) xs = (if length xs < MAX_CAPACITY then Some (xs @ [x]) else None)"
| "spec_smartlist (Add_all s2) xs =
     (if length xs + length (elems s2) \<le> MAX_CAPACITY then Some (xs @ elems s2) else None)"
| "spec_smartlist (Remove x) xs = Some (if x = None then xs else swap_remove (\<lambda>y. y = x) xs)"
| "spec_smartlist (Remove_keeporder x) xs = Some (if x = None then xs else filter (\<lambda>y. y \<noteq> x) xs)"
| "spec_smartlist Pop_last xs = Some (butlast xs)"
| "spec_smartlist (Del i) xs =
     (if 0 \<le> i \<and> i < int (length xs) then Some (del_swap (nat i) xs) else None)"
| "spec_smartlist (Del_keeporder i) xs =
     (if 0 \<le> i \<and> i < int (length xs) then Some (del_at (nat i) xs) else None)"
| "spec_smartlist (Insert i x) xs =
     (if 0 \<le> i \<and> i \<le> int (length xs) \<and> length xs < MAX_CAPACITY
      then Some (take (nat i) xs @ x # drop (nat i) xs) else None)"
| "spec_smartlist Reverse xs = Some (rev xs)"
| "spec_smartlist (Intersect s2) xs = Some (swap_remove (\<lambda>y. y \<notin> set (elems s2)) xs)"

fun op_ok :: "'a smartlist_op \<Rightarrow> bool" where
  "op_ok (Add_all s2) = wf_smartlist s2"
| "op_ok (Intersect s2) = wf_smartlist s2"
| "op_ok _ = True"

lemma smartlist_grow_abort: "MAX_CAPACITY < n \<Longrightarrow> smartlist_grow sl n = None"
  by (simp add: smartlist_grow_def ensure_capacity_abort)

lemma smartlist_add_all_abort: "MAX_CAPACITY < num_used s1 + num_used s2 \<Longrightarrow> smartlist_add_all s1 s2 = None"
  by (simp add: smartlist_add_all_def ensure_capacity_abort)

lemma smartlist_insert_abort:
  "wf_smartlist sl \<Longrightarrow> \<not> (0 \<le> i \<and> i \<le> int (num_used sl) \<and> num_used sl < MAX_CAPACITY) \<Longrightarrow> smartlist_insert sl i v = None"
  by (drule wf_smartlistD(5)) (auto simp: smartlist_insert_def smartlist_add_abort ensure_capacity_abort not_less)

lemma exec_smartlist_refines:
  assumes wf: "wf_smartlist sl" and ok: "op_ok op"
  shows "map_option elems (exec_smartlist op sl) = spec_smartlist op (elems sl) \<and>
    (\<forall>sl'. exec_smartlist op sl = Some sl' \<longrightarrow> wf_smartlist sl')"
proof (cases op)
  case (Grow n)
  then show ?thesis using smartlist_grow_ok [OF wf, of n] smartlist_grow_abort [of n sl] wf by force
next
  case (Add x)
  then show ?thesis using smartlist_add_ok [OF wf, of x] smartlist_add_abort [of sl x] wf wf_smartlistD(5) [OF wf]
    by (cases "num_used sl < MAX_CAPACITY") auto
next
  case (Add_all s2)
  then show ?thesis using smartlist_add_all_ok [OF wf, of s2] smartlist_add_all_abort [of sl s2] wf ok
    by (cases "num_used sl + num_used s2 \<le> MAX_CAPACITY") auto
next
  case (Del i)
  then show ?thesis using smartlist_del_ok [OF wf, of i] wf
    by (cases "0 \<le> i \<and> i < int (num_used sl)") (auto simp: smartlist_del_def [of sl i])
next
  case (Del_keeporder i)
  then show ?thesis using smartlist_del_keeporder_ok [OF wf, of i] wf
    by (cases "0 \<le> i \<and> i < int (num_used sl)") (auto simp: smartlist_del_keeporder_def [of sl i])
next
  case (Insert i x)
  then show ?thesis using smartlist_insert_ok [OF wf, of i x] smartlist_insert_abort [OF wf, of i x] wf
    by (cases "0 \<le> i \<and> i \<le> int (num_used sl) \<and> num_used sl < MAX_CAPACITY") auto
next
  case Pop_last
  then show ?thesis using smartlist_pop_last_spec [OF wf] by auto
qed (use wf in \<open>simp_all add: elems_clear smartlist_clear_wf smartlist_remove_spec
      smartlist_remove_keeporder_spec smartlist_reverse_spec smartlist_intersect_spec\<close>)

interpretation smartlist: refinement wf_smartlist elems op_ok exec_smartlist spec_smartlist
  by unfold_locales (use exec_smartlist_refines in blast)+

text \<open>C14: Every sequence of smartlist operations that starts from a new list does to it what the
  corresponding functions on lists do: it aborts exactly when an index is out of range or the length would pass the
  limit, the growing loop always ends, and otherwise the array stays well formed (capacity within
  an \<open>int\<close>, unused entries NULL) and its used part is the specified list.\<close>

theorem smartlist_refines_list:
  assumes "list_all op_ok ops"
  shows "map_option elems (run exec_smartlist ops smartlist_new) = run spec_smartlist ops [] \<and>
    (\<forall>sl. run exec_smartlist ops smartlist_new = Some sl \<longrightarrow> wf_smartlist sl)"
  using smartlist.run_spec [OF smartlist_new_wf assms] smartlist.run_inv [OF smartlist_new_wf assms]
  by (auto simp: elems_new)

theorem smartlist_refines_list_witness:
  "map_option elems (run exec_smartlist [Add (Some 1), Add (Some 2), Insert 1 (Some (3::nat)), Grow 4,
       Remove (Some 1), Del_keeporder 1, Reverse] smartlist_new) = Some [Some 2, None] \<and>
   run exec_smartlist [Add (Some (1::nat)), Del 1] smartlist_new = None"
  using smartlist_refines_list [of "[Add (Some 1), Add (Some 2), Insert 1 (Some (3::nat)), Grow 4,
       Remove (Some 1), Del_keeporder 1, Reverse]"] smartlist_refines_list [of "[Add (Some (1::nat)), Del 1]"]
  by (simp add: MAX_CAPACITY_def INT_MAX_def del_at_def)

end
