(* ===== verification/Consdiff.thy ===== *)
theory Consdiff
  imports C_String List_Prelude Smartlist
begin

text \<open>
  Consensus diffs (tor/feature/consdiff.c): generating an ed-style diff between two consensus
  documents and applying one. A line (\<open>cdline_t\<close>) is its characters; a smartlist is a list, a bit
  array a list of booleans. NULL lines and error returns are \<open>None\<close>. The navigation indexes that start
  at -1 are integers; the indexes of the loop that writes the commands run downwards to -1 and are
  kept as natural numbers one higher, so that \<open>n\<close> stands for the C index \<open>n - 1\<close>.
  The digest functions are outside the file and are arguments.
\<close>

section \<open>Lines and slices\<close>

type_synonym cdline = string

definition NOT_VALID_BASE64 :: byte where
  "NOT_VALID_BASE64 = 255"

record slice =
  sl_list :: "cdline list"
  sl_offset :: nat
  sl_len :: nat

definition line_starts_with_str :: "cdline \<Rightarrow> string \<Rightarrow> bool" where
  "line_starts_with_str a b \<longleftrightarrow> length a \<ge> length b \<and> take (length b) a = b"

text \<open>The end is given; the value -1 for the end of the list is not used inside the file.\<close>

definition smartlist_slice :: "cdline list \<Rightarrow> nat \<Rightarrow> nat \<Rightarrow> slice" where
  "smartlist_slice sl start stop = \<lparr>sl_list = sl, sl_offset = start, sl_len = stop - start\<rparr>"

text \<open>The line at step \<open>i\<close> when a slice is walked forwards or backwards.\<close>

definition walk :: "slice \<Rightarrow> int \<Rightarrow> nat \<Rightarrow> cdline" where
  "walk s direction i =
     sl_list s ! (if direction = - 1 then sl_offset s + (sl_len s - 1) - i else sl_offset s + i)"

definition lcs_row :: "cdline \<Rightarrow> slice \<Rightarrow> int \<Rightarrow> nat list \<Rightarrow> nat list" where
  "lcs_row line1 slice_2 direction prev =
     fold (\<lambda>j result.
       result[j + 1 := (if line1 = walk slice_2 direction j then prev ! j + 1
                        else max (result ! j) (prev ! (j + 1)))]) [0..<sl_len slice_2] prev"

definition lcs_lengths :: "slice \<Rightarrow> slice \<Rightarrow> int \<Rightarrow> nat list" where
  "lcs_lengths slice_1 slice_2 direction =
     fold (\<lambda>i result. lcs_row (walk slice_1 direction i) slice_2 direction result)
       [0..<sl_len slice_1] (replicate (sl_len slice_2 + 1) 0)"

function trim_start :: "slice \<Rightarrow> slice \<Rightarrow> slice \<times> slice" where
  "trim_start slice_1 slice_2 =
     (if sl_len slice_1 > 0 \<and> sl_len slice_2 > 0 \<and>
         sl_list slice_1 ! sl_offset slice_1 = sl_list slice_2 ! sl_offset slice_2
      then trim_start
        (slice_1\<lparr>sl_offset := sl_offset slice_1 + 1, sl_len := sl_len slice_1 - 1\<rparr>)
        (slice_2\<lparr>sl_offset := sl_offset slice_2 + 1, sl_len := sl_len slice_2 - 1\<rparr>)
      else (slice_1, slice_2))"
  by pat_completeness auto
termination by (relation "measure (\<lambda>(s1, s2). sl_len s1)") auto

function trim_stop :: "slice \<Rightarrow> slice \<Rightarrow> slice \<times> slice" where
  "trim_stop slice_1 slice_2 =
     (if sl_len slice_1 > 0 \<and> sl_len slice_2 > 0 \<and>
         sl_list slice_1 ! (sl_offset slice_1 + sl_len slice_1 - 1) =
         sl_list slice_2 ! (sl_offset slice_2 + sl_len slice_2 - 1)
      then trim_stop (slice_1\<lparr>sl_len := sl_len slice_1 - 1\<rparr>) (slice_2\<lparr>sl_len := sl_len slice_2 - 1\<rparr>)
      else (slice_1, slice_2))"
  by pat_completeness auto
termination by (relation "measure (\<lambda>(s1, s2). sl_len s1)") auto

declare trim_start.simps [simp del] trim_stop.simps [simp del]

definition trim_slices :: "slice \<Rightarrow> slice \<Rightarrow> slice \<times> slice" where
  "trim_slices slice_1 slice_2 = (case trim_start slice_1 slice_2 of (s1, s2) \<Rightarrow> trim_stop s1 s2)"

definition smartlist_slice_string_pos :: "slice \<Rightarrow> cdline \<Rightarrow> nat option" where
  "smartlist_slice_string_pos s str =
     find (\<lambda>i. sl_list s ! i = str) [sl_offset s..<sl_offset s + sl_len s]"

definition set_changed :: "bool list \<Rightarrow> bool list \<Rightarrow> slice \<Rightarrow> slice \<Rightarrow> bool list \<times> bool list" where
  "set_changed changed1 changed2 slice_1 slice_2 =
     (let toskip = (if sl_len slice_1 = 1
                    then smartlist_slice_string_pos slice_2 (sl_list slice_1 ! sl_offset slice_1) else None);
          changed1 = (if sl_len slice_1 = 1 \<and> toskip = None then changed1[sl_offset slice_1 := True] else changed1);
          changed2 = fold (\<lambda>i ch. if Some i \<noteq> toskip then ch[i := True] else ch)
                       [sl_offset slice_2..<sl_offset slice_2 + sl_len slice_2] changed2
      in (changed1, changed2))"

definition optimal_column_to_split :: "slice \<Rightarrow> slice \<Rightarrow> slice \<Rightarrow> nat" where
  "optimal_column_to_split top_sl bot_sl slice_2 =
     (let lens_top = lcs_lengths top_sl slice_2 1;
          lens_bot = lcs_lengths bot_sl slice_2 (- 1)
      in fst (fold (\<lambda>i (column, max_sum).
                let s = int (lens_top ! i + lens_bot ! (sl_len slice_2 - i))
                in if s > max_sum then (i, s) else (column, max_sum))
              [0..<sl_len slice_2 + 1] (0, - 1)))"

lemma trim_start_len: "trim_start s1 s2 = (t1, t2) \<Longrightarrow> sl_len t1 \<le> sl_len s1"
  by (induction s1 s2 arbitrary: t1 t2 rule: trim_start.induct)
    (subst (asm) (2) trim_start.simps, fastforce split: if_splits)

lemma trim_stop_len: "trim_stop s1 s2 = (t1, t2) \<Longrightarrow> sl_len t1 \<le> sl_len s1"
  by (induction s1 s2 arbitrary: t1 t2 rule: trim_stop.induct)
    (subst (asm) (2) trim_stop.simps, fastforce split: if_splits)

lemma trim_slices_len: "trim_slices s1 s2 = (t1, t2) \<Longrightarrow> sl_len t1 \<le> sl_len s1"
  by (auto simp: trim_slices_def split: prod.splits dest!: trim_start_len trim_stop_len)

function calc_changes :: "slice \<Rightarrow> slice \<Rightarrow> bool list \<Rightarrow> bool list \<Rightarrow> bool list \<times> bool list" where
  "calc_changes slice_1_in slice_2_in changed1 changed2 =
     (case trim_slices slice_1_in slice_2_in of (slice_1, slice_2) \<Rightarrow>
        if sl_len slice_1 \<le> 1 then set_changed changed1 changed2 slice_1 slice_2
        else if sl_len slice_2 \<le> 1 then
          (case set_changed changed2 changed1 slice_2 slice_1 of (changed2, changed1) \<Rightarrow> (changed1, changed2))
        else
          let mid = sl_len slice_1 div 2;
              top_sl = smartlist_slice (sl_list slice_1) (sl_offset slice_1) (sl_offset slice_1 + mid);
              bot_sl = smartlist_slice (sl_list slice_1) (sl_offset slice_1 + mid) (sl_offset slice_1 + sl_len slice_1);
              mid2 = optimal_column_to_split top_sl bot_sl slice_2;
              left_sl = smartlist_slice (sl_list slice_2) (sl_offset slice_2) (sl_offset slice_2 + mid2);
              right_sl = smartlist_slice (sl_list slice_2) (sl_offset slice_2 + mid2) (sl_offset slice_2 + sl_len slice_2)
          in case calc_changes top_sl left_sl changed1 changed2 of
               (changed1, changed2) \<Rightarrow> calc_changes bot_sl right_sl changed1 changed2)"
  by pat_completeness auto

termination
  by (relation "measure (\<lambda>(s1, s2, c1, c2). sl_len s1)")
    (auto simp: smartlist_slice_def dest!: trim_slices_len [OF sym])

declare calc_changes.simps [simp del]

section \<open>Router entries\<close>

definition base64_compare_table :: "byte list" where
  "base64_compare_table =
    [255, 255, 255, 255, 255, 255, 255, 255, 255, 255, 255, 255, 255, 255, 255, 255,
     255, 255, 255, 255, 255, 255, 255, 255, 255, 255, 255, 255, 255, 255, 255, 255,
     255, 255, 255, 255, 255, 255, 255, 255, 255, 255, 255, 62, 255, 255, 255, 63,
     52, 53, 54, 55, 56, 57, 58, 59, 60, 61, 255, 255, 255, 255, 255, 255,
     255, 0, 1, 2, 3, 4, 5, 6, 7, 8, 9, 10, 11, 12, 13, 14,
     15, 16, 17, 18, 19, 20, 21, 22, 23, 24, 25, 255, 255, 255, 255, 255,
     255, 26, 27, 28, 29, 30, 31, 32, 33, 34, 35, 36, 37, 38, 39, 40,
     41, 42, 43, 44, 45, 46, 47, 48, 49, 50, 51, 255, 255, 255, 255, 255,
     255, 255, 255, 255, 255, 255, 255, 255, 255, 255, 255, 255, 255, 255, 255, 255,
     255, 255, 255, 255, 255, 255, 255, 255, 255, 255, 255, 255, 255, 255, 255, 255,
     255, 255, 255, 255, 255, 255, 255, 255, 255, 255, 255, 255, 255, 255, 255, 255,
     255, 255, 255, 255, 255, 255, 255, 255, 255, 255, 255, 255, 255, 255, 255, 255,
     255, 255, 255, 255, 255, 255, 255, 255, 255, 255, 255, 255, 255, 255, 255, 255,
     255, 255, 255, 255, 255, 255, 255, 255, 255, 255, 255, 255, 255, 255, 255, 255,
     255, 255, 255, 255, 255, 255, 255, 255, 255, 255, 255, 255, 255, 255, 255, 255,
     255, 255, 255, 255, 255, 255, 255, 255, 255, 255, 255, 255, 255, 255, 255, 255]"

definition base64_value :: "char \<Rightarrow> byte" where
  "base64_value c = base64_compare_table ! (of_char c)"

definition get_id_hash :: "cdline \<Rightarrow> cdline option" where
  "get_id_hash line =
     (if length line < 2 then None
      else case memchr (drop 2 line) CHR '' '' (length line - 2) of
             None \<Rightarrow> None
           | Some k \<Rightarrow>
               let hash = drop (2 + k + 1) line;
                   id_hash = takeWhile (\<lambda>c. base64_value c \<noteq> NOT_VALID_BASE64) hash
               in if id_hash = [] then None else Some id_hash)"

definition is_valid_router_entry :: "cdline \<Rightarrow> bool" where
  "is_valid_router_entry line \<longleftrightarrow> \<not> (length line < 2 \<or> take 2 line \<noteq> ''r '') \<and> get_id_hash line \<noteq> None"

function next_router_from :: "cdline list \<Rightarrow> nat \<Rightarrow> nat" where
  "next_router_from cons cur =
     (if cur \<ge> length cons then length cons
      else if is_valid_router_entry (cons ! cur) then cur
      else next_router_from cons (cur + 1))"
  by pat_completeness auto
termination by (relation "measure (\<lambda>(cons, cur). length cons - cur)") auto

declare next_router_from.simps [simp del]

definition next_router :: "cdline list \<Rightarrow> int \<Rightarrow> int" where
  "next_router cons cur = int (next_router_from cons (nat (cur + 1)))"

text \<open>
  Past the end of a hash the C code would read the next character of the document, which is not a
  base64 character, or a newline.
\<close>

definition base64_at :: "string \<Rightarrow> byte" where
  "base64_at s = (case s of [] \<Rightarrow> NOT_VALID_BASE64 | c # _ \<Rightarrow> base64_value c)"

function base64cmp_loop :: "string \<Rightarrow> string \<Rightarrow> int" where
  "base64cmp_loop a b =
     (let av = base64_at a; bv = base64_at b in
      if av = NOT_VALID_BASE64 then (if bv = NOT_VALID_BASE64 then 0 else - 1)
      else if bv = NOT_VALID_BASE64 then 1
      else if av < bv then - 1
      else if av > bv then 1
      else if tl a = [] then (if tl b = [] then 0 else - 1)
      else if tl b = [] then 1
      else base64cmp_loop (tl a) (tl b))"
  by pat_completeness auto
termination
  by (relation "measure (\<lambda>(a, b). length a)", simp) (case_tac a, auto)

declare base64cmp_loop.simps [simp del]

definition base64cmp :: "cdline option \<Rightarrow> cdline option \<Rightarrow> int" where
  "base64cmp hash1 hash2 =
     (case (hash1, hash2) of
        (None, None) \<Rightarrow> 0
      | (None, Some b) \<Rightarrow> - 1
      | (Some a, None) \<Rightarrow> 1
      | (Some a, Some b) \<Rightarrow> base64cmp_loop a b)"

record router_id_iterator =
  last_hash :: "cdline option"
  hash :: "cdline option"

definition find_next_router_line ::
    "cdline list \<Rightarrow> int \<Rightarrow> router_id_iterator \<Rightarrow> (int \<times> router_id_iterator) option" where
  "find_next_router_line cons idx iter =
     (let idx = next_router cons idx in
      if idx < int (length cons) then
        let iter = iter\<lparr>last_hash := hash iter\<rparr> in
        case get_id_hash (cons ! nat idx) of
          None \<Rightarrow> None
        | Some h \<Rightarrow>
            let iter = iter\<lparr>hash := Some h\<rparr> in
            if base64cmp (hash iter) (last_hash iter) \<le> 0 then None else Some (idx, iter)
      else Some (idx, iter))"

section \<open>Generating the diff\<close>

definition START_OF_SIGNATURES_SECTION :: string where
  "START_OF_SIGNATURES_SECTION = ''directory-signature ''"

function del_from :: "'a list \<Rightarrow> nat \<Rightarrow> 'a list" where
  "del_from cons idx = (if length cons > idx then del_from (del_swap idx cons) idx else cons)"
  by pat_completeness auto
termination by (relation "measure (\<lambda>(cons, idx). length cons)") (auto simp: del_swap_def)

declare del_from.simps [simp del]

definition preprocess_consensus :: "cdline list \<Rightarrow> cdline list \<times> cdline option" where
  "preprocess_consensus cons =
     (case find (\<lambda>idx. line_starts_with_str (cons ! idx) START_OF_SIGNATURES_SECTION) [0..<length cons] of
        Some dirsig_idx \<Rightarrow> (del_from cons dirsig_idx, Some (show_nat (dirsig_idx + 1) @ '',$d''))
      | None \<Rightarrow> (cons, None))"

lemma next_router_from_ge: "cur \<le> length cons \<Longrightarrow> cur \<le> next_router_from cons cur"
  by (induction cons cur rule: next_router_from.induct) (subst next_router_from.simps, auto dest: Suc_leD)

lemma next_router_from_le: "next_router_from cons cur \<le> length cons"
  by (induction cons cur rule: next_router_from.induct) (subst next_router_from.simps, auto)

lemma next_router_bounds:
  assumes "cur < int (length cons)"
  shows "cur < next_router cons cur" and "next_router cons cur \<le> int (length cons)"
proof -
  show "next_router cons cur \<le> int (length cons)" by (simp add: next_router_def next_router_from_le)
  show "cur < next_router cons cur"
  proof (cases "nat (cur + 1) < length cons")
    case True
    then show ?thesis using next_router_from_ge [OF less_imp_le [OF True]] by (simp add: next_router_def)
  next
    case False
    then show ?thesis using assms by (simp add: next_router_def next_router_from.simps)
  qed
qed

lemma find_next_router_line_idx: "find_next_router_line cons idx iter = Some (idx', iter') \<Longrightarrow> idx' = next_router cons idx"
  by (auto simp: find_next_router_line_def Let_def split: if_splits option.splits)

lemma find_next_advances:
  "idx < int (length cons) \<Longrightarrow> find_next_router_line cons idx iter = Some (idx', iter') \<Longrightarrow>
   idx < idx' \<and> idx' \<le> int (length cons)"
  using next_router_bounds [of idx cons] by (auto dest: find_next_router_line_idx)

text \<open>The inner loop, which advances the lower of the two positions until the hashes agree.\<close>

function align ::
    "cdline list \<Rightarrow> cdline list \<Rightarrow> int \<Rightarrow> int \<Rightarrow> router_id_iterator \<Rightarrow> router_id_iterator \<Rightarrow>
     (int \<times> int \<times> router_id_iterator \<times> router_id_iterator) option" where
  "align cons1 cons2 i1 i2 iter1 iter2 =
     (let len1 = int (length cons1); len2 = int (length cons2);
          cmp = base64cmp (hash iter1) (hash iter2) in
      if cmp = 0 then Some (i1, i2, iter1, iter2)
      else if i1 < len1 \<and> cmp < 0 then
        (case find_next_router_line cons1 i1 iter1 of
           None \<Rightarrow> None
         | Some (i1', iter1') \<Rightarrow>
             if i1' = len1 then Some (i1', len2, iter1', iter2) else align cons1 cons2 i1' i2 iter1' iter2)
      else if i2 < len2 \<and> cmp > 0 then
        (case find_next_router_line cons2 i2 iter2 of
           None \<Rightarrow> None
         | Some (i2', iter2') \<Rightarrow>
             if i2' = len2 then Some (len1, i2', iter1, iter2') else align cons1 cons2 i1 i2' iter1 iter2')
      else Some (len1, len2, iter1, iter2))"
  by pat_completeness auto
termination
  by (relation "measure (\<lambda>(c1, c2, i1, i2, t1, t2). nat (int (length c1) - i1) + nat (int (length c2) - i2))")
    (auto dest!: find_next_advances)

declare align.simps [simp del]

definition moved_on :: "int \<Rightarrow> int \<Rightarrow> int \<Rightarrow> bool" where
  "moved_on i j n \<longleftrightarrow> j = i \<or> (i < j \<and> j \<le> n) \<or> j = n"

lemma align_bounds:
  "align cons1 cons2 i1 i2 t1 t2 = Some (j1, j2, u1, u2) \<Longrightarrow>
   moved_on i1 j1 (int (length cons1)) \<and> moved_on i2 j2 (int (length cons2))"
proof (induction cons1 cons2 i1 i2 t1 t2 arbitrary: j1 j2 u1 u2 rule: align.induct)
  case (1 cons1 cons2 i1 i2 t1 t2)
  let ?cmp = "base64cmp (hash t1) (hash t2)"
  consider "?cmp = 0" | "?cmp \<noteq> 0" "i1 < int (length cons1)" "?cmp < 0"
    | "?cmp \<noteq> 0" "\<not> (i1 < int (length cons1) \<and> ?cmp < 0)" "i2 < int (length cons2)" "?cmp > 0"
    | "?cmp \<noteq> 0" "\<not> (i1 < int (length cons1) \<and> ?cmp < 0)" "\<not> (i2 < int (length cons2) \<and> ?cmp > 0)" by blast
  then show ?case
  proof cases
    case 1
    with "1.prems" show ?thesis by (subst (asm) align.simps) (simp add: Let_def moved_on_def)
  next
    case 2
    with "1.prems" obtain i u where f: "find_next_router_line cons1 i1 t1 = Some (i, u)"
      and r: "(if i = int (length cons1) then Some (i, int (length cons2), u, t2) else align cons1 cons2 i i2 u t2) = Some (j1, j2, u1, u2)"
      by (subst (asm) align.simps) (auto simp: Let_def split: option.splits)
    note adv = find_next_advances [OF 2(2) f]
    show ?thesis
    proof (cases "i = int (length cons1)")
      case True
      with r adv "1.prems" show ?thesis by (simp add: moved_on_def)
    next
      case False
      with r have a: "align cons1 cons2 i i2 u t2 = Some (j1, j2, u1, u2)" by simp
      have "moved_on i j1 (int (length cons1)) \<and> moved_on i2 j2 (int (length cons2))"
        using "1.IH"(1) [OF refl refl refl _ _ f refl False a] 2 adv "1.prems" by simp
      with adv show ?thesis by (auto simp: moved_on_def)
    qed
  next
    case 3
    with "1.prems" obtain i u where f: "find_next_router_line cons2 i2 t2 = Some (i, u)"
      and r: "(if i = int (length cons2) then Some (int (length cons1), i, t1, u) else align cons1 cons2 i1 i t1 u) = Some (j1, j2, u1, u2)"
      by (subst (asm) align.simps) (auto simp: Let_def split: option.splits)
    note adv = find_next_advances [OF 3(3) f]
    show ?thesis
    proof (cases "i = int (length cons2)")
      case True
      with r adv "1.prems" show ?thesis by (simp add: moved_on_def)
    next
      case False
      with r have a: "align cons1 cons2 i1 i t1 u = Some (j1, j2, u1, u2)" by simp
      have "moved_on i1 j1 (int (length cons1)) \<and> moved_on i j2 (int (length cons2))"
        using "1.IH"(2) [OF refl refl refl _ _ _ f refl False a] 3 adv "1.prems" by simp
      with adv show ?thesis by (auto simp: moved_on_def)
    qed
  next
    case 4
    with "1.prems" show ?thesis by (subst (asm) align.simps) (auto simp: Let_def moved_on_def)
  qed
qed

definition MAX_LINE_COUNT :: int where
  "MAX_LINE_COUNT = 10000"

text \<open>One turn of the outer loop, up to where it makes the slices.\<close>

definition advance ::
    "cdline list \<Rightarrow> cdline list \<Rightarrow> int \<Rightarrow> int \<Rightarrow> router_id_iterator \<Rightarrow> router_id_iterator \<Rightarrow>
     (int \<times> int \<times> router_id_iterator \<times> router_id_iterator) option" where
  "advance cons1 cons2 i1 i2 iter1 iter2 =
     (let len1 = int (length cons1); len2 = int (length cons2) in
      case (if i1 < len1 then find_next_router_line cons1 i1 iter1 else Some (i1, iter1)) of
        None \<Rightarrow> None
      | Some (i1, iter1) \<Rightarrow>
          (case (if i2 < len2 then find_next_router_line cons2 i2 iter2 else Some (i2, iter2)) of
             None \<Rightarrow> None
           | Some (i2, iter2) \<Rightarrow>
               if i1 < len1 \<or> i2 < len2 then align cons1 cons2 i1 i2 iter1 iter2
               else Some (i1, i2, iter1, iter2)))"

lemma advance_first:
  "(if i < int (length cons) then find_next_router_line cons i it else Some (i, it)) = Some (j, jt) \<Longrightarrow>
   moved_on i j (int (length cons)) \<and> (i < int (length cons) \<longrightarrow> i < j)"
  using find_next_advances [of i cons it j jt] by (auto simp: moved_on_def split: if_splits)

lemma advance_bounds:
  assumes "advance cons1 cons2 i1 i2 t1 t2 = Some (j1, j2, u1, u2)"
  shows "moved_on i1 j1 (int (length cons1)) \<and> moved_on i2 j2 (int (length cons2)) \<and>
    (i1 < int (length cons1) \<longrightarrow> i1 < j1) \<and> (i2 < int (length cons2) \<longrightarrow> i2 < j2)"
proof -
  obtain k1 v1 k2 v2 where
    1: "(if i1 < int (length cons1) then find_next_router_line cons1 i1 t1 else Some (i1, t1)) = Some (k1, v1)" and
    2: "(if i2 < int (length cons2) then find_next_router_line cons2 i2 t2 else Some (i2, t2)) = Some (k2, v2)" and
    3: "(if k1 < int (length cons1) \<or> k2 < int (length cons2) then align cons1 cons2 k1 k2 v1 v2
         else Some (k1, k2, v1, v2)) = Some (j1, j2, u1, u2)"
    using assms by (auto simp: advance_def Let_def split: option.splits)
  have "moved_on k1 j1 (int (length cons1)) \<and> moved_on k2 j2 (int (length cons2))"
    using 3 align_bounds [of cons1 cons2 k1 k2 v1 v2 j1 j2 u1 u2] by (auto simp: moved_on_def split: if_splits)
  with advance_first [OF 1] advance_first [OF 2] show ?thesis by (auto simp: moved_on_def)
qed

function gen_changes ::
    "cdline list \<Rightarrow> cdline list \<Rightarrow> int \<Rightarrow> int \<Rightarrow> int \<Rightarrow> int \<Rightarrow> router_id_iterator \<Rightarrow> router_id_iterator \<Rightarrow>
     bool list \<Rightarrow> bool list \<Rightarrow> (bool list \<times> bool list) option" where
  "gen_changes cons1 cons2 i1 i2 start1 start2 iter1 iter2 changed1 changed2 =
     (if i1 < int (length cons1) \<or> i2 < int (length cons2) then
        case advance cons1 cons2 i1 i2 iter1 iter2 of
          None \<Rightarrow> None
        | Some (i1', i2', iter1', iter2') \<Rightarrow>
            if i1' - start1 > MAX_LINE_COUNT \<or> i2' - start2 > MAX_LINE_COUNT then None
            else
              let cons1_sl = smartlist_slice cons1 (nat start1) (nat i1');
                  cons2_sl = smartlist_slice cons2 (nat start2) (nat i2')
              in case calc_changes cons1_sl cons2_sl changed1 changed2 of
                   (changed1', changed2') \<Rightarrow>
                     gen_changes cons1 cons2 i1' i2' i1' i2' iter1' iter2' changed1' changed2'
      else Some (changed1, changed2))"
  by pat_completeness auto
termination
  by (relation "measure (\<lambda>(c1, c2, i1, i2, _). nat (int (length c1) - i1) + nat (int (length c2) - i2))", simp)
    (auto dest!: advance_bounds simp: moved_on_def)

declare gen_changes.simps [simp del]

fun skip_changed :: "bool list \<Rightarrow> nat \<Rightarrow> nat" where
  "skip_changed changed 0 = 0"
| "skip_changed changed (Suc n) = (if changed ! n then skip_changed changed n else Suc n)"

lemma skip_changed_le: "skip_changed changed n \<le> n"
  by (induction n) auto

lemma skip_changed_less: "0 < n \<Longrightarrow> changed ! (n - 1) \<Longrightarrow> skip_changed changed n < n"
  using skip_changed_le [of changed "n - 1"] by (cases n) auto

text \<open>The loop that writes the commands; \<open>n1\<close> and \<open>n2\<close> are \<open>i1 + 1\<close> and \<open>i2 + 1\<close>.\<close>

function gen_commands ::
    "cdline list \<Rightarrow> bool list \<Rightarrow> bool list \<Rightarrow> nat \<Rightarrow> nat \<Rightarrow> cdline list \<Rightarrow> cdline list option" where
  "gen_commands cons2 changed1 changed2 n1 n2 result =
     (if n1 = 0 \<and> n2 = 0 then Some result
      else if \<not> (n1 > 0 \<and> changed1 ! (n1 - 1)) \<and> \<not> (n2 > 0 \<and> changed2 ! (n2 - 1)) then
        gen_commands cons2 changed1 changed2 (n1 - 1) (n2 - 1) result
      else
        let start1x = skip_changed changed1 n1;
            start2x = skip_changed changed2 n2;
            added = n2 - start2x;
            deleted = n1 - start1x
        in if added = 0 then
             gen_commands cons2 changed1 changed2 start1x start2x
               (result @ [if deleted = 1 then show_nat (start1x + 1) @ ''d''
                          else show_nat (start1x + 1) @ '','' @ show_nat (start1x + deleted) @ ''d''])
           else
             let command = (if deleted = 0 then show_nat start1x @ ''a''
                            else if deleted = 1 then show_nat (start1x + 1) @ ''c''
                            else show_nat (start1x + 1) @ '','' @ show_nat (start1x + deleted) @ ''c'');
                 lines = drop start2x (take n2 cons2)
             in if ''.'' \<in> set lines then None
                else gen_commands cons2 changed1 changed2 start1x start2x (result @ [command] @ lines @ [''.'']))"
  by pat_completeness auto

termination
proof (relation "measure (\<lambda>(c2, ch1, ch2, n1, n2, r). n1 + n2)", goal_cases)
  case (2 cons2 changed1 changed2 n1 n2 result)
  then show ?case by auto
next
  case (3 cons2 changed1 changed2 n1 n2 result start1x start2x added deleted)
  then show ?case
    using skip_changed_less [of n1 changed1] skip_changed_less [of n2 changed2]
      skip_changed_le [of changed1 n1] skip_changed_le [of changed2 n2] by fastforce
next
  case (4 cons2 changed1 changed2 n1 n2 result start1x start2x added deleted command lines)
  then show ?case
    using skip_changed_le [of changed1 n1] skip_changed_le [of changed2 n2] by auto
qed simp

declare gen_commands.simps [simp del]

definition ROUTER_ID_ITERATOR_INIT :: router_id_iterator where
  "ROUTER_ID_ITERATOR_INIT = \<lparr>last_hash = None, hash = None\<rparr>"

definition gen_ed_diff :: "cdline list \<Rightarrow> cdline list \<Rightarrow> cdline list option" where
  "gen_ed_diff cons1_orig cons2 =
     (case preprocess_consensus cons1_orig of
        (cons1, remove_trailer) \<Rightarrow>
          let result = (case remove_trailer of Some l \<Rightarrow> [l] | None \<Rightarrow> [])
          in case gen_changes cons1 cons2 (- 1) (- 1) 0 0 ROUTER_ID_ITERATOR_INIT ROUTER_ID_ITERATOR_INIT
                    (replicate (length cons1) False) (replicate (length cons2) False) of
               None \<Rightarrow> None
             | Some (changed1, changed2) \<Rightarrow>
                 gen_commands cons2 changed1 changed2 (length cons1) (length cons2) result)"

section \<open>Applying a diff\<close>

text \<open>The number and the rest of the string after it.\<close>

definition get_linenum :: "string \<Rightarrow> (int \<times> string) option" where
  "get_linenum s =
     (if \<not> TOR_ISDIGIT (char_at s) then None
      else
        let p = tor_parse_long 64 s 10 0 (2 ^ 31 - 1) True
        in if parsed_ok p then Some (parsed_value p, drop (the (parsed_next p)) s) else None)"

record ed_command =
  ed_start :: int
  ed_end :: int
  ed_action :: char

text \<open>
  The head of the loop of \<open>apply_ed_diff\<close>: one command line, for a base of \<open>len1\<close> lines of which those
  after the first \<open>j\<close> are done.
\<close>

definition read_command :: "int \<Rightarrow> int \<Rightarrow> cdline \<Rightarrow> ed_command option" where
  "read_command len1 j diff_cdline =
     (if length diff_cdline > 127 then None
      else
        case get_linenum (c_str diff_cdline) of
          None \<Rightarrow> None
        | Some (start, ptr) \<Rightarrow>
            let had_range = (char_at ptr = CHR '','');
                end_was_eof = (had_range \<and> char_at (drop 1 ptr) = CHR ''$'');
                range_end = (if \<not> had_range then Some (start, ptr)
                             else if end_was_eof then Some (len1, drop 2 ptr)
                             else get_linenum (drop 1 ptr))
            in case range_end of
                 None \<Rightarrow> None
               | Some (stop, ptr) \<Rightarrow>
                   if had_range \<and> stop \<le> start then None
                   else if stop > j then None
                   else if ptr = [] then None
                   else if drop 1 ptr \<noteq> [] then None
                   else
                     let action = char_at ptr
                     in if action \<notin> {CHR ''a'', CHR ''c'', CHR ''d''} then None
                        else if end_was_eof \<and> action \<noteq> CHR ''d'' then None
                        else if had_range \<and> action = CHR ''a'' then None
                        else Some \<lparr>ed_start = start, ed_end = stop, ed_action = action\<rparr>)"

function copy_down :: "cdline list \<Rightarrow> int \<Rightarrow> int \<Rightarrow> cdline list \<Rightarrow> int \<times> cdline list" where
  "copy_down cons1 j stop cons2 =
     (if j \<noteq> 0 \<and> j > stop then copy_down cons1 (j - 1) stop (cons2 @ [cons1 ! nat (j - 1)]) else (j, cons2))"
  by pat_completeness auto
termination by (relation "measure (\<lambda>(cons1, j, stop, cons2). nat (j - stop))") auto

function skip_down :: "int \<Rightarrow> int \<Rightarrow> int" where
  "skip_down j start = (if j - 1 \<ge> start then skip_down (j - 1) start else j - 1)"
  by pat_completeness auto
termination by (relation "measure (\<lambda>(j, start). nat (j - start))") auto

declare copy_down.simps [simp del] skip_down.simps [simp del]

text \<open>The lines up to the one that is a dot, and the lines after it.\<close>

fun split_added :: "cdline list \<Rightarrow> (cdline list \<times> cdline list) option" where
  "split_added [] = Some ([], [])"
| "split_added (l # ls) =
     (if l = ''.'' then Some ([], ls)
      else if ls = [] then None
      else map_option (\<lambda>(added, rest). (l # added, rest)) (split_added ls))"

lemma split_added_length: "split_added ls = Some (added, rest) \<Longrightarrow> length rest \<le> length ls"
  by (induction ls arbitrary: added rest) (auto split: if_splits)

text \<open>The main loop, on the rest of the diff; \<open>cons2\<close> is built backwards, as in the code.\<close>

function apply_loop :: "cdline list \<Rightarrow> cdline list \<Rightarrow> int \<Rightarrow> cdline list \<Rightarrow> cdline list option" where
  "apply_loop cons1 [] j cons2 = Some (snd (copy_down cons1 j 0 cons2))"
| "apply_loop cons1 (line # diff) j cons2 =
     (case read_command (int (length cons1)) j line of
        None \<Rightarrow> None
      | Some cmd \<Rightarrow>
          (case copy_down cons1 j (ed_end cmd) cons2 of
             (j, cons2) \<Rightarrow>
               let j = (if ed_action cmd \<in> {CHR ''c'', CHR ''d''} then skip_down j (ed_start cmd) else j)
               in if ed_action cmd \<in> {CHR ''a'', CHR ''c''} then
                    (case split_added diff of
                       None \<Rightarrow> None
                     | Some (added, rest) \<Rightarrow>
                         if added = [] then None else apply_loop cons1 rest j (cons2 @ rev added))
                  else apply_loop cons1 diff j cons2))"
  by pat_completeness auto
termination
  by (relation "measure (\<lambda>(c1, diff, j, c2). length diff)") (auto dest!: split_added_length)

declare apply_loop.simps [simp del]

definition apply_ed_diff :: "cdline list \<Rightarrow> cdline list \<Rightarrow> nat \<Rightarrow> cdline list option" where
  "apply_ed_diff cons1 diff diff_starting_line =
     map_option rev (apply_loop cons1 (drop diff_starting_line diff) (int (length cons1)) [])"

section \<open>Documents\<close>

definition ns_diff_version :: string where
  "ns_diff_version = ''network-status-diff-version 1''"

definition hash_token :: string where
  "hash_token = ''hash''"

definition DIGEST256_LEN :: nat where
  "DIGEST256_LEN = 32"

definition HEX_DIGEST256_LEN :: nat where
  "HEX_DIGEST256_LEN = 64"

definition CONSENSUS_LINE_MAX_LEN :: nat where
  "CONSENSUS_LINE_MAX_LEN = 2 ^ 20"

definition consdiff_gen_diff ::
    "cdline list \<Rightarrow> cdline list \<Rightarrow> byte list \<Rightarrow> byte list \<Rightarrow> cdline list option" where
  "consdiff_gen_diff cons1 cons2 digests1 digests2 =
     (case gen_ed_diff cons1 cons2 of
        None \<Rightarrow> None
      | Some ed_diff \<Rightarrow>
          (case apply_ed_diff cons1 ed_diff 0 of
             None \<Rightarrow> None
           | Some ed_cons2 \<Rightarrow>
               if cons2 = ed_cons2 then
                 Some ([ns_diff_version,
                        hash_token @ '' '' @ base16_encode digests1 @ '' '' @ base16_encode digests2] @ ed_diff)
               else None))"

definition consdiff_get_digests :: "cdline list \<Rightarrow> (byte list \<times> byte list) option" where
  "consdiff_get_digests diff =
     (if length diff < 2 then None
      else if diff ! 0 \<noteq> ns_diff_version then None
      else
        case smartlist_split_string (c_str (diff ! 1)) (Some '' '') no_flags 4 of
          None \<Rightarrow> None
        | Some hash_words \<Rightarrow>
            if length hash_words \<noteq> 3 \<or> hash_words ! 0 \<noteq> hash_token then None
            else
              let cons1_hash_hex = hash_words ! 1; cons2_hash_hex = hash_words ! 2 in
              if length cons1_hash_hex \<noteq> HEX_DIGEST256_LEN \<or> length cons2_hash_hex \<noteq> HEX_DIGEST256_LEN then None
              else
                case (base16_decode DIGEST256_LEN cons1_hash_hex, base16_decode DIGEST256_LEN cons2_hash_hex) of
                  (Some h1, Some h2) \<Rightarrow>
                    if length h1 = DIGEST256_LEN \<and> length h2 = DIGEST256_LEN then Some (h1, h2) else None
                | _ \<Rightarrow> None)"

definition consensus_join_lines :: "cdline list \<Rightarrow> string" where
  "consensus_join_lines inp = concat (map (\<lambda>l. l @ [CHR 0x0A]) inp)"

text \<open>\<open>digest\<close> is \<open>consensus_compute_digest\<close>, \<open>None\<close> on failure.\<close>

definition consdiff_apply_diff ::
    "(string \<Rightarrow> byte list option) \<Rightarrow> cdline list \<Rightarrow> cdline list \<Rightarrow> byte list \<Rightarrow> string option" where
  "consdiff_apply_diff digest cons1 diff digests1 =
     (case consdiff_get_digests diff of
        None \<Rightarrow> None
      | Some (e_cons1_hash, e_cons2_hash) \<Rightarrow>
          if digests1 \<noteq> e_cons1_hash then None
          else
            case apply_ed_diff cons1 diff 2 of
              None \<Rightarrow> None
            | Some cons2 \<Rightarrow>
                let cons2_str = c_str (consensus_join_lines cons2) in
                case digest cons2_str of
                  None \<Rightarrow> None
                | Some cons2_digest \<Rightarrow> if cons2_digest \<noteq> e_cons2_hash then None else Some cons2_str)"

function consensus_split_lines :: "string \<Rightarrow> cdline list option" where
  "consensus_split_lines s =
     (if s = [] then Some []
      else
        case memchr s CHR 0x0A (length s) of
          None \<Rightarrow> None
        | Some eol \<Rightarrow>
            if eol > CONSENSUS_LINE_MAX_LEN then None
            else map_option (\<lambda>out. take eol s # out) (consensus_split_lines (drop (eol + 1) s)))"
  by pat_completeness auto
termination by (relation "measure length") auto

declare consensus_split_lines.simps [simp del]

text \<open>\<open>digest_as_signed\<close> is \<open>consensus_compute_digest_as_signed\<close>.\<close>

definition consensus_diff_generate ::
    "(string \<Rightarrow> byte list option) \<Rightarrow> (string \<Rightarrow> byte list option) \<Rightarrow> string \<Rightarrow> string \<Rightarrow> string option" where
  "consensus_diff_generate digest_as_signed digest cons1 cons2 =
     (case (digest_as_signed cons1, digest cons2) of
        (Some d1, Some d2) \<Rightarrow>
          (case consensus_split_lines cons1 of
             None \<Rightarrow> None
           | Some lines1 \<Rightarrow>
               (case consensus_split_lines cons2 of
                  None \<Rightarrow> None
                | Some lines2 \<Rightarrow> map_option consensus_join_lines (consdiff_gen_diff lines1 lines2 d1 d2)))
      | _ \<Rightarrow> None)"

definition consensus_diff_apply ::
    "(string \<Rightarrow> byte list option) \<Rightarrow> (string \<Rightarrow> byte list option) \<Rightarrow> string \<Rightarrow> string \<Rightarrow> string option" where
  "consensus_diff_apply digest_as_signed digest consensus diff =
     (case digest_as_signed consensus of
        None \<Rightarrow> None
      | Some d1 \<Rightarrow>
          (case consensus_split_lines consensus of
             None \<Rightarrow> None
           | Some lines1 \<Rightarrow>
               (case consensus_split_lines diff of
                  None \<Rightarrow> None
                | Some lines2 \<Rightarrow> consdiff_apply_diff digest lines1 lines2 d1)))"

definition looks_like_a_consensus_diff :: "string \<Rightarrow> bool" where
  "looks_like_a_consensus_diff document \<longleftrightarrow>
     length document \<ge> length ns_diff_version \<and> take (length ns_diff_version) document = ns_diff_version"

section \<open>The lines that stay\<close>

definition kept :: "bool list \<Rightarrow> cdline list \<Rightarrow> nat \<Rightarrow> nat \<Rightarrow> cdline list" where
  "kept ch xs a b = map ((!) xs) (filter (\<lambda>i. \<not> ch ! i) [a..<b])"

definition frame :: "bool list \<Rightarrow> bool list \<Rightarrow> nat \<Rightarrow> nat \<Rightarrow> bool" where
  "frame ch ch' a b \<longleftrightarrow> length ch' = length ch \<and> (\<forall>i. \<not> (a \<le> i \<and> i < b) \<longrightarrow> ch' ! i = ch ! i)"

definition fresh :: "bool list \<Rightarrow> nat \<Rightarrow> nat \<Rightarrow> bool" where
  "fresh ch a b \<longleftrightarrow> b \<le> length ch \<and> (\<forall>i. a \<le> i \<and> i < b \<longrightarrow> \<not> ch ! i)"

lemma kept_append: "a \<le> b \<Longrightarrow> b \<le> c \<Longrightarrow> kept ch xs a c = kept ch xs a b @ kept ch xs b c"
  using upt_add_eq_append [of a b "c - b"] by (simp add: kept_def)

lemma kept_cong: "(\<And>i. a \<le> i \<Longrightarrow> i < b \<Longrightarrow> ch ! i = ch' ! i) \<Longrightarrow> kept ch xs a b = kept ch' xs a b"
  unfolding kept_def by (intro arg_cong [where f = "map ((!) xs)"] filter_cong) auto

lemma kept_frame: "frame ch ch' a b \<Longrightarrow> d \<le> a \<or> b \<le> c \<Longrightarrow> kept ch' xs c d = kept ch xs c d"
  by (rule kept_cong) (auto simp: frame_def)

lemma kept_all: "(\<And>i. a \<le> i \<Longrightarrow> i < b \<Longrightarrow> \<not> ch ! i) \<Longrightarrow> kept ch xs a b = map ((!) xs) [a..<b]"
  by (simp add: kept_def)

lemma kept_none: "(\<And>i. a \<le> i \<Longrightarrow> i < b \<Longrightarrow> ch ! i) \<Longrightarrow> kept ch xs a b = []"
  by (auto simp: kept_def filter_empty_conv)

lemma kept_empty [simp]: "kept ch xs a a = []"
  by (simp add: kept_def)

lemma frame_trans: "frame ch ch' a b \<Longrightarrow> frame ch' ch'' c d \<Longrightarrow> e \<le> a \<Longrightarrow> e \<le> c \<Longrightarrow> b \<le> f \<Longrightarrow> d \<le> f \<Longrightarrow> frame ch ch'' e f"
  by (auto simp: frame_def)

lemma fresh_frame: "frame ch ch' a b \<Longrightarrow> fresh ch c d \<Longrightarrow> d \<le> a \<or> b \<le> c \<Longrightarrow> fresh ch' c d"
  by (auto simp: frame_def fresh_def)

lemma frame_refl: "frame ch ch a b"
  by (simp add: frame_def)

lemma frame_widen: "frame ch ch' a b \<Longrightarrow> c \<le> a \<Longrightarrow> b \<le> d \<Longrightarrow> frame ch ch' c d"
  by (auto simp: frame_def)

lemma fresh_narrow: "fresh ch a b \<Longrightarrow> a \<le> c \<Longrightarrow> d \<le> b \<Longrightarrow> fresh ch c d"
  by (auto simp: fresh_def)

abbreviation stop :: "slice \<Rightarrow> nat" where
  "stop s \<equiv> sl_offset s + sl_len s"

text \<open>
  What a computation of changes on two slices must achieve: it touches only their parts of the bit
  arrays, and the lines it leaves unchanged in them are the same.
\<close>

definition changes_ok :: "slice \<Rightarrow> slice \<Rightarrow> bool list \<Rightarrow> bool list \<Rightarrow> bool list \<times> bool list \<Rightarrow> bool" where
  "changes_ok s1 s2 ch1 ch2 r \<longleftrightarrow>
     frame ch1 (fst r) (sl_offset s1) (stop s1) \<and> frame ch2 (snd r) (sl_offset s2) (stop s2) \<and>
     kept (fst r) (sl_list s1) (sl_offset s1) (stop s1) = kept (snd r) (sl_list s2) (sl_offset s2) (stop s2)"

lemma changes_ok_sym: "changes_ok s2 s1 ch2 ch1 (c2, c1) \<Longrightarrow> changes_ok s1 s2 ch1 ch2 (c1, c2)"
  by (auto simp: changes_ok_def)

lemma fold_set_changed:
  "fold (\<lambda>i ch. if Some i \<noteq> t then ch[i := True] else ch) is ch ! k \<longleftrightarrow>
     (if k \<in> set is \<and> Some k \<noteq> t \<and> k < length ch then True else ch ! k)"
  "length (fold (\<lambda>i ch. if Some i \<noteq> t then ch[i := True] else ch) is ch) = length ch"
proof (induction "is" arbitrary: ch)
  case (Cons i "is")
  { case 1 show ?case using Cons.IH(1) [of "if Some i \<noteq> t then ch[i := True] else ch"]
      by (cases "i = k"; cases "k < length ch") (auto simp: nth_list_update list_update_beyond split: if_splits) }
  { case 2 show ?case using Cons.IH(2) [of "if Some i \<noteq> t then ch[i := True] else ch"] by auto }
qed simp_all

lemma kept_single:
  assumes "a \<le> k" "k < b" "\<not> ch ! k" "\<And>i. a \<le> i \<Longrightarrow> i < b \<Longrightarrow> i \<noteq> k \<Longrightarrow> ch ! i"
  shows "kept ch xs a b = [xs ! k]"
proof -
  have "kept ch xs a b = kept ch xs a k @ kept ch xs k (Suc k) @ kept ch xs (Suc k) b"
    using assms(1,2) kept_append [of a k b] kept_append [of k "Suc k" b] by simp
  moreover have "kept ch xs a k = []" "kept ch xs (Suc k) b = []" using assms by (auto intro!: kept_none)
  moreover have "kept ch xs k (Suc k) = [xs ! k]" using assms(3) by (simp add: kept_def)
  ultimately show ?thesis by simp
qed

lemma set_changed_ok:
  assumes "sl_len s1 \<le> 1" and f1: "fresh ch1 (sl_offset s1) (stop s1)" and f2: "fresh ch2 (sl_offset s2) (stop s2)"
  shows "changes_ok s1 s2 ch1 ch2 (set_changed ch1 ch2 s1 s2)"
proof -
  define t where "t = (if sl_len s1 = 1 then smartlist_slice_string_pos s2 (sl_list s1 ! sl_offset s1) else None)"
  define c1 where "c1 = (if sl_len s1 = 1 \<and> t = None then ch1[sl_offset s1 := True] else ch1)"
  define c2 where "c2 = fold (\<lambda>i ch. if Some i \<noteq> t then ch[i := True] else ch) [sl_offset s2..<stop s2] ch2"
  have r: "set_changed ch1 ch2 s1 s2 = (c1, c2)" by (simp add: set_changed_def t_def c1_def c2_def Let_def)
  have fr: "frame ch1 c1 (sl_offset s1) (stop s1)" "frame ch2 c2 (sl_offset s2) (stop s2)"
    by (auto simp: c1_def c2_def frame_def fold_set_changed)
  have c2: "c2 ! i \<longleftrightarrow> Some i \<noteq> t" if "sl_offset s2 \<le> i" "i < stop s2" for i
    using that f2 by (auto simp: c2_def fold_set_changed fresh_def)
  have "kept c1 (sl_list s1) (sl_offset s1) (stop s1) = kept c2 (sl_list s2) (sl_offset s2) (stop s2)"
  proof (cases t)
    case None
    have "kept c2 (sl_list s2) (sl_offset s2) (stop s2) = []" using c2 None by (auto intro: kept_none)
    moreover have "kept c1 (sl_list s1) (sl_offset s1) (stop s1) = []"
    proof (cases "sl_len s1 = 1")
      case True
      then show ?thesis using None f1 by (auto simp: c1_def fresh_def kept_def)
    next
      case False
      then show ?thesis using assms(1) by (simp add: kept_def)
    qed
    ultimately show ?thesis by simp
  next
    case (Some k)
    then have k: "sl_len s1 = 1" "sl_offset s2 \<le> k" "k < stop s2" "sl_list s2 ! k = sl_list s1 ! sl_offset s1"
      by (auto simp: t_def smartlist_slice_string_pos_def find_Some_iff split: if_splits)
    have "kept c2 (sl_list s2) (sl_offset s2) (stop s2) = [sl_list s2 ! k]"
      using k c2 Some by (intro kept_single) auto
    moreover have "kept c1 (sl_list s1) (sl_offset s1) (stop s1) = [sl_list s1 ! sl_offset s1]"
      using k f1 Some by (auto simp: c1_def kept_def fresh_def)
    ultimately show ?thesis using k by simp
  qed
  with fr show ?thesis by (simp add: changes_ok_def r)
qed

text \<open>Trimming cuts off equal lines on both sides.\<close>

definition cut_start :: "nat \<Rightarrow> slice \<Rightarrow> slice" where
  "cut_start p s = s\<lparr>sl_offset := sl_offset s + p, sl_len := sl_len s - p\<rparr>"

definition cut_stop :: "nat \<Rightarrow> slice \<Rightarrow> slice" where
  "cut_stop q s = s\<lparr>sl_len := sl_len s - q\<rparr>"

lemma trim_start_cut:
  "\<exists>p. trim_start s1 s2 = (cut_start p s1, cut_start p s2) \<and> p \<le> sl_len s1 \<and> p \<le> sl_len s2 \<and>
     map ((!) (sl_list s1)) [sl_offset s1..<sl_offset s1 + p] = map ((!) (sl_list s2)) [sl_offset s2..<sl_offset s2 + p]"
proof (induction s1 s2 rule: trim_start.induct)
  case (1 s1 s2)
  show ?case
  proof (cases "sl_len s1 > 0 \<and> sl_len s2 > 0 \<and> sl_list s1 ! sl_offset s1 = sl_list s2 ! sl_offset s2")
    case True
    with 1 obtain p where p:
      "trim_start (s1\<lparr>sl_offset := sl_offset s1 + 1, sl_len := sl_len s1 - 1\<rparr>) (s2\<lparr>sl_offset := sl_offset s2 + 1, sl_len := sl_len s2 - 1\<rparr>) =
        (cut_start (Suc p) s1, cut_start (Suc p) s2)"
      "p \<le> sl_len s1 - 1" "p \<le> sl_len s2 - 1"
      "map ((!) (sl_list s1)) [Suc (sl_offset s1)..<Suc (sl_offset s1) + p] = map ((!) (sl_list s2)) [Suc (sl_offset s2)..<Suc (sl_offset s2) + p]"
      by (auto simp: cut_start_def)
    have "Suc p \<le> sl_len s1" "Suc p \<le> sl_len s2" using True p(2,3) by linarith+
    then show ?thesis
      using True p by (intro exI [of _ "Suc p"]) (subst trim_start.simps, simp add: upt_conv_Cons del: upt_Suc)
  next
    case False
    then show ?thesis by (intro exI [of _ 0]) (subst trim_start.simps, auto simp: cut_start_def)
  qed
qed

lemma trim_stop_cut:
  "\<exists>q. trim_stop s1 s2 = (cut_stop q s1, cut_stop q s2) \<and> q \<le> sl_len s1 \<and> q \<le> sl_len s2 \<and>
     map ((!) (sl_list s1)) [stop s1 - q..<stop s1] = map ((!) (sl_list s2)) [stop s2 - q..<stop s2]"
proof (induction s1 s2 rule: trim_stop.induct)
  case (1 s1 s2)
  show ?case
  proof (cases "sl_len s1 > 0 \<and> sl_len s2 > 0 \<and> sl_list s1 ! (stop s1 - 1) = sl_list s2 ! (stop s2 - 1)")
    case True
    with 1 obtain q where q:
      "trim_stop (s1\<lparr>sl_len := sl_len s1 - 1\<rparr>) (s2\<lparr>sl_len := sl_len s2 - 1\<rparr>) = (cut_stop (Suc q) s1, cut_stop (Suc q) s2)"
      "q \<le> sl_len s1 - 1" "q \<le> sl_len s2 - 1"
      "map ((!) (sl_list s1)) [stop s1 - 1 - q..<stop s1 - 1] = map ((!) (sl_list s2)) [stop s2 - 1 - q..<stop s2 - 1]"
      by (auto simp: cut_stop_def)
    have last: "[stop s - Suc q..<stop s] = [stop s - 1 - q..<stop s - 1] @ [stop s - 1]" if "sl_len s > 0" for s :: slice
      using that by (cases "sl_len s") (auto simp: upt_Suc)
    have "Suc q \<le> sl_len s1" "Suc q \<le> sl_len s2" using True q(2,3) by linarith+
    then show ?thesis
      using True q last by (intro exI [of _ "Suc q"]) (subst trim_stop.simps, simp del: upt_Suc)
  next
    case False
    then show ?thesis by (intro exI [of _ 0]) (subst trim_stop.simps, auto simp: cut_stop_def)
  qed
qed

lemma changes_ok_cut_start:
  assumes ok: "changes_ok (cut_start p s1) (cut_start p s2) ch1 ch2 r" and p: "p \<le> sl_len s1" "p \<le> sl_len s2"
    and eq: "map ((!) (sl_list s1)) [sl_offset s1..<sl_offset s1 + p] = map ((!) (sl_list s2)) [sl_offset s2..<sl_offset s2 + p]"
    and f1: "fresh ch1 (sl_offset s1) (stop s1)" and f2: "fresh ch2 (sl_offset s2) (stop s2)"
  shows "changes_ok s1 s2 ch1 ch2 r"
proof -
  have fr: "frame ch1 (fst r) (sl_offset s1 + p) (stop s1)" "frame ch2 (snd r) (sl_offset s2 + p) (stop s2)"
    and k: "kept (fst r) (sl_list s1) (sl_offset s1 + p) (stop s1) = kept (snd r) (sl_list s2) (sl_offset s2 + p) (stop s2)"
    using ok p by (auto simp: changes_ok_def cut_start_def)
  have "kept (fst r) (sl_list s1) (sl_offset s1) (sl_offset s1 + p) = map ((!) (sl_list s1)) [sl_offset s1..<sl_offset s1 + p]"
    "kept (snd r) (sl_list s2) (sl_offset s2) (sl_offset s2 + p) = map ((!) (sl_list s2)) [sl_offset s2..<sl_offset s2 + p]"
    using fr f1 f2 p by (auto simp: frame_def fresh_def intro!: kept_all)
  with k eq p have "kept (fst r) (sl_list s1) (sl_offset s1) (stop s1) = kept (snd r) (sl_list s2) (sl_offset s2) (stop s2)"
    using kept_append [of "sl_offset s1" "sl_offset s1 + p" "stop s1"] kept_append [of "sl_offset s2" "sl_offset s2 + p" "stop s2"]
    by simp
  with fr show ?thesis by (auto simp: changes_ok_def elim: frame_widen)
qed

lemma changes_ok_cut_stop:
  assumes ok: "changes_ok (cut_stop q s1) (cut_stop q s2) ch1 ch2 r" and q: "q \<le> sl_len s1" "q \<le> sl_len s2"
    and eq: "map ((!) (sl_list s1)) [stop s1 - q..<stop s1] = map ((!) (sl_list s2)) [stop s2 - q..<stop s2]"
    and f1: "fresh ch1 (sl_offset s1) (stop s1)" and f2: "fresh ch2 (sl_offset s2) (stop s2)"
  shows "changes_ok s1 s2 ch1 ch2 r"
proof -
  have e: "sl_offset s1 + (sl_len s1 - q) = stop s1 - q" "sl_offset s2 + (sl_len s2 - q) = stop s2 - q" using q by auto
  have fr: "frame ch1 (fst r) (sl_offset s1) (stop s1 - q)" "frame ch2 (snd r) (sl_offset s2) (stop s2 - q)"
    and k: "kept (fst r) (sl_list s1) (sl_offset s1) (stop s1 - q) = kept (snd r) (sl_list s2) (sl_offset s2) (stop s2 - q)"
    using ok e by (auto simp: changes_ok_def cut_stop_def)
  have "kept (fst r) (sl_list s1) (stop s1 - q) (stop s1) = map ((!) (sl_list s1)) [stop s1 - q..<stop s1]"
    "kept (snd r) (sl_list s2) (stop s2 - q) (stop s2) = map ((!) (sl_list s2)) [stop s2 - q..<stop s2]"
    using fr f1 f2 q by (auto simp: frame_def fresh_def intro!: kept_all)
  with k eq q have "kept (fst r) (sl_list s1) (sl_offset s1) (stop s1) = kept (snd r) (sl_list s2) (sl_offset s2) (stop s2)"
    using kept_append [of "sl_offset s1" "stop s1 - q" "stop s1"] kept_append [of "sl_offset s2" "stop s2 - q" "stop s2"]
    by simp
  with fr show ?thesis by (auto simp: changes_ok_def elim: frame_widen)
qed

lemma trim_slices_cut:
  assumes "trim_slices s1 s2 = (t1, t2)"
  obtains p q where "t1 = cut_stop q (cut_start p s1)" and "t2 = cut_stop q (cut_start p s2)"
    and "p \<le> sl_len s1" and "p \<le> sl_len s2" and "q \<le> sl_len s1 - p" and "q \<le> sl_len s2 - p"
    and "map ((!) (sl_list s1)) [sl_offset s1..<sl_offset s1 + p] = map ((!) (sl_list s2)) [sl_offset s2..<sl_offset s2 + p]"
    and "map ((!) (sl_list s1)) [stop s1 - q..<stop s1] = map ((!) (sl_list s2)) [stop s2 - q..<stop s2]"
proof -
  obtain p where p: "trim_start s1 s2 = (cut_start p s1, cut_start p s2)" "p \<le> sl_len s1" "p \<le> sl_len s2"
    "map ((!) (sl_list s1)) [sl_offset s1..<sl_offset s1 + p] = map ((!) (sl_list s2)) [sl_offset s2..<sl_offset s2 + p]"
    using trim_start_cut by blast
  obtain q where q: "trim_stop (cut_start p s1) (cut_start p s2) = (cut_stop q (cut_start p s1), cut_stop q (cut_start p s2))"
    "q \<le> sl_len (cut_start p s1)" "q \<le> sl_len (cut_start p s2)"
    "map ((!) (sl_list (cut_start p s1))) [stop (cut_start p s1) - q..<stop (cut_start p s1)] =
     map ((!) (sl_list (cut_start p s2))) [stop (cut_start p s2) - q..<stop (cut_start p s2)]"
    using trim_stop_cut by blast
  have "stop (cut_start p s1) = stop s1" "stop (cut_start p s2) = stop s2" using p(2,3) by (simp_all add: cut_start_def)
  then have "map ((!) (sl_list s1)) [stop s1 - q..<stop s1] = map ((!) (sl_list s2)) [stop s2 - q..<stop s2]"
    using q(4) by (simp only:) (simp add: cut_start_def)
  moreover have "t1 = cut_stop q (cut_start p s1)" "t2 = cut_stop q (cut_start p s2)"
    using assms p(1) q(1) by (simp_all add: trim_slices_def)
  moreover have "q \<le> sl_len s1 - p" "q \<le> sl_len s2 - p" using q(2,3) by (simp_all add: cut_start_def)
  ultimately show thesis using p(2-4) that by blast
qed

lemma cut_sel:
  "sl_list (cut_start p s) = sl_list s" "sl_offset (cut_start p s) = sl_offset s + p" "sl_len (cut_start p s) = sl_len s - p"
  "sl_list (cut_stop p s) = sl_list s" "sl_offset (cut_stop p s) = sl_offset s" "sl_len (cut_stop p s) = sl_len s - p"
  by (simp_all add: cut_start_def cut_stop_def)

lemma trim_slices_ok:
  assumes t: "trim_slices s1 s2 = (t1, t2)" and ok: "changes_ok t1 t2 ch1 ch2 r"
    and f1: "fresh ch1 (sl_offset s1) (stop s1)" and f2: "fresh ch2 (sl_offset s2) (stop s2)"
  shows "changes_ok s1 s2 ch1 ch2 r"
proof -
  obtain p q where u: "t1 = cut_stop q (cut_start p s1)" "t2 = cut_stop q (cut_start p s2)"
    and p: "p \<le> sl_len s1" "p \<le> sl_len s2" and q: "q \<le> sl_len s1 - p" "q \<le> sl_len s2 - p"
    and eqp: "map ((!) (sl_list s1)) [sl_offset s1..<sl_offset s1 + p] = map ((!) (sl_list s2)) [sl_offset s2..<sl_offset s2 + p]"
    and eqq: "map ((!) (sl_list s1)) [stop s1 - q..<stop s1] = map ((!) (sl_list s2)) [stop s2 - q..<stop s2]"
    by (rule trim_slices_cut [OF t])
  have st: "stop (cut_start p s1) = stop s1" "stop (cut_start p s2) = stop s2" using p by (simp_all add: cut_sel)
  have "changes_ok (cut_start p s1) (cut_start p s2) ch1 ch2 r"
  proof (rule changes_ok_cut_stop [of q])
    show "fresh ch1 (sl_offset (cut_start p s1)) (stop (cut_start p s1))" unfolding st by (rule fresh_narrow [OF f1]) (simp_all add: cut_sel)
    show "fresh ch2 (sl_offset (cut_start p s2)) (stop (cut_start p s2))" unfolding st by (rule fresh_narrow [OF f2]) (simp_all add: cut_sel)
  qed (use ok u q eqq st in \<open>simp_all only: cut_sel\<close>)
  then show ?thesis using p eqp f1 f2 by (rule changes_ok_cut_start)
qed

lemma trim_slices_fresh:
  assumes "trim_slices s1 s2 = (t1, t2)" and "fresh ch1 (sl_offset s1) (stop s1)" and "fresh ch2 (sl_offset s2) (stop s2)"
  shows "fresh ch1 (sl_offset t1) (stop t1)" and "fresh ch2 (sl_offset t2) (stop t2)"
proof -
  obtain p q where "t1 = cut_stop q (cut_start p s1)" "t2 = cut_stop q (cut_start p s2)" "p \<le> sl_len s1" "p \<le> sl_len s2"
    by (rule trim_slices_cut [OF assms(1)])
  then show "fresh ch1 (sl_offset t1) (stop t1)" "fresh ch2 (sl_offset t2) (stop t2)"
    using fresh_narrow [OF assms(2), of "sl_offset t1" "stop t1"] fresh_narrow [OF assms(3), of "sl_offset t2" "stop t2"]
    by (simp_all add: cut_sel)
qed

lemma column_le:
  "\<forall>i\<in>set is. i \<le> n \<Longrightarrow> c \<le> n \<Longrightarrow>
   fst (fold (\<lambda>i (column, max_sum). if int (f i) > max_sum then (i, int (f i)) else (column, max_sum)) is (c, m)) \<le> n"
  by (induction "is" arbitrary: c m) auto

lemma optimal_column_le: "optimal_column_to_split t b s \<le> sl_len s"
  unfolding optimal_column_to_split_def Let_def by (rule column_le) auto

lemma slice_sel [simp]:
  "sl_list (smartlist_slice l a b) = l" "sl_offset (smartlist_slice l a b) = a" "sl_len (smartlist_slice l a b) = b - a"
  by (simp_all add: smartlist_slice_def)

lemma changes_ok_split:
  assumes m: "a1 \<le> m1" "m1 \<le> b1" "a2 \<le> m2" "m2 \<le> b2"
    and ok1: "changes_ok (smartlist_slice l1 a1 m1) (smartlist_slice l2 a2 m2) ch1 ch2 (c1, c2)"
    and ok2: "changes_ok (smartlist_slice l1 m1 b1) (smartlist_slice l2 m2 b2) c1 c2 r"
  shows "changes_ok (smartlist_slice l1 a1 b1) (smartlist_slice l2 a2 b2) ch1 ch2 r"
proof -
  have f1: "frame ch1 c1 a1 m1" "frame ch2 c2 a2 m2" "kept c1 l1 a1 m1 = kept c2 l2 a2 m2"
    using ok1 m by (simp_all add: changes_ok_def smartlist_slice_def)
  have f2: "frame c1 (fst r) m1 b1" "frame c2 (snd r) m2 b2" "kept (fst r) l1 m1 b1 = kept (snd r) l2 m2 b2"
    using ok2 m by (simp_all add: changes_ok_def smartlist_slice_def)
  have "frame ch1 (fst r) a1 b1" "frame ch2 (snd r) a2 b2"
    using f1 f2 m by (auto intro: frame_trans [of _ _ a1 m1 _ m1 b1] frame_trans [of _ _ a2 m2 _ m2 b2])
  moreover have "kept (fst r) l1 a1 m1 = kept c1 l1 a1 m1" "kept (snd r) l2 a2 m2 = kept c2 l2 a2 m2"
    using f2 by (auto intro!: kept_frame)
  ultimately show ?thesis
    using f1(3) f2(3) m kept_append [of a1 m1 b1 "fst r" l1] kept_append [of a2 m2 b2 "snd r" l2]
    by (simp add: changes_ok_def smartlist_slice_def)
qed

lemma slice_collapse: "smartlist_slice (sl_list s) (sl_offset s) (stop s) = s"
  by (simp add: smartlist_slice_def)

lemma calc_changes_ok:
  "fresh ch1 (sl_offset s1) (stop s1) \<Longrightarrow> fresh ch2 (sl_offset s2) (stop s2) \<Longrightarrow>
   changes_ok s1 s2 ch1 ch2 (calc_changes s1 s2 ch1 ch2)"
proof (induction s1 s2 ch1 ch2 rule: calc_changes.induct)
  case (1 s1 s2 ch1 ch2)
  obtain t1 t2 where t: "trim_slices s1 s2 = (t1, t2)" by fastforce
  note f = trim_slices_fresh [OF t "1.prems"]
  have "changes_ok t1 t2 ch1 ch2 (calc_changes s1 s2 ch1 ch2)"
  proof (cases "sl_len t1 \<le> 1 \<or> sl_len t2 \<le> 1")
    case True
    show ?thesis
    proof (cases "sl_len t1 \<le> 1")
      case True
      then show ?thesis using set_changed_ok [OF True f] by (subst calc_changes.simps) (simp add: t)
    next
      case False
      with True have l: "sl_len t2 \<le> 1" by simp
      obtain c2 c1 where c: "set_changed ch2 ch1 t2 t1 = (c2, c1)" by fastforce
      have "changes_ok t1 t2 ch1 ch2 (c1, c2)"
        using set_changed_ok [OF l f(2,1)] unfolding c by (rule changes_ok_sym)
      then show ?thesis using False l c by (subst calc_changes.simps) (simp add: t)
    qed
  next
    case False
    define m1 where "m1 = sl_offset t1 + sl_len t1 div 2"
    define m2 where "m2 = sl_offset t2 + optimal_column_to_split (smartlist_slice (sl_list t1) (sl_offset t1) m1)
        (smartlist_slice (sl_list t1) m1 (stop t1)) t2"
    have m: "sl_offset t1 \<le> m1" "m1 \<le> stop t1" "sl_offset t2 \<le> m2" "m2 \<le> stop t2"
      using optimal_column_le by (auto simp: m1_def m2_def)
    let ?top = "smartlist_slice (sl_list t1) (sl_offset t1) m1" and ?bot = "smartlist_slice (sl_list t1) m1 (stop t1)"
    let ?left = "smartlist_slice (sl_list t2) (sl_offset t2) m2" and ?right = "smartlist_slice (sl_list t2) m2 (stop t2)"
    obtain c1 c2 where c: "calc_changes ?top ?left ch1 ch2 = (c1, c2)" by fastforce
    have e: "calc_changes s1 s2 ch1 ch2 = calc_changes ?bot ?right c1 c2"
      using False c by (subst calc_changes.simps) (simp add: t Let_def m1_def m2_def)
    have ok1: "changes_ok ?top ?left ch1 ch2 (c1, c2)"
      unfolding c [symmetric] unfolding m2_def m1_def
    proof (rule "1.IH"(1) [OF t [symmetric] _ _ refl refl refl refl refl refl])
    qed (use False f m in \<open>auto simp: m1_def m2_def fresh_def\<close>)
    have fr: "frame ch1 c1 (sl_offset t1) m1" "frame ch2 c2 (sl_offset t2) m2"
      using ok1 m by (simp_all add: changes_ok_def)
    have f': "fresh c1 m1 (stop t1)" "fresh c2 m2 (stop t2)"
      using fresh_frame [OF fr(1), of m1 "stop t1"] fresh_frame [OF fr(2), of m2 "stop t2"] f m
      by (auto intro: fresh_narrow)
    have "changes_ok ?bot ?right c1 c2 (calc_changes ?bot ?right c1 c2)"
      unfolding m2_def m1_def
    proof (rule "1.IH"(2) [OF t [symmetric] _ _ refl refl refl refl refl refl])
      show "(c1, c2) = calc_changes (smartlist_slice (sl_list t1) (sl_offset t1) (sl_offset t1 + sl_len t1 div 2))
         (smartlist_slice (sl_list t2) (sl_offset t2) (sl_offset t2 +
           optimal_column_to_split (smartlist_slice (sl_list t1) (sl_offset t1) (sl_offset t1 + sl_len t1 div 2))
            (smartlist_slice (sl_list t1) (sl_offset t1 + sl_len t1 div 2) (stop t1)) t2)) ch1 ch2"
        using c unfolding m2_def m1_def by simp
    qed (use False f' m in \<open>auto simp: m1_def m2_def\<close>)
    from changes_ok_split [OF m ok1 this] show ?thesis by (simp add: e slice_collapse)
  qed
  with t show ?case using "1.prems" by (rule trim_slices_ok)
qed

text \<open>The position and the start of the current chunk, before and after the first turn.\<close>

definition chunk_at :: "int \<Rightarrow> int \<Rightarrow> nat \<Rightarrow> bool" where
  "chunk_at i s n \<longleftrightarrow> (s = i \<and> 0 \<le> i \<and> i \<le> int n) \<or> (i = - 1 \<and> s = 0)"

lemma chunk_advance:
  assumes "chunk_at i s n" and "moved_on i j (int n)" and "i < int n \<longrightarrow> i < j"
  shows "0 \<le> s" "s \<le> j" "j \<le> int n" "chunk_at j j n"
  using assms by (auto simp: chunk_at_def moved_on_def)

definition matched :: "cdline list \<Rightarrow> cdline list \<Rightarrow> nat \<Rightarrow> nat \<Rightarrow> bool list \<Rightarrow> bool list \<Rightarrow> bool" where
  "matched cons1 cons2 n1 n2 ch1 ch2 \<longleftrightarrow>
     length ch1 = length cons1 \<and> length ch2 = length cons2 \<and> kept ch1 cons1 0 n1 = kept ch2 cons2 0 n2"

lemma matched_chunk:
  assumes m: "matched cons1 cons2 s1 s2 ch1 ch2" and le: "s1 \<le> j1" "j1 \<le> length cons1" "s2 \<le> j2" "j2 \<le> length cons2"
    and f: "fresh ch1 s1 (length cons1)" "fresh ch2 s2 (length cons2)"
    and c: "calc_changes (smartlist_slice cons1 s1 j1) (smartlist_slice cons2 s2 j2) ch1 ch2 = (c1, c2)"
  shows "matched cons1 cons2 j1 j2 c1 c2 \<and> fresh c1 j1 (length cons1) \<and> fresh c2 j2 (length cons2)"
proof -
  have "changes_ok (smartlist_slice cons1 s1 j1) (smartlist_slice cons2 s2 j2) ch1 ch2 (c1, c2)"
    unfolding c [symmetric] using f le by (intro calc_changes_ok) (auto simp: fresh_def)
  then have fr: "frame ch1 c1 s1 j1" "frame ch2 c2 s2 j2" and k: "kept c1 cons1 s1 j1 = kept c2 cons2 s2 j2"
    using le by (simp_all add: changes_ok_def)
  have "kept c1 cons1 0 s1 = kept ch1 cons1 0 s1" "kept c2 cons2 0 s2 = kept ch2 cons2 0 s2"
    using fr by (auto intro: kept_frame)
  then have "kept c1 cons1 0 j1 = kept c2 cons2 0 j2"
    using k m le kept_append [of 0 s1 j1 c1 cons1] kept_append [of 0 s2 j2 c2 cons2] by (simp add: matched_def)
  moreover have "fresh c1 j1 (length cons1)" "fresh c2 j2 (length cons2)"
    using fresh_frame [OF fr(1) fresh_narrow [OF f(1)], of j1 "length cons1"]
      fresh_frame [OF fr(2) fresh_narrow [OF f(2)], of j2 "length cons2"] le by auto
  ultimately show ?thesis using m fr by (simp add: matched_def frame_def)
qed

lemma gen_changes_ok:
  "gen_changes cons1 cons2 i1 i2 s1 s2 t1 t2 ch1 ch2 = Some (c1, c2) \<Longrightarrow>
   chunk_at i1 s1 (length cons1) \<Longrightarrow> chunk_at i2 s2 (length cons2) \<Longrightarrow>
   matched cons1 cons2 (nat s1) (nat s2) ch1 ch2 \<Longrightarrow>
   fresh ch1 (nat s1) (length cons1) \<Longrightarrow> fresh ch2 (nat s2) (length cons2) \<Longrightarrow>
   matched cons1 cons2 (length cons1) (length cons2) c1 c2"
proof (induction cons1 cons2 i1 i2 s1 s2 t1 t2 ch1 ch2 rule: gen_changes.induct)
  case (1 cons1 cons2 i1 i2 s1 s2 t1 t2 ch1 ch2)
  show ?case
  proof (cases "i1 < int (length cons1) \<or> i2 < int (length cons2)")
    case False
    then have "i1 = int (length cons1)" "i2 = int (length cons2)" "s1 = i1" "s2 = i2" "c1 = ch1" "c2 = ch2"
      using "1.prems" by (auto simp: chunk_at_def gen_changes.simps [of cons1 cons2 i1])
    then show ?thesis using "1.prems"(4) by simp
  next
    case True
    obtain j1 j2 u1 u2 d1 d2 where a: "advance cons1 cons2 i1 i2 t1 t2 = Some (j1, j2, u1, u2)"
      and small: "\<not> (j1 - s1 > MAX_LINE_COUNT \<or> j2 - s2 > MAX_LINE_COUNT)"
      and d: "calc_changes (smartlist_slice cons1 (nat s1) (nat j1)) (smartlist_slice cons2 (nat s2) (nat j2)) ch1 ch2 = (d1, d2)"
      and g: "gen_changes cons1 cons2 j1 j2 j1 j2 u1 u2 d1 d2 = Some (c1, c2)"
      using True "1.prems"(1)
      by (subst (asm) gen_changes.simps) (auto simp: Let_def split: option.splits prod.splits if_splits)
    note b = advance_bounds [OF a]
    note j1 = chunk_advance [OF "1.prems"(2) b [THEN conjunct1]] and j2 = chunk_advance [OF "1.prems"(3) b [THEN conjunct2, THEN conjunct1]]
    have "matched cons1 cons2 (nat j1) (nat j2) d1 d2 \<and> fresh d1 (nat j1) (length cons1) \<and> fresh d2 (nat j2) (length cons2)"
      using "1.prems"(4) _ _ _ _ "1.prems"(5,6) d
    proof (rule matched_chunk)
    qed (use b j1 j2 in auto)
    then show ?thesis
      using "1.IH" [OF True a refl refl refl small refl refl d [symmetric] g] b j1(4) j2(4) by blast
  qed
qed

section \<open>Commands\<close>

lemma show_nat_length: "n < 10 ^ k \<Longrightarrow> 0 < k \<Longrightarrow> length (show_nat n) \<le> k"
proof (induction k arbitrary: n)
  case 0
  then show ?case by simp
next
  case (Suc k)
  show ?case
  proof (cases "n < 10")
    case True
    then show ?thesis by (simp add: show_nat.simps)
  next
    case False
    then have "0 < k" using Suc.prems by (cases k) auto
    moreover have "n div 10 < 10 ^ k" using Suc.prems by (simp add: div_less_iff_less_mult mult.commute)
    ultimately show ?thesis using Suc.IH [of "n div 10"] False by (subst show_nat.simps) simp
  qed
qed

lemma show_nat_length_int: "n < 2 ^ 31 \<Longrightarrow> length (show_nat n) \<le> 10"
  by (rule show_nat_length) auto

lemma show_nat_no_NUL: "CHR 0x00 \<notin> set (show_nat n)"
  using show_nat_digits [of n] by (auto simp: list_all_iff is_digit_10_iff)

lemma c_str_id: "CHR 0x00 \<notin> set s \<Longrightarrow> c_str s = s"
  by (auto simp: c_str_def char_of_def takeWhile_eq_all_conv)

lemma get_linenum_show_nat:
  assumes "n < 2 ^ 31" and "\<not> starts_with_digit rest"
  shows "get_linenum (show_nat n @ rest) = Some (int n, rest)"
  using assms show_nat_split [OF assms(2), of n]
  by (simp add: get_linenum_def Let_def tor_parse_long_def CHECK_STRTOX_RESULT_def strtol_def)

lemma not_digit_heads [simp]:
  "\<not> starts_with_digit (CHR '','' # r)" "\<not> starts_with_digit (CHR ''$'' # r)"
  "\<not> starts_with_digit (CHR ''a'' # r)" "\<not> starts_with_digit (CHR ''c'' # r)" "\<not> starts_with_digit (CHR ''d'' # r)"
  by (simp_all add: starts_with_digit_def is_digit_10_iff)

lemma char_at_Cons [simp]: "char_at (c # r) = c"
  by (simp add: char_at_def)

lemma char_at_digit: "char_at (show_nat n @ r) \<noteq> CHR ''$''"
  using char_at_show_nat [of n r] by (auto simp: TOR_ISDIGIT_iff is_digit_def)

lemma read_single:
  assumes "n < 2 ^ 31" and "int n \<le> j" and "act \<in> {CHR ''a'', CHR ''c'', CHR ''d''}"
  shows "read_command len1 j (show_nat n @ [act]) = Some \<lparr>ed_start = int n, ed_end = int n, ed_action = act\<rparr>"
proof -
  have "c_str (show_nat n @ [act]) = show_nat n @ [act]" using show_nat_no_NUL assms(3) by (intro c_str_id) auto
  moreover have "\<not> starts_with_digit [act]" using assms(3) by auto
  ultimately show ?thesis
    using assms show_nat_length_int [OF assms(1)] get_linenum_show_nat [OF assms(1), of "[act]"]
    by (auto simp: read_command_def Let_def)
qed

lemma read_range:
  assumes "n < m" and "m < 2 ^ 31" and "int m \<le> j" and "act \<in> {CHR ''c'', CHR ''d''}"
  shows "read_command len1 j (show_nat n @ '','' @ show_nat m @ [act]) =
    Some \<lparr>ed_start = int n, ed_end = int m, ed_action = act\<rparr>"
proof -
  let ?line = "show_nat n @ '','' @ show_nat m @ [act]"
  have "c_str ?line = ?line" using show_nat_no_NUL assms(4) by (intro c_str_id) auto
  moreover have "\<not> starts_with_digit [act]" using assms(4) by auto
  ultimately show ?thesis
    using assms show_nat_length_int [of n] show_nat_length_int [of m] get_linenum_show_nat [of n "'','' @ show_nat m @ [act]"]
      get_linenum_show_nat [OF assms(2), of "[act]"] char_at_digit [of m "[act]"]
    by (auto simp: read_command_def Let_def)
qed

lemma read_trailer:
  assumes "n < 2 ^ 31" and "int n < len1" and "len1 \<le> j"
  shows "read_command len1 j (show_nat n @ '',$d'') = Some \<lparr>ed_start = int n, ed_end = len1, ed_action = CHR ''d''\<rparr>"
proof -
  have "c_str (show_nat n @ '',$d'') = show_nat n @ '',$d''" using show_nat_no_NUL by (intro c_str_id) auto
  then show ?thesis
    using assms show_nat_length_int [OF assms(1)] get_linenum_show_nat [of n "'',$d''"]
    by (simp add: read_command_def Let_def)
qed

lemma copy_down_eq:
  "n \<le> k \<Longrightarrow> k \<le> length cons1 \<Longrightarrow> copy_down cons1 (int k) (int n) out = (int n, out @ rev (drop n (take k cons1)))"
proof (induction "k - n" arbitrary: k out)
  case 0
  then show ?case by (subst copy_down.simps) simp
next
  case (Suc d)
  then obtain k' where k: "k = Suc k'" "n \<le> k'" "k' < length cons1" by (cases k) auto
  have "copy_down cons1 (int k) (int n) out = copy_down cons1 (int k') (int n) (out @ [cons1 ! k'])"
    using k by (subst copy_down.simps) simp
  also have "\<dots> = (int n, (out @ [cons1 ! k']) @ rev (drop n (take k' cons1)))"
    using Suc k by (intro Suc.hyps) auto
  finally show ?case using k by (simp add: take_Suc_conv_app_nth)
qed

lemma skip_down_eq: "start \<le> j \<Longrightarrow> skip_down j start = start - 1"
proof (induction j start rule: skip_down.induct)
  case (1 j start)
  then show ?case by (subst skip_down.simps) (cases "j - 1 \<ge> start"; simp)
qed

lemma split_added_dot: "''.'' \<notin> set ls \<Longrightarrow> split_added (ls @ ''.'' # rest) = Some (ls, rest)"
  by (induction ls) auto

text \<open>What one command of each kind does when it is applied.\<close>

lemma apply_delete:
  assumes "read_command (int (length cons1)) (int k) line = Some \<lparr>ed_start = int m + 1, ed_end = int n, ed_action = CHR ''d''\<rparr>"
    and "m < n" and "n \<le> k" and "k \<le> length cons1"
  shows "apply_loop cons1 (line # diff) (int k) out = apply_loop cons1 diff (int m) (out @ rev (drop n (take k cons1)))"
  using assms copy_down_eq [of n k cons1 out] skip_down_eq [of "int m + 1" "int n"]
  by (subst apply_loop.simps) simp

lemma apply_change:
  assumes "read_command (int (length cons1)) (int k) line = Some \<lparr>ed_start = int m + 1, ed_end = int n, ed_action = CHR ''c''\<rparr>"
    and "m < n" and "n \<le> k" and "k \<le> length cons1" and "''.'' \<notin> set ls" and "ls \<noteq> []"
  shows "apply_loop cons1 (line # ls @ ''.'' # diff) (int k) out =
    apply_loop cons1 diff (int m) (out @ rev (drop n (take k cons1)) @ rev ls)"
  using assms copy_down_eq [of n k cons1 out] skip_down_eq [of "int m + 1" "int n"] split_added_dot [of ls diff]
  by (subst apply_loop.simps) simp

lemma apply_append:
  assumes "read_command (int (length cons1)) (int k) line = Some \<lparr>ed_start = int n, ed_end = int n, ed_action = CHR ''a''\<rparr>"
    and "n \<le> k" and "k \<le> length cons1" and "''.'' \<notin> set ls" and "ls \<noteq> []"
  shows "apply_loop cons1 (line # ls @ ''.'' # diff) (int k) out =
    apply_loop cons1 diff (int n) (out @ rev (drop n (take k cons1)) @ rev ls)"
  using assms copy_down_eq [of n k cons1 out] split_added_dot [of ls diff]
  by (subst apply_loop.simps) simp

lemma kept_Suc: "kept ch xs 0 (Suc n) = kept ch xs 0 n @ (if ch ! n then [] else [xs ! n])"
  by (simp add: kept_def)

lemma kept_skip: "kept ch xs 0 (skip_changed ch n) = kept ch xs 0 n"
  by (induction n) (auto simp: kept_Suc)

lemma unchanged_step:
  assumes k: "kept ch1 L1 0 n1 = kept ch2 L2 0 n2" and "n1 \<noteq> 0 \<or> n2 \<noteq> 0"
    and "\<not> (n1 > 0 \<and> ch1 ! (n1 - 1))" and "\<not> (n2 > 0 \<and> ch2 ! (n2 - 1))"
  obtains m1 m2 where "n1 = Suc m1" and "n2 = Suc m2" and "L1 ! m1 = L2 ! m2"
    and "kept ch1 L1 0 m1 = kept ch2 L2 0 m2"
  using assms by (cases n1; cases n2) (auto simp: kept_Suc)

lemma drop_take_Suc: "m < k \<Longrightarrow> k \<le> length xs \<Longrightarrow> drop m (take k xs) = xs ! m # drop (Suc m) (take k xs)"
  by (simp add: Cons_nth_drop_Suc [symmetric] nth_take)

text \<open>The commands for the first \<open>n1\<close> and \<open>n2\<close> lines, applied, turn the one into the other.\<close>

definition transforms :: "cdline list \<Rightarrow> cdline list \<Rightarrow> nat \<Rightarrow> nat \<Rightarrow> cdline list \<Rightarrow> bool" where
  "transforms L1 L2 n1 n2 cmds \<longleftrightarrow>
     (\<forall>k out. n1 \<le> k \<and> k \<le> length L1 \<longrightarrow>
        apply_loop L1 cmds (int k) out = Some (out @ rev (drop n1 (take k L1)) @ rev (take n2 L2)))"

lemma transforms_unchanged:
  assumes t: "transforms L1 L2 m1 m2 cmds" and eq: "L1 ! m1 = L2 ! m2" and m2: "m2 < length L2"
  shows "transforms L1 L2 (Suc m1) (Suc m2) cmds"
  unfolding transforms_def
proof (intro allI impI)
  fix k out assume k: "Suc m1 \<le> k \<and> k \<le> length L1"
  then have "apply_loop L1 cmds (int k) out = Some (out @ rev (drop m1 (take k L1)) @ rev (take m2 L2))"
    using t by (simp add: transforms_def)
  then show "apply_loop L1 cmds (int k) out = Some (out @ rev (drop (Suc m1) (take k L1)) @ rev (take (Suc m2) L2))"
    using k m2 eq drop_take_Suc [of m1 k L1] by (simp add: take_Suc_conv_app_nth)
qed

lemma transforms_command:
  assumes t: "transforms L1 L2 m1 m2 cmds" and le: "m1 \<le> n1" "n1 \<le> length L1" "m2 \<le> n2" "n2 \<le> length L2"
    and step: "\<And>k out. n1 \<le> k \<Longrightarrow> k \<le> length L1 \<Longrightarrow> apply_loop L1 (new @ cmds) (int k) out =
      apply_loop L1 cmds (int m1) (out @ rev (drop n1 (take k L1)) @ rev (drop m2 (take n2 L2)))"
  shows "transforms L1 L2 n1 n2 (new @ cmds)"
  unfolding transforms_def
proof (intro allI impI)
  fix k out assume k: "n1 \<le> k \<and> k \<le> length L1"
  have "rev (drop m2 (take n2 L2)) @ rev (take m2 L2) = rev (take n2 L2)"
    using le by (metis append_take_drop_id min.absorb1 rev_append take_take)
  then show "apply_loop L1 (new @ cmds) (int k) out = Some (out @ rev (drop n1 (take k L1)) @ rev (take n2 L2))"
    using k le t step [of k out] by (simp add: transforms_def)
qed

lemma transforms_base: "transforms L1 L2 0 0 []"
  using copy_down_eq [of 0] by (auto simp: transforms_def apply_loop.simps)

definition delete_command :: "nat \<Rightarrow> nat \<Rightarrow> cdline" where
  "delete_command m n =
     (if n - m = 1 then show_nat (m + 1) @ ''d'' else show_nat (m + 1) @ '','' @ show_nat (m + (n - m)) @ ''d'')"

definition insert_command :: "nat \<Rightarrow> nat \<Rightarrow> cdline" where
  "insert_command m n =
     (if n - m = 0 then show_nat m @ ''a''
      else if n - m = 1 then show_nat (m + 1) @ ''c''
      else show_nat (m + 1) @ '','' @ show_nat (m + (n - m)) @ ''c'')"

lemma delete_command_step:
  assumes "m < n" and "n \<le> k" and "k \<le> length L1" and "length L1 < 2 ^ 31"
  shows "apply_loop L1 (delete_command m n # diff) (int k) out = apply_loop L1 diff (int m) (out @ rev (drop n (take k L1)))"
proof (rule apply_delete)
  show "read_command (int (length L1)) (int k) (delete_command m n) =
      Some \<lparr>ed_start = int m + 1, ed_end = int n, ed_action = CHR ''d''\<rparr>"
  proof (cases "n - m = 1")
    case True
    then have "n = Suc m" using assms(1) by simp
    then show ?thesis using assms read_single [of "m + 1" "int k" "CHR ''d''"] by (simp add: delete_command_def add.commute)
  next
    case False
    then show ?thesis
      using assms read_range [of "m + 1" n "int k" "CHR ''d''"] by (simp add: delete_command_def add.commute)
  qed
qed (use assms in auto)

lemma insert_command_step:
  assumes "m \<le> n" and "n \<le> k" and "k \<le> length L1" and "length L1 < 2 ^ 31" and ls: "''.'' \<notin> set ls" "ls \<noteq> []"
  shows "apply_loop L1 (insert_command m n # ls @ ''.'' # diff) (int k) out =
    apply_loop L1 diff (int m) (out @ rev (drop n (take k L1)) @ rev ls)"
proof (cases "m = n")
  case True
  have "read_command (int (length L1)) (int k) (insert_command m n) =
      Some \<lparr>ed_start = int n, ed_end = int n, ed_action = CHR ''a''\<rparr>"
    using True assms read_single [of n "int k" "CHR ''a''"] by (simp add: insert_command_def)
  from apply_append [OF this assms(2,3) ls] True show ?thesis by simp
next
  case False
  have "read_command (int (length L1)) (int k) (insert_command m n) =
      Some \<lparr>ed_start = int m + 1, ed_end = int n, ed_action = CHR ''c''\<rparr>"
  proof (cases "n - m = 1")
    case True
    then have "n = Suc m" using assms(1) by simp
    then show ?thesis using assms read_single [of "m + 1" "int k" "CHR ''c''"] by (simp add: insert_command_def add.commute)
  next
    case range: False
    with False show ?thesis
      using assms read_range [of "m + 1" n "int k" "CHR ''c''"] by (simp add: insert_command_def add.commute)
  qed
  from apply_change [OF this _ assms(2,3) ls] False assms(1) show ?thesis by simp
qed

lemma gen_commands_unfold:
  assumes "n1 \<noteq> 0 \<or> n2 \<noteq> 0" and "(n1 > 0 \<and> ch1 ! (n1 - 1)) \<or> (n2 > 0 \<and> ch2 ! (n2 - 1))"
    and "m1 = skip_changed ch1 n1" and "m2 = skip_changed ch2 n2"
  shows "gen_commands L2 ch1 ch2 n1 n2 res =
    (if m2 = n2 then gen_commands L2 ch1 ch2 m1 m2 (res @ [delete_command m1 n1])
     else if ''.'' \<in> set (drop m2 (take n2 L2)) then None
     else gen_commands L2 ch1 ch2 m1 m2 (res @ insert_command m1 n1 # drop m2 (take n2 L2) @ [''.'']))"
proof -
  have "m2 \<le> n2" using assms(4) skip_changed_le by simp
  then have "(n2 - m2 = 0) = (m2 = n2)" by auto
  then show ?thesis
    using assms by (subst gen_commands.simps) (auto simp: Let_def delete_command_def insert_command_def)
qed

lemma gen_commands_ok:
  "gen_commands L2 ch1 ch2 n1 n2 res = Some cs \<Longrightarrow> kept ch1 L1 0 n1 = kept ch2 L2 0 n2 \<Longrightarrow>
   n1 \<le> length L1 \<Longrightarrow> length L1 < 2 ^ 31 \<Longrightarrow> n2 \<le> length L2 \<Longrightarrow> \<exists>cmds. cs = res @ cmds \<and> transforms L1 L2 n1 n2 cmds"
proof (induction "n1 + n2" arbitrary: n1 n2 res rule: less_induct)
  case less
  show ?case
  proof (cases "n1 = 0 \<and> n2 = 0")
    case True
    then have "cs = res" using less.prems(1) by (simp add: gen_commands.simps [of L2 ch1 ch2 0 0])
    with True transforms_base show ?thesis by auto
  next
    case False
    show ?thesis
    proof (cases "(n1 > 0 \<and> ch1 ! (n1 - 1)) \<or> (n2 > 0 \<and> ch2 ! (n2 - 1))")
      case unchanged: False
      with False less.prems(2) obtain m1 m2 where m: "n1 = Suc m1" "n2 = Suc m2" "L1 ! m1 = L2 ! m2"
        "kept ch1 L1 0 m1 = kept ch2 L2 0 m2" by (auto elim: unchanged_step)
      have "gen_commands L2 ch1 ch2 m1 m2 res = Some cs"
        using less.prems(1) unchanged by (subst (asm) gen_commands.simps) (simp add: m)
      then obtain cmds where "cs = res @ cmds" "transforms L1 L2 m1 m2 cmds"
        using less.hyps [of m1 m2 res] less.prems m by auto
      then show ?thesis using m less.prems(5) by (auto intro: transforms_unchanged)
    next
      case True
      define m1 where "m1 = skip_changed ch1 n1"
      define m2 where "m2 = skip_changed ch2 n2"
      have le: "m1 \<le> n1" "m2 \<le> n2" by (simp_all add: m1_def m2_def skip_changed_le)
      have sm: "m1 + m2 < n1 + n2"
        using True le skip_changed_less [of n1 ch1] skip_changed_less [of n2 ch2] by (fastforce simp: m1_def m2_def)
      have k: "kept ch1 L1 0 m1 = kept ch2 L2 0 m2" using less.prems(2) by (simp add: m1_def m2_def kept_skip)
      have unf: "gen_commands L2 ch1 ch2 n1 n2 res =
         (if m2 = n2 then gen_commands L2 ch1 ch2 m1 m2 (res @ [delete_command m1 n1])
          else if ''.'' \<in> set (drop m2 (take n2 L2)) then None
          else gen_commands L2 ch1 ch2 m1 m2 (res @ insert_command m1 n1 # drop m2 (take n2 L2) @ [''.'']))"
        using False True by (intro gen_commands_unfold) (auto simp: m1_def m2_def)
      note IH = less.hyps [OF sm _ k]
      show ?thesis
      proof (cases "m2 = n2")
        case True
        then obtain cmds where c: "cs = (res @ [delete_command m1 n1]) @ cmds" "transforms L1 L2 m1 m2 cmds"
          using IH [of "res @ [delete_command m1 n1]"] unf less.prems le by auto
        have "m1 < n1" using True sm le by linarith
        then have "transforms L1 L2 n1 n2 ([delete_command m1 n1] @ cmds)"
          using c(2) True less.prems le by (intro transforms_command) (auto simp: delete_command_step)
        with c show ?thesis by auto
      next
        case False
        let ?ls = "drop m2 (take n2 L2)"
        have ls: "''.'' \<notin> set ?ls" using unf False less.prems(1) by (auto split: if_splits)
        then obtain cmds where c: "cs = (res @ insert_command m1 n1 # ?ls @ [''.'']) @ cmds" "transforms L1 L2 m1 m2 cmds"
          using IH [of "res @ insert_command m1 n1 # ?ls @ [''.'']"] unf False less.prems le by auto
        have "?ls \<noteq> []" using False le less.prems(5) by simp
        then have "transforms L1 L2 n1 n2 ((insert_command m1 n1 # ?ls @ [''.'']) @ cmds)"
          using c(2) ls less.prems le by (intro transforms_command) (auto simp: insert_command_step)
        with c show ?thesis by auto
      qed
    qed
  qed
qed

section \<open>The whole diff\<close>

lemma del_from_take: "idx \<le> length cons \<Longrightarrow> del_from cons idx = take idx cons"
proof (induction cons idx rule: del_from.induct)
  case (1 cons idx)
  show ?case
  proof (cases "length cons > idx")
    case True
    have l: "length (del_swap idx cons) = length cons - 1" by (simp add: del_swap_def)
    have "idx \<le> length cons - 1" using True by linarith
    then have "take idx (del_swap idx cons) = take idx cons"
      by (simp add: del_swap_def butlast_conv_take min.absorb1)
    then show ?thesis using "1.IH" [OF True] True l by (subst del_from.simps) simp
  next
    case False
    then show ?thesis using "1.prems" by (subst del_from.simps) simp
  qed
qed

definition first_signature :: "cdline list \<Rightarrow> nat option" where
  "first_signature cons =
     find (\<lambda>idx. line_starts_with_str (cons ! idx) START_OF_SIGNATURES_SECTION) [0..<length cons]"

text \<open>The signatures that are cut off, if there are any, take more than one line.\<close>

definition trailer_ok :: "cdline list \<Rightarrow> bool" where
  "trailer_ok cons = (case first_signature cons of None \<Rightarrow> True | Some k \<Rightarrow> k + 1 < length cons)"

lemma first_signature_less: "first_signature cons = Some k \<Longrightarrow> k < length cons"
  by (auto simp: first_signature_def find_Some_iff)

lemma preprocess_cases:
  "preprocess_consensus cons =
     (case first_signature cons of
        None \<Rightarrow> (cons, None)
      | Some k \<Rightarrow> (take k cons, Some (show_nat (k + 1) @ '',$d'')))"
  using first_signature_less [of cons]
  by (auto simp: preprocess_consensus_def first_signature_def [symmetric] del_from_take split: option.split)

lemma gen_ed_diff_parts:
  assumes "gen_ed_diff L1 L2 = Some d"
  obtains ch1 ch2 where
    "matched (fst (preprocess_consensus L1)) L2 (length (fst (preprocess_consensus L1))) (length L2) ch1 ch2"
    and "gen_commands L2 ch1 ch2 (length (fst (preprocess_consensus L1))) (length L2)
      (case snd (preprocess_consensus L1) of Some l \<Rightarrow> [l] | None \<Rightarrow> []) = Some d"
proof -
  obtain c1 tr where p: "preprocess_consensus L1 = (c1, tr)" by fastforce
  obtain ch1 ch2 where g: "gen_changes c1 L2 (- 1) (- 1) 0 0 ROUTER_ID_ITERATOR_INIT ROUTER_ID_ITERATOR_INIT
      (replicate (length c1) False) (replicate (length L2) False) = Some (ch1, ch2)"
    and c: "gen_commands L2 ch1 ch2 (length c1) (length L2) (case tr of Some l \<Rightarrow> [l] | None \<Rightarrow> []) = Some d"
    using assms by (auto simp: gen_ed_diff_def p Let_def split: option.splits)
  have "matched c1 L2 (length c1) (length L2) ch1 ch2"
    using g by (rule gen_changes_ok) (simp_all add: chunk_at_def matched_def fresh_def)
  with c p that show thesis by simp
qed

lemma kept_take: "n \<le> k \<Longrightarrow> k \<le> length xs \<Longrightarrow> kept ch (take k xs) 0 n = kept ch xs 0 n"
  by (auto simp: kept_def)

lemma gen_apply_ed_diff:
  assumes g: "gen_ed_diff L1 L2 = Some d" and tr: "trailer_ok L1" and len: "length L1 < 2 ^ 31"
  shows "apply_ed_diff L1 d 0 = Some L2"
proof -
  define n1 where "n1 = length (fst (preprocess_consensus L1))"
  obtain ch1 ch2 where m: "matched (fst (preprocess_consensus L1)) L2 n1 (length L2) ch1 ch2"
    and c: "gen_commands L2 ch1 ch2 n1 (length L2) (case snd (preprocess_consensus L1) of Some l \<Rightarrow> [l] | None \<Rightarrow> []) = Some d"
    unfolding n1_def by (rule gen_ed_diff_parts [OF g])
  have n1: "n1 \<le> length L1" and fst: "fst (preprocess_consensus L1) = take n1 L1"
    using first_signature_less [of L1] by (auto simp: n1_def preprocess_cases split: option.splits)
  have "kept ch1 L1 0 n1 = kept ch2 L2 0 (length L2)"
    using m n1 by (simp add: matched_def fst kept_take)
  from gen_commands_ok [OF c this n1 len] obtain cmds where
    d: "d = (case snd (preprocess_consensus L1) of Some l \<Rightarrow> [l] | None \<Rightarrow> []) @ cmds"
    and t: "transforms L1 L2 n1 (length L2) cmds" by auto
  have "apply_loop L1 d (int (length L1)) [] = Some (rev L2)"
  proof (cases "first_signature L1")
    case None
    then have "n1 = length L1" by (simp add: n1_def preprocess_cases)
    then show ?thesis using t d None by (simp add: transforms_def preprocess_cases)
  next
    case (Some k)
    then have k: "n1 = k" "k + 1 < length L1" using tr n1 first_signature_less [OF Some]
      by (auto simp: n1_def preprocess_cases trailer_ok_def)
    have "read_command (int (length L1)) (int (length L1)) (show_nat (k + 1) @ '',$d'') =
        Some \<lparr>ed_start = int k + 1, ed_end = int (length L1), ed_action = CHR ''d''\<rparr>"
      using k len read_trailer [of "k + 1" "int (length L1)" "int (length L1)"] by (simp add: add.commute)
    from apply_delete [OF this, of cmds "[]"] k
    have "apply_loop L1 d (int (length L1)) [] = apply_loop L1 cmds (int n1) []" by (simp add: d Some preprocess_cases)
    then show ?thesis using t n1 by (simp add: transforms_def)
  qed
  then show ?thesis by (simp add: apply_ed_diff_def)
qed

section \<open>Documents as lines\<close>

definition fine_line :: "cdline \<Rightarrow> bool" where
  "fine_line l \<longleftrightarrow> CHR 0x0A \<notin> set l \<and> length l \<le> CONSENSUS_LINE_MAX_LEN"

lemma split_join_lines: "list_all fine_line ls \<Longrightarrow> consensus_split_lines (consensus_join_lines ls) = Some ls"
proof (induction ls)
  case Nil
  then show ?case by (simp add: consensus_join_lines_def consensus_split_lines.simps)
next
  case (Cons l ls)
  let ?rest = "consensus_join_lines ls"
  have j: "consensus_join_lines (l # ls) = l @ CHR 0x0A # ?rest" by (simp add: consensus_join_lines_def)
  have "memchr (l @ CHR 0x0A # ?rest) CHR 0x0A (Suc (length l + length ?rest)) = Some (length l)"
    using Cons.prems by (intro memchr_append) (simp add: fine_line_def)
  then show ?case
    unfolding j using Cons by (subst consensus_split_lines.simps) (simp add: fine_line_def)
qed

lemma memchr_Some:
  assumes "memchr s c n = Some k"
  shows "k < length s" and "s ! k = c" and "c \<notin> set (take k s)"
proof -
  let ?t = "takeWhile (\<lambda>d. d \<noteq> c) (take n s)"
  have k: "k = length ?t" "k < n" "k < length s" using assms by (auto simp: memchr_def Let_def split: if_splits)
  show "k < length s" by (rule k)
  have "take n s ! k = c" using k nth_length_takeWhile [of "\<lambda>d. d \<noteq> c" "take n s"] by simp
  then show "s ! k = c" using k by simp
  have "?t = take k (take n s)" using k(1) by (metis takeWhile_eq_take)
  then have "take k s = ?t" using k by (simp add: min_def)
  then show "c \<notin> set (take k s)" by (auto dest: set_takeWhileD)
qed

lemma consensus_split_join:
  "consensus_split_lines s = Some ls \<Longrightarrow> consensus_join_lines ls = s \<and> list_all fine_line ls"
proof (induction s arbitrary: ls rule: consensus_split_lines.induct)
  case (1 s)
  show ?case
  proof (cases "s = []")
    case True
    then show ?thesis using "1.prems" by (simp add: consensus_split_lines.simps consensus_join_lines_def)
  next
    case False
    obtain eol out where e: "memchr s CHR 0x0A (length s) = Some eol" "\<not> eol > CONSENSUS_LINE_MAX_LEN"
      and o: "consensus_split_lines (drop (eol + 1) s) = Some out" and ls: "ls = take eol s # out"
      using False "1.prems" by (subst (asm) consensus_split_lines.simps) (auto split: option.splits if_splits)
    have "s = take eol s @ CHR 0x0A # drop (eol + 1) s"
      using memchr_Some [OF e(1)] by (metis Suc_eq_plus1 id_take_nth_drop)
    with "1.IH" [OF False e o] memchr_Some [OF e(1)] e(2) show ?thesis
      by (simp add: ls consensus_join_lines_def fine_line_def)
  qed
qed

lemma delete_command_fine: "n < 2 ^ 31 \<Longrightarrow> m < n \<Longrightarrow> fine_line (delete_command m n)"
  using show_nat_length_int [of "m + 1"] show_nat_length_int [of n] show_nat_digits [of "m + 1"] show_nat_digits [of n]
  by (auto simp: fine_line_def delete_command_def CONSENSUS_LINE_MAX_LEN_def list_all_iff is_digit_10_iff)

lemma insert_command_fine: "n < 2 ^ 31 \<Longrightarrow> m \<le> n \<Longrightarrow> fine_line (insert_command m n)"
  using show_nat_length_int [of "m + 1"] show_nat_length_int [of n] show_nat_length_int [of m]
    show_nat_digits [of "m + 1"] show_nat_digits [of n] show_nat_digits [of m]
  by (auto simp: fine_line_def insert_command_def CONSENSUS_LINE_MAX_LEN_def list_all_iff is_digit_10_iff)

lemma gen_commands_fine:
  "gen_commands L2 ch1 ch2 n1 n2 res = Some cs \<Longrightarrow> n1 < 2 ^ 31 \<Longrightarrow> list_all fine_line L2 \<Longrightarrow> list_all fine_line res \<Longrightarrow>
   list_all fine_line cs"
proof (induction "n1 + n2" arbitrary: n1 n2 res rule: less_induct)
  case less
  consider "n1 = 0 \<and> n2 = 0"
    | "n1 \<noteq> 0 \<or> n2 \<noteq> 0" "\<not> ((n1 > 0 \<and> ch1 ! (n1 - 1)) \<or> (n2 > 0 \<and> ch2 ! (n2 - 1)))"
    | "n1 \<noteq> 0 \<or> n2 \<noteq> 0" "(n1 > 0 \<and> ch1 ! (n1 - 1)) \<or> (n2 > 0 \<and> ch2 ! (n2 - 1))" by blast
  then show ?case
  proof cases
    case 1
    then show ?thesis using less.prems by (simp add: gen_commands.simps [of L2 ch1 ch2 0 0])
  next
    case 2
    then have "gen_commands L2 ch1 ch2 (n1 - 1) (n2 - 1) res = Some cs"
      using less.prems(1) by (subst (asm) gen_commands.simps) auto
    moreover have "n1 - 1 + (n2 - 1) < n1 + n2" using 2(1) by linarith
    ultimately show ?thesis using less.hyps [of "n1 - 1" "n2 - 1" res] less.prems by simp
  next
    case 3
    define m1 where "m1 = skip_changed ch1 n1"
    define m2 where "m2 = skip_changed ch2 n2"
    have le: "m1 \<le> n1" "m2 \<le> n2" by (simp_all add: m1_def m2_def skip_changed_le)
    have sm: "m1 + m2 < n1 + n2"
      using 3 le skip_changed_less [of n1 ch1] skip_changed_less [of n2 ch2] by (fastforce simp: m1_def m2_def)
    note unf = gen_commands_unfold [OF 3 m1_def m2_def, of L2 res]
    have ls: "list_all fine_line (drop m2 (take n2 L2))"
      using less.prems(3) by (auto simp: list_all_iff dest!: in_set_dropD in_set_takeD)
    have dot: "fine_line ''.''" by (simp add: fine_line_def CONSENSUS_LINE_MAX_LEN_def)
    show ?thesis
    proof (cases "m2 = n2")
      case True
      then have "list_all fine_line (res @ [delete_command m1 n1])"
        using less.prems sm le delete_command_fine [of n1 m1] by simp
      then show ?thesis using less.hyps [OF sm] less.prems le True unf by simp
    next
      case False
      have "list_all fine_line (res @ insert_command m1 n1 # drop m2 (take n2 L2) @ [''.''])"
        using less.prems le ls dot insert_command_fine [of n1 m1] by simp
      then show ?thesis using less.hyps [OF sm] less.prems le False unf by (simp split: if_splits)
    qed
  qed
qed

lemma trailer_fine: "n < 2 ^ 31 \<Longrightarrow> fine_line (show_nat n @ '',$d'')"
  using show_nat_length_int [of n] show_nat_digits [of n]
  by (auto simp: fine_line_def CONSENSUS_LINE_MAX_LEN_def list_all_iff is_digit_10_iff)

lemma gen_ed_diff_fine:
  assumes g: "gen_ed_diff L1 L2 = Some d" and len: "length L1 < 2 ^ 31" and f: "list_all fine_line L2"
  shows "list_all fine_line d"
proof -
  obtain ch1 ch2 where
    c: "gen_commands L2 ch1 ch2 (length (fst (preprocess_consensus L1))) (length L2)
      (case snd (preprocess_consensus L1) of Some l \<Rightarrow> [l] | None \<Rightarrow> []) = Some d"
    by (rule gen_ed_diff_parts [OF g])
  have "length (fst (preprocess_consensus L1)) < 2 ^ 31"
    using len first_signature_less [of L1] by (auto simp: preprocess_cases split: option.splits)
  moreover have "list_all fine_line (case snd (preprocess_consensus L1) of Some l \<Rightarrow> [l] | None \<Rightarrow> [])"
  proof (cases "first_signature L1")
    case (Some k)
    then have "k + 1 < 2 ^ 31" using first_signature_less [OF Some] len by simp
    then show ?thesis using trailer_fine [of "k + 1"] Some by (simp add: preprocess_cases)
  qed (simp add: preprocess_cases)
  ultimately show ?thesis using c f by (intro gen_commands_fine [OF c]) auto
qed

lemma get_digests_header:
  assumes "length d1 = 32" and "length d2 = 32"
  shows "consdiff_get_digests
    ([ns_diff_version, hash_token @ '' '' @ base16_encode d1 @ '' '' @ base16_encode d2] @ ed) = Some (d1, d2)"
proof -
  let ?line = "hash_token @ CHR '' '' # base16_encode d1 @ CHR '' '' # base16_encode d2"
  have c: "c_str ?line = ?line"
    using base16_encode_chars by (intro c_str_id) (auto simp: hash_token_def)
  have s: "smartlist_split_string ?line (Some '' '') no_flags 4 = Some [hash_token, base16_encode d1, base16_encode d2]"
    using base16_encode_chars by (intro split_three_words) (auto simp: hash_token_def)
  have dec: "base16_decode 32 (base16_encode d) = Some d" if "length d = 32" for d
    using that by (simp add: base16_decode_def base16_encode_length base16_decode_loop_encode)
  show ?thesis
    using c s dec assms
    by (simp add: consdiff_get_digests_def HEX_DIGEST256_LEN_def DIGEST256_LEN_def base16_encode_length Let_def)
qed

lemma header_fine:
  assumes "length d1 = 32" and "length d2 = 32"
  shows "fine_line ns_diff_version" and "fine_line (hash_token @ '' '' @ base16_encode d1 @ '' '' @ base16_encode d2)"
proof -
  show "fine_line ns_diff_version" by (simp add: fine_line_def ns_diff_version_def CONSENSUS_LINE_MAX_LEN_def)
  show "fine_line (hash_token @ '' '' @ base16_encode d1 @ '' '' @ base16_encode d2)"
    using base16_encode_chars [of "CHR 0x0A"] assms
    by (auto simp: fine_line_def hash_token_def CONSENSUS_LINE_MAX_LEN_def base16_encode_length)
qed

lemma split_lines_length: "consensus_split_lines s = Some ls \<Longrightarrow> length ls \<le> length s"
proof -
  assume "consensus_split_lines s = Some ls"
  then have "consensus_join_lines ls = s" using consensus_split_join by blast
  moreover have "length ls \<le> length (consensus_join_lines ls)"
    by (induction ls) (auto simp: consensus_join_lines_def)
  ultimately show ?thesis by simp
qed

lemma generate_parts:
  assumes "consensus_diff_generate dgs dg c1 c2 = Some diff"
  obtains d1 d2 L1 L2 ed where "dgs c1 = Some d1" and "dg c2 = Some d2" and "consensus_split_lines c1 = Some L1"
    and "consensus_split_lines c2 = Some L2" and "gen_ed_diff L1 L2 = Some ed" and "apply_ed_diff L1 ed 0 = Some L2"
    and "diff = consensus_join_lines
      ([ns_diff_version, hash_token @ '' '' @ base16_encode d1 @ '' '' @ base16_encode d2] @ ed)"
  using assms
  by (auto simp: consensus_diff_generate_def consdiff_gen_diff_def split: option.splits if_splits)

section \<open>Longest common subsequences\<close>

fun lcs :: "'a list \<Rightarrow> 'a list \<Rightarrow> nat" where
  "lcs [] ys = 0"
| "lcs (x # xs) [] = 0"
| "lcs (x # xs) (y # ys) = (if x = y then Suc (lcs xs ys) else max (lcs xs (y # ys)) (lcs (x # xs) ys))"

definition is_lcs_length :: "'a list \<Rightarrow> 'a list \<Rightarrow> nat \<Rightarrow> bool" where
  "is_lcs_length xs ys n \<longleftrightarrow>
     (\<exists>zs. subseq zs xs \<and> subseq zs ys \<and> length zs = n) \<and> (\<forall>zs. subseq zs xs \<and> subseq zs ys \<longrightarrow> length zs \<le> n)"

lemma lcs_Nil2 [simp]: "lcs xs [] = 0"
  by (cases xs) simp_all

lemma lcs_exists: "\<exists>zs. subseq zs xs \<and> subseq zs ys \<and> length zs = lcs xs ys"
proof (induction xs ys rule: lcs.induct)
  case (3 x xs y ys)
  show ?case
  proof (cases "x = y")
    case True
    with 3 obtain zs where "subseq zs xs" "subseq zs ys" "length zs = lcs xs ys" by auto
    then show ?thesis using True by (intro exI [of _ "x # zs"]) simp
  next
    case False
    with 3 obtain us vs where "subseq us xs" "subseq us (y # ys)" "length us = lcs xs (y # ys)"
      "subseq vs (x # xs)" "subseq vs ys" "length vs = lcs (x # xs) ys" by auto
    then show ?thesis
      using False by (cases "lcs xs (y # ys) \<le> lcs (x # xs) ys") (auto simp: max_def intro: list_emb_Cons)
  qed
qed auto

lemma lcs_upper: "subseq zs xs \<Longrightarrow> subseq zs ys \<Longrightarrow> length zs \<le> lcs xs ys"
proof (induction xs ys arbitrary: zs rule: lcs.induct)
  case (3 x xs y ys)
  show ?case
  proof (cases zs)
    case (Cons z us)
    show ?thesis
    proof (cases "x = y")
      case True
      show ?thesis
      proof (cases "z = x")
        case z: True
        then have "subseq us xs" "subseq us ys" using "3.prems" Cons True by auto
        then show ?thesis using "3.IH"(1) [OF True] True Cons by simp
      next
        case False
        then have "subseq zs xs" "subseq zs ys" using "3.prems" Cons True by (auto dest: subseq_Cons2_neq)
        then show ?thesis using "3.IH"(1) [OF True] True by fastforce
      qed
    next
      case False
      show ?thesis
      proof (cases "z = x")
        case True
        then have "subseq zs ys" using "3.prems"(2) Cons False by (auto dest: subseq_Cons2_neq)
        then show ?thesis using "3.IH"(3) [OF False "3.prems"(1)] False by simp
      next
        case z: False
        then have "subseq zs xs" using "3.prems"(1) Cons by (auto dest: subseq_Cons2_neq)
        then show ?thesis using "3.IH"(2) [OF False _ "3.prems"(2)] False by fastforce
      qed
    qed
  qed simp
qed auto

lemma lcs_is_lcs_length: "is_lcs_length xs ys (lcs xs ys)"
  using lcs_exists lcs_upper by (auto simp: is_lcs_length_def)

lemma is_lcs_length_rev: "is_lcs_length (rev xs) (rev ys) n \<Longrightarrow> is_lcs_length xs ys n"
  unfolding is_lcs_length_def by (metis length_rev rev_rev_ident subseq_rev)

definition walked :: "slice \<Rightarrow> int \<Rightarrow> cdline list" where
  "walked s direction = map (walk s direction) [0..<sl_len s]"

definition prefix_lcs :: "cdline list \<Rightarrow> cdline list \<Rightarrow> nat \<Rightarrow> nat \<Rightarrow> nat" where
  "prefix_lcs A B i j = lcs (rev (take i A)) (rev (take j B))"

lemma prefix_lcs_simps:
  "prefix_lcs A B i 0 = 0" "prefix_lcs A B 0 j = 0"
  "i < length A \<Longrightarrow> j < length B \<Longrightarrow> prefix_lcs A B (Suc i) (Suc j) =
     (if A ! i = B ! j then prefix_lcs A B i j + 1 else max (prefix_lcs A B (Suc i) j) (prefix_lcs A B i (Suc j)))"
  by (simp_all add: prefix_lcs_def take_Suc_conv_app_nth max.commute)

lemma lcs_row_correct:
  assumes i: "i < length A" and prev: "length prev = sl_len s2 + 1" "\<And>j. j \<le> sl_len s2 \<Longrightarrow> prev ! j = prefix_lcs A (walked s2 dir) i j"
  shows "length (lcs_row (A ! i) s2 dir prev) = sl_len s2 + 1 \<and>
    (\<forall>j\<le> sl_len s2. lcs_row (A ! i) s2 dir prev ! j = prefix_lcs A (walked s2 dir) (Suc i) j)"
proof -
  let ?B = "walked s2 dir"
  let ?f = "\<lambda>j result. result[j + 1 := (if A ! i = walk s2 dir j then prev ! j + 1 else max (result ! j) (prev ! (j + 1)))]"
  have "length (fold ?f [0..<m] prev) = sl_len s2 + 1 \<and>
      (\<forall>j\<le>m. fold ?f [0..<m] prev ! j = prefix_lcs A ?B (Suc i) j) \<and>
      (\<forall>j. m < j \<and> j \<le> sl_len s2 \<longrightarrow> fold ?f [0..<m] prev ! j = prev ! j)" if "m \<le> sl_len s2" for m
    using that
  proof (induction m)
    case 0
    then show ?case using prev by (simp add: prefix_lcs_simps)
  next
    case (Suc m)
    let ?r = "fold ?f [0..<m] prev"
    have IH: "length ?r = sl_len s2 + 1" "\<forall>j\<le>m. ?r ! j = prefix_lcs A ?B (Suc i) j" using Suc by auto
    have "?f m ?r ! Suc m = prefix_lcs A ?B (Suc i) (Suc m)"
      using Suc.prems IH prev i by (simp add: prefix_lcs_simps walked_def)
    then show ?case using Suc IH by (auto simp: nth_list_update le_Suc_eq)
  qed
  from this [of "sl_len s2"] show ?thesis by (simp add: lcs_row_def)
qed

lemma lcs_lengths_prefix:
  assumes "j \<le> sl_len s2"
  shows "lcs_lengths s1 s2 dir ! j = lcs (rev (walked s1 dir)) (rev (take j (walked s2 dir)))"
proof -
  let ?A = "walked s1 dir" and ?B = "walked s2 dir"
  let ?f = "\<lambda>i result. lcs_row (walk s1 dir i) s2 dir result"
  have "length (fold ?f [0..<m] (replicate (sl_len s2 + 1) 0)) = sl_len s2 + 1 \<and>
      (\<forall>j\<le> sl_len s2. fold ?f [0..<m] (replicate (sl_len s2 + 1) 0) ! j = prefix_lcs ?A ?B m j)" if "m \<le> sl_len s1" for m
    using that
  proof (induction m)
    case 0
    then show ?case by (auto simp: prefix_lcs_simps simp del: replicate_Suc)
  next
    case (Suc m)
    then show ?case
      using lcs_row_correct [of m ?A "fold ?f [0..<m] (replicate (sl_len s2 + 1) 0)" s2 dir]
      by (simp add: walked_def del: replicate_Suc)
  qed
  from this [of "sl_len s1"] assms show ?thesis
    by (simp add: lcs_lengths_def prefix_lcs_def walked_def del: replicate_Suc)
qed

definition slice_lines :: "slice \<Rightarrow> cdline list" where
  "slice_lines s = map ((!) (sl_list s)) [sl_offset s..<sl_offset s + sl_len s]"

lemma walked_forwards: "walked s 1 = slice_lines s"
  by (rule nth_equalityI) (simp_all add: walked_def slice_lines_def walk_def)

lemma walked_backwards: "walked s (- 1) = rev (slice_lines s)"
  by (rule nth_equalityI) (auto simp: walked_def slice_lines_def walk_def rev_nth intro!: arg_cong [where f = "(!) (sl_list s)"])

section \<open>Properties\<close>


definition old_lines :: "cdline list" where
  "old_lines = [''a'', ''b'', ''r x AAAA'', ''c'', ''directory-signature x'', ''sig'']"

definition new_lines :: "cdline list" where
  "new_lines = [''a'', ''r x AAAA'', ''d'', ''e'', ''r y BBBB'']"



text \<open>C25: end to end on documents: a diff that was generated, applied to the same base, gives the target
  document, for digest functions that return 32 bytes and a target without NUL bytes.\<close>

theorem consensus_diff_roundtrip:
  assumes "consensus_diff_generate dgs dg cons1 cons2 = Some diff"
    and "\<forall>s d. dgs s = Some d \<or> dg s = Some d \<longrightarrow> length d = 32"
    and "CHR 0x00 \<notin> set cons2" and "length cons1 < 2 ^ 31"
  shows "consensus_diff_apply dgs dg cons1 diff = Some cons2 \<and> looks_like_a_consensus_diff diff"
proof -
  obtain d1 d2 L1 L2 ed where d: "dgs cons1 = Some d1" "dg cons2 = Some d2"
    and L: "consensus_split_lines cons1 = Some L1" "consensus_split_lines cons2 = Some L2"
    and ed: "gen_ed_diff L1 L2 = Some ed" "apply_ed_diff L1 ed 0 = Some L2"
    and diff: "diff = consensus_join_lines
      ([ns_diff_version, hash_token @ '' '' @ base16_encode d1 @ '' '' @ base16_encode d2] @ ed)"
    by (rule generate_parts [OF assms(1)])
  let ?hdr = "[ns_diff_version, hash_token @ '' '' @ base16_encode d1 @ '' '' @ base16_encode d2]"
  have len: "length d1 = 32" "length d2 = 32" using d assms(2) by blast+
  have L2: "consensus_join_lines L2 = cons2" "list_all fine_line L2" using consensus_split_join [OF L(2)] by simp_all
  have "length L1 < 2 ^ 31" using split_lines_length [OF L(1)] assms(4) by simp
  then have "list_all fine_line (?hdr @ ed)"
    using gen_ed_diff_fine [OF ed(1) _ L2(2)] header_fine [OF len] by simp
  then have "consensus_split_lines diff = Some (?hdr @ ed)" unfolding diff by (rule split_join_lines)
  moreover have "consdiff_get_digests (?hdr @ ed) = Some (d1, d2)" by (rule get_digests_header [OF len])
  moreover have "apply_ed_diff L1 (?hdr @ ed) 2 = Some L2" using ed(2) by (simp add: apply_ed_diff_def)
  moreover have "c_str cons2 = cons2" using assms(3) by (rule c_str_id)
  ultimately have "consensus_diff_apply dgs dg cons1 diff = Some cons2"
    using d L(1) L2(1) by (simp add: consensus_diff_apply_def consdiff_apply_diff_def)
  moreover have "looks_like_a_consensus_diff diff"
    by (simp add: diff looks_like_a_consensus_diff_def consensus_join_lines_def)
  ultimately show ?thesis by blast
qed

definition sample_digest :: "string \<Rightarrow> byte list option" where
  "sample_digest s = Some (replicate 31 0 @ [word_of_nat (length s)])"

definition line_end :: string where
  "line_end = [CHR 0x0A]"

theorem consensus_diff_roundtrip_witness:
  "\<exists>diff. consensus_diff_generate sample_digest sample_digest (''a'' @ line_end @ ''b'' @ line_end) (''a'' @ line_end @ ''c'' @ line_end) = Some diff \<and>
     consensus_diff_apply sample_digest sample_digest (''a'' @ line_end @ ''b'' @ line_end) diff = Some (''a'' @ line_end @ ''c'' @ line_end)"
proof -
  let ?c1 = "''a'' @ line_end @ ''b'' @ line_end" and ?c2 = "''a'' @ line_end @ ''c'' @ line_end"
  have s: "consensus_split_lines ?c1 = Some [''a'', ''b'']" "consensus_split_lines ?c2 = Some [''a'', ''c'']"
    using split_join_lines [of "[''a'', ''b'']"] split_join_lines [of "[''a'', ''c'']"]
    by (simp_all add: consensus_join_lines_def line_end_def fine_line_def CONSENSUS_LINE_MAX_LEN_def)
  have e: "gen_ed_diff [''a'', ''b''] [''a'', ''c''] = Some [''2c'', ''c'', ''.'']"
    "apply_ed_diff [''a'', ''b''] [''2c'', ''c'', ''.''] 0 = Some [''a'', ''c'']"
    by code_simp+
  have d: "\<forall>s d. sample_digest s = Some d \<or> sample_digest s = Some d \<longrightarrow> length d = 32" by (auto simp: sample_digest_def)
  obtain diff where g: "consensus_diff_generate sample_digest sample_digest ?c1 ?c2 = Some diff"
    using s e by (simp add: consensus_diff_generate_def consdiff_gen_diff_def sample_digest_def)
  have n: "CHR 0x00 \<notin> set ?c2" "length ?c1 < 2 ^ 31" by (simp_all add: line_end_def)
  from consensus_diff_roundtrip [OF g d n] g show ?thesis by blast
qed

text \<open>C26: whatever diff is offered, a result is returned only if the base has the digest the diff names,
  and the result has the target digest the diff names.\<close>

theorem consensus_diff_apply_authentic:
  assumes "consensus_diff_apply dgs dg consensus diff = Some r"
  shows "\<exists>lines h1 h2. consensus_split_lines diff = Some lines \<and> consdiff_get_digests lines = Some (h1, h2) \<and>
    dgs consensus = Some h1 \<and> dg r = Some h2 \<and> length h1 = 32 \<and> length h2 = 32"
  using assms
  by (auto simp: consensus_diff_apply_def consdiff_apply_diff_def consdiff_get_digests_def DIGEST256_LEN_def Let_def
      split: option.splits if_splits)

theorem consensus_diff_apply_authentic_witness:
  "\<exists>diff. consensus_diff_apply sample_digest sample_digest (''a'' @ line_end) diff = Some (''a'' @ line_end) \<and>
    (\<exists>h2. sample_digest (''a'' @ line_end) = Some h2 \<and> length h2 = 32)"
proof -
  let ?c = "''a'' @ line_end"
  have s: "consensus_split_lines ?c = Some [''a'']"
    using split_join_lines [of "[''a'']"]
    by (simp add: consensus_join_lines_def line_end_def fine_line_def CONSENSUS_LINE_MAX_LEN_def)
  have e: "apply_ed_diff [''a''] [] 0 = Some [''a'']" "c_str ?c = ?c" by code_simp+
  have d: "sample_digest ?c = Some (replicate 31 0 @ [2])" by (simp add: sample_digest_def line_end_def)
  let ?d = "replicate 31 0 @ [2 :: byte]"
  let ?hdr = "[ns_diff_version, hash_token @ '' '' @ base16_encode ?d @ '' '' @ base16_encode ?d]"
  have f: "list_all fine_line ?hdr" using header_fine [of ?d ?d] by simp
  have "consensus_join_lines [''a''] = ?c" by (simp add: consensus_join_lines_def line_end_def)
  then have a: "consensus_diff_apply sample_digest sample_digest ?c (consensus_join_lines ?hdr) = Some ?c"
    using s e d split_join_lines [OF f] get_digests_header [of ?d ?d "[]"]
    by (simp add: consensus_diff_apply_def consdiff_apply_diff_def apply_ed_diff_def)
  from consensus_diff_apply_authentic [OF a] a show ?thesis by blast
qed

text \<open>C27: the table of \<open>lcs_lengths\<close> holds the lengths of the longest common subsequences of the first
  slice with every prefix (walking forwards) or every suffix (walking backwards) of the second.\<close>

theorem lcs_lengths_correct:
  assumes "j \<le> sl_len s2"
  shows "is_lcs_length (slice_lines s1) (take j (slice_lines s2)) (lcs_lengths s1 s2 1 ! j) \<and>
    is_lcs_length (slice_lines s1) (drop (sl_len s2 - j) (slice_lines s2)) (lcs_lengths s1 s2 (- 1) ! j)"
proof
  show "is_lcs_length (slice_lines s1) (take j (slice_lines s2)) (lcs_lengths s1 s2 1 ! j)"
    unfolding lcs_lengths_prefix [OF assms] walked_forwards by (rule is_lcs_length_rev [OF lcs_is_lcs_length])
  have "rev (take j (rev (slice_lines s2))) = drop (sl_len s2 - j) (slice_lines s2)"
    by (simp add: take_rev slice_lines_def)
  then show "is_lcs_length (slice_lines s1) (drop (sl_len s2 - j) (slice_lines s2)) (lcs_lengths s1 s2 (- 1) ! j)"
    unfolding lcs_lengths_prefix [OF assms] walked_backwards by (simp add: lcs_is_lcs_length)
qed

theorem lcs_lengths_correct_witness:
  "lcs_lengths (smartlist_slice [''a'', ''b'', ''c''] 0 3) (smartlist_slice [''b'', ''x'', ''c''] 0 3) 1 = [0, 1, 1, 2] \<and>
   is_lcs_length [''a'', ''b'', ''c''] [''b'', ''x'', ''c''] 2"
proof -
  let ?s1 = "smartlist_slice [''a'', ''b'', ''c''] 0 3" and ?s2 = "smartlist_slice [''b'', ''x'', ''c''] 0 3"
  have l: "lcs_lengths ?s1 ?s2 1 = [0, 1, 1, 2]" "slice_lines ?s1 = [''a'', ''b'', ''c'']" "slice_lines ?s2 = [''b'', ''x'', ''c'']"
    by code_simp+
  have "is_lcs_length (slice_lines ?s1) (take 3 (slice_lines ?s2)) (lcs_lengths ?s1 ?s2 1 ! 3)"
    using lcs_lengths_correct [of 3 ?s2 ?s1] by simp
  then show ?thesis unfolding l by simp
qed

end
