(* ===== verification/Pqueue.thy ===== *)
theory Pqueue
  imports Smartlist
begin

text \<open>
  The binary heap of tor/lib/smartlist.c (\<open>smartlist_pqueue_add\<close>, \<open>_pop\<close>, \<open>_remove\<close>) over the
  growable array of Smartlist. Each item stores its own position; the record below keeps that field
  for every item beside the array. The comparison function is a parameter with the contract
  \<open>comparator\<close>; the queue's own contract to its users is the locale \<open>priority_queue\<close>.
\<close>

section \<open>Operations\<close>

record 'a pqueue =
  heap :: "'a smartlist"
  heap_idx :: "'a \<Rightarrow> int"

type_synonym 'a compare = "'a \<Rightarrow> 'a \<Rightarrow> int"

definition item :: "'a pqueue \<Rightarrow> nat \<Rightarrow> 'a" where
  "item q i = the (lst (heap q) ! i)"

definition qlen :: "'a pqueue \<Rightarrow> nat" where
  "qlen q = num_used (heap q)"

definition MAX_PARENT_IDX :: int where
  "MAX_PARENT_IDX = (INT_MAX - 2) div 2"

definition LEFT_CHILD :: "nat \<Rightarrow> nat" where
  "LEFT_CHILD i = 2 * i + 1"

definition PARENT :: "nat \<Rightarrow> nat" where
  "PARENT i = (i - 1) div 2"

definition UPDATE_IDX :: "nat \<Rightarrow> 'a pqueue \<Rightarrow> 'a pqueue" where
  "UPDATE_IDX i q = q\<lparr>heap_idx := (heap_idx q)(item q i := int i)\<rparr>"

text \<open>The exchange of two entries both sifting loops contain.\<close>

definition swap_items :: "nat \<Rightarrow> nat \<Rightarrow> 'a pqueue \<Rightarrow> 'a pqueue" where
  "swap_items i j q =
     UPDATE_IDX j (UPDATE_IDX i
       (q\<lparr>heap := (heap q)\<lparr>lst := (lst (heap q))[i := lst (heap q) ! j, j := lst (heap q) ! i]\<rparr>\<rparr>))"

definition best_idx :: "'a compare \<Rightarrow> 'a pqueue \<Rightarrow> nat \<Rightarrow> nat" where
  "best_idx cmp q idx =
     (let left_idx = LEFT_CHILD idx;
          best = (if cmp (item q idx) (item q left_idx) < 0 then idx else left_idx)
      in if left_idx + 1 < qlen q \<and> cmp (item q (left_idx + 1)) (item q best) < 0
         then left_idx + 1 else best)"

lemma best_idx_gt: "best_idx cmp q idx \<noteq> idx \<Longrightarrow> idx < best_idx cmp q idx"
  by (auto simp: best_idx_def Let_def LEFT_CHILD_def split: if_splits)

lemma best_idx_cases: "best_idx cmp q idx \<in> {idx, 2 * idx + 1, 2 * idx + 2}"
  by (simp add: best_idx_def Let_def LEFT_CHILD_def)

lemma qlen_swap [simp]: "qlen (swap_items i j q) = qlen q"
  by (simp add: swap_items_def UPDATE_IDX_def qlen_def)

function smartlist_heapify :: "'a compare \<Rightarrow> nat \<Rightarrow> 'a pqueue \<Rightarrow> 'a pqueue" where
  "smartlist_heapify cmp idx q =
     (if \<not> int idx \<le> MAX_PARENT_IDX then q
      else if LEFT_CHILD idx \<ge> qlen q then q
      else let best = best_idx cmp q idx in
           if best = idx then q else smartlist_heapify cmp best (swap_items idx best q))"
  by pat_completeness auto
termination
  by (relation "measure (\<lambda>(cmp, idx, q). qlen q - idx)")
    (auto simp: LEFT_CHILD_def intro!: diff_less_mono2 best_idx_gt)

declare smartlist_heapify.simps [simp del]

function sift_up :: "'a compare \<Rightarrow> nat \<Rightarrow> 'a pqueue \<Rightarrow> 'a pqueue" where
  "sift_up cmp idx q =
     (if idx \<noteq> 0 then
        if cmp (item q idx) (item q (PARENT idx)) < 0
        then sift_up cmp (PARENT idx) (swap_items (PARENT idx) idx q)
        else q
      else q)"
  by pat_completeness auto
termination by (relation "measure (\<lambda>(cmp, idx, q). idx)") (auto simp: PARENT_def)

declare sift_up.simps [simp del]

definition smartlist_pqueue_add :: "'a compare \<Rightarrow> 'a \<Rightarrow> 'a pqueue \<Rightarrow> 'a pqueue option" where
  "smartlist_pqueue_add cmp x q =
     (case smartlist_add (heap q) (Some x) of
        None \<Rightarrow> None
      | Some sl \<Rightarrow> let q = UPDATE_IDX (num_used sl - 1) (q\<lparr>heap := sl\<rparr>)
                   in Some (sift_up cmp (qlen q - 1) q))"

definition set_heap :: "'a option list \<Rightarrow> nat \<Rightarrow> 'a pqueue \<Rightarrow> 'a pqueue" where
  "set_heap l n q = q\<lparr>heap := (heap q)\<lparr>lst := l, num_used := n\<rparr>\<rparr>"

definition smartlist_pqueue_pop :: "'a compare \<Rightarrow> 'a pqueue \<Rightarrow> ('a \<times> 'a pqueue) option" where
  "smartlist_pqueue_pop cmp q =
     (if qlen q = 0 then None
      else let top_item = item q 0; n = qlen q - 1;
               q = q\<lparr>heap_idx := (heap_idx q)(top_item := - 1)\<rparr>;
               q = (if n \<noteq> 0
                    then smartlist_heapify cmp 0
                           (UPDATE_IDX 0 (set_heap ((lst (heap q))[0 := lst (heap q) ! n, n := None]) n q))
                    else set_heap (lst (heap q)) n q)
           in Some (top_item, set_heap ((lst (heap q))[qlen q := None]) (qlen q) q))"

definition smartlist_pqueue_remove :: "'a compare \<Rightarrow> 'a \<Rightarrow> 'a pqueue \<Rightarrow> 'a pqueue option" where
  "smartlist_pqueue_remove cmp x q =
     (let idx = heap_idx q x in
      if \<not> (idx \<ge> 0 \<and> nat idx < capacity (heap q) \<and> lst (heap q) ! nat idx = Some x) then None
      else let n = qlen q - 1;
               q = q\<lparr>heap_idx := (heap_idx q)(x := - 1)\<rparr>
           in if nat idx = n then Some (set_heap ((lst (heap q))[n := None]) n q)
              else Some (smartlist_heapify cmp (nat idx)
                     (UPDATE_IDX (nat idx)
                        (set_heap ((lst (heap q))[nat idx := lst (heap q) ! n, n := None]) n q))))"

definition smartlist_pqueue_assert_ok :: "'a compare \<Rightarrow> 'a pqueue \<Rightarrow> bool" where
  "smartlist_pqueue_assert_ok cmp q \<longleftrightarrow>
     list_all (\<lambda>i. (i > 0 \<longrightarrow> cmp (item q (PARENT i)) (item q i) \<le> 0) \<and>
                   heap_idx q (item q i) = int i) (rev [0..<qlen q])"

definition pqueue_new :: "'a pqueue" where
  "pqueue_new = \<lparr>heap = smartlist_new, heap_idx = (\<lambda>_. - 1)\<rparr>"

section \<open>Representation\<close>

text \<open>A queue holds distinct, non-NULL items, each with its own position stored in it.\<close>

definition rep_ok :: "'a pqueue \<Rightarrow> bool" where
  "rep_ok q \<longleftrightarrow> wf_smartlist (heap q) \<and> None \<notin> set (elems (heap q)) \<and> distinct (elems (heap q)) \<and>
     (\<forall>i<qlen q. heap_idx q (item q i) = int i)"

definition items :: "'a pqueue \<Rightarrow> 'a multiset" where
  "items q = image_mset the (mset (elems (heap q)))"

lemma rep_okD:
  assumes "rep_ok q"
  shows "wf_smartlist (heap q)" and "length (elems (heap q)) = qlen q" and "distinct (elems (heap q))"
    and "i < qlen q \<Longrightarrow> lst (heap q) ! i = Some (item q i)"
    and "i < qlen q \<Longrightarrow> heap_idx q (item q i) = int i"
    and "i < qlen q \<Longrightarrow> j < qlen q \<Longrightarrow> item q i = item q j \<longleftrightarrow> i = j"
proof -
  show w: "wf_smartlist (heap q)" and d: "distinct (elems (heap q))"
    and ix: "i < qlen q \<Longrightarrow> heap_idx q (item q i) = int i" for i
    using assms by (auto simp: rep_ok_def)
  show len: "length (elems (heap q)) = qlen q" using w by (simp add: qlen_def)
  show s: "lst (heap q) ! i = Some (item q i)" if "i < qlen q" for i
  proof -
    have "elems (heap q) ! i \<noteq> None" using assms that len by (metis nth_mem rep_ok_def)
    then show ?thesis using that by (auto simp: item_def nth_elems qlen_def)
  qed
  show "i < qlen q \<Longrightarrow> j < qlen q \<Longrightarrow> item q i = item q j \<longleftrightarrow> i = j"
    using ix by (metis of_nat_eq_iff)
qed

lemma items_conv: "rep_ok q \<Longrightarrow> items q = mset (map (item q) [0..<qlen q])"
proof -
  assume r: "rep_ok q"
  have "map the (elems (heap q)) = map (item q) [0..<qlen q]"
    using rep_okD(2,4) [OF r] by (auto intro!: nth_equalityI simp: item_def nth_elems qlen_def)
  then show ?thesis by (simp add: items_def flip: mset_map)
qed

lemma size_items: "rep_ok q \<Longrightarrow> size (items q) = qlen q"
  by (simp add: items_conv)

lemma lst_swap: "lst (heap (swap_items i j q)) = (lst (heap q))[i := lst (heap q) ! j, j := lst (heap q) ! i]"
  and num_used_swap: "num_used (heap (swap_items i j q)) = num_used (heap q)"
  and capacity_swap: "capacity (heap (swap_items i j q)) = capacity (heap q)"
  by (simp_all add: swap_items_def UPDATE_IDX_def)

lemma item_swap:
  assumes "rep_ok q" and "i < qlen q" and "j < qlen q"
  shows "item (swap_items i j q) k = (if k = i then item q j else if k = j then item q i else item q k)"
proof -
  have "i < length (lst (heap q))" "j < length (lst (heap q))"
    using assms wf_smartlistD(1,2) [OF rep_okD(1) [OF assms(1)]] by (auto simp: qlen_def)
  then show ?thesis by (simp add: item_def lst_swap nth_list_update)
qed

lemma heap_idx_swap:
  assumes "rep_ok q" and "i < qlen q" and "j < qlen q"
  shows "heap_idx (swap_items i j q) = (heap_idx q)(item q j := int i, item q i := int j)"
proof -
  have "i < length (lst (heap q))" "j < length (lst (heap q))"
    using assms wf_smartlistD(1,2) [OF rep_okD(1) [OF assms(1)]] by (auto simp: qlen_def)
  then show ?thesis
    by (cases "i = j") (auto simp: swap_items_def UPDATE_IDX_def item_def nth_list_update)
qed

lemma elems_swap:
  assumes "rep_ok q" and "i < qlen q" and "j < qlen q"
  shows "elems (heap (swap_items i j q)) =
    (elems (heap q))[i := elems (heap q) ! j, j := elems (heap q) ! i]"
  using assms by (simp add: elems_def lst_swap num_used_swap take_update_swap qlen_def)

lemma swap_items_rep:
  assumes r: "rep_ok q" and ij: "i < qlen q" "j < qlen q"
  shows "rep_ok (swap_items i j q)" and "items (swap_items i j q) = items q"
proof -
  let ?q = "swap_items i j q"
  have len: "length (elems (heap q)) = qlen q" by (rule rep_okD(2) [OF r])
  have m: "mset (elems (heap ?q)) = mset (elems (heap q))"
    using ij len by (simp add: elems_swap [OF assms] mset_swap)
  then show "items ?q = items q" by (simp add: items_def)
  have w: "wf_smartlist (heap q)" by (rule rep_okD(1) [OF r])
  have "lst (heap ?q) = elems (heap ?q) @ replicate (capacity (heap ?q) - num_used (heap ?q)) None"
    using ij len by (simp add: elems_swap [OF assms] lst_swap capacity_swap num_used_swap wf_lst [OF w]
        nth_append list_update_append)
  then have "wf_smartlist (heap ?q)"
    using wf_smartlistI(1) [of "heap ?q" "elems (heap ?q)"] w len
    by (simp add: capacity_swap num_used_swap elems_swap [OF assms] qlen_def)
  moreover have "None \<notin> set (elems (heap ?q))" "distinct (elems (heap ?q))"
    using r m by (metis mset_eq_setD mset_eq_imp_distinct_iff rep_ok_def)+
  moreover have "heap_idx ?q (item ?q k) = int k" if "k < qlen q" for k
    using that ij rep_okD(5,6) [OF r] by (simp add: item_swap [OF assms] heap_idx_swap [OF assms])
  ultimately show "rep_ok ?q" by (simp add: rep_ok_def)
qed

section \<open>The comparison and the heap order\<close>

text \<open>What the queue needs of a comparison function: it is antisymmetric up to ties, and transitive.\<close>

locale comparator =
  fixes cmp :: "'a compare"
  assumes cmp_sym: "cmp a b < 0 \<longleftrightarrow> 0 < cmp b a"
    and cmp_trans: "cmp a b \<le> 0 \<Longrightarrow> cmp b c \<le> 0 \<Longrightarrow> cmp a c \<le> 0"
begin

lemma cmp_total: "\<not> cmp a b < 0 \<Longrightarrow> cmp b a \<le> 0"
  using cmp_sym [of a b] by linarith

lemma cmp_refl: "cmp a a \<le> 0"
  using cmp_sym [of a a] by linarith

end

definition in_order :: "'a compare \<Rightarrow> 'a pqueue \<Rightarrow> nat \<Rightarrow> bool" where
  "in_order cmp q j \<longleftrightarrow> cmp (item q (PARENT j)) (item q j) \<le> 0"

definition heap_ordered :: "'a compare \<Rightarrow> 'a pqueue \<Rightarrow> bool" where
  "heap_ordered cmp q \<longleftrightarrow> (\<forall>j. 0 < j \<and> j < qlen q \<longrightarrow> in_order cmp q j)"

text \<open>Ordered but for one entry: towards its children while sifting down, towards its parent while
  sifting up. Either way its parent is in order with its children.\<close>

definition bridged :: "'a compare \<Rightarrow> 'a pqueue \<Rightarrow> nat \<Rightarrow> bool" where
  "bridged cmp q i \<longleftrightarrow> (\<forall>j. 0 < j \<and> j < qlen q \<and> PARENT j = i \<and> 0 < i \<longrightarrow>
     cmp (item q (PARENT i)) (item q j) \<le> 0)"

definition ordered_but_below :: "'a compare \<Rightarrow> 'a pqueue \<Rightarrow> nat \<Rightarrow> bool" where
  "ordered_but_below cmp q i \<longleftrightarrow>
     (\<forall>j. 0 < j \<and> j < qlen q \<and> PARENT j \<noteq> i \<longrightarrow> in_order cmp q j) \<and> bridged cmp q i"

definition ordered_but_above :: "'a compare \<Rightarrow> 'a pqueue \<Rightarrow> nat \<Rightarrow> bool" where
  "ordered_but_above cmp q i \<longleftrightarrow>
     (\<forall>j. 0 < j \<and> j < qlen q \<and> j \<noteq> i \<longrightarrow> in_order cmp q j) \<and> bridged cmp q i"

lemma PARENT_less: "0 < j \<Longrightarrow> PARENT j < j"
  by (simp add: PARENT_def)

lemma PARENT_eq_iff: "0 < j \<Longrightarrow> PARENT j = i \<longleftrightarrow> j = 2 * i + 1 \<or> j = 2 * i + 2"
  by (auto simp: PARENT_def)

context comparator
begin

lemma best_idx_min:
  assumes "LEFT_CHILD i < qlen q"
  shows "best_idx cmp q i < qlen q"
    and "0 < j \<Longrightarrow> j < qlen q \<Longrightarrow> PARENT j = i \<Longrightarrow> cmp (item q (best_idx cmp q i)) (item q j) \<le> 0"
    and "cmp (item q (best_idx cmp q i)) (item q i) \<le> 0"
proof -
  let ?x = "item q i" and ?l = "item q (2 * i + 1)" and ?r = "item q (2 * i + 2)"
  have facts: "cmp ?x ?l < 0 \<or> cmp ?l ?x \<le> 0" "cmp ?r ?x < 0 \<or> cmp ?x ?r \<le> 0" "cmp ?r ?l < 0 \<or> cmp ?l ?r \<le> 0"
    "cmp ?r ?l \<le> 0 \<Longrightarrow> cmp ?l ?x \<le> 0 \<Longrightarrow> cmp ?r ?x \<le> 0" "cmp ?r ?x \<le> 0 \<Longrightarrow> cmp ?x ?l \<le> 0 \<Longrightarrow> cmp ?r ?l \<le> 0"
    "cmp ?x ?x \<le> 0" "cmp ?l ?l \<le> 0" "cmp ?r ?r \<le> 0"
    using cmp_total cmp_refl cmp_trans by blast+
  show "best_idx cmp q i < qlen q" using assms by (auto simp: best_idx_def Let_def LEFT_CHILD_def)
  show "cmp (item q (best_idx cmp q i)) (item q i) \<le> 0"
    using facts by (auto simp: best_idx_def Let_def LEFT_CHILD_def split: if_splits)
  show "cmp (item q (best_idx cmp q i)) (item q j) \<le> 0" if "0 < j" "j < qlen q" "PARENT j = i"
    using facts that by (auto simp: PARENT_eq_iff best_idx_def Let_def LEFT_CHILD_def split: if_splits)
qed

end

context comparator
begin

lemma sift_down_step:
  assumes r: "rep_ok q" and o: "ordered_but_below cmp q i" and l: "LEFT_CHILD i < qlen q"
    and b: "b = best_idx cmp q i" "b \<noteq> i"
  shows "ordered_but_below cmp (swap_items i b q) b"
proof -
  have bl: "b < qlen q" and bi: "i < b" "PARENT b = i" "0 < b"
    using best_idx_min(1) [OF l] best_idx_gt [of cmp q i] best_idx_cases [of cmp q i] b by (auto simp: PARENT_def)
  note it = item_swap [OF r less_trans [OF bi(1) bl] bl]
  have below: "cmp (item q b) (item q j) \<le> 0" if "0 < j" "j < qlen q" "PARENT j = i" for j
    using best_idx_min(2) [OF l] that b by simp
  have "in_order cmp (swap_items i b q) j" if j: "0 < j" "j < qlen q" "PARENT j \<noteq> b" for j
  proof -
    have p: "PARENT j < j" using PARENT_less j by simp
    consider "j = i" | "j = b" | "j \<noteq> i" "j \<noteq> b" "PARENT j = i" | "j \<noteq> i" "j \<noteq> b" "PARENT j \<noteq> i" by blast
    then have "cmp (item (swap_items i b q) (PARENT j)) (item (swap_items i b q) j) \<le> 0"
    proof cases
      case 1
      have "cmp (item q (PARENT i)) (item q b) \<le> 0" using o bi bl j 1 by (auto simp: ordered_but_below_def bridged_def)
      then show ?thesis using 1 p j(3) bi(1) by (simp add: it)
    next
      case 2
      then show ?thesis using bi best_idx_min(3) [OF l] by (simp add: it flip: b(1))
    next
      case 3
      then show ?thesis using below [OF j(1,2)] by (simp add: it)
    next
      case 4
      then have "cmp (item q (PARENT j)) (item q j) \<le> 0" using o j by (auto simp: ordered_but_below_def in_order_def)
      then show ?thesis using 4 j(3) by (simp add: it)
    qed
    then show ?thesis by (simp add: in_order_def)
  qed
  moreover have "bridged cmp (swap_items i b q) b"
    unfolding bridged_def
  proof (intro allI impI, elim conjE)
    fix j assume j: "0 < j" "j < qlen (swap_items i b q)" "PARENT j = b"
    have "b < j" using PARENT_less [OF j(1)] j by simp
    moreover have "cmp (item q b) (item q j) \<le> 0"
      using o j bi by (auto simp: ordered_but_below_def in_order_def)
    ultimately show "cmp (item (swap_items i b q) (PARENT b)) (item (swap_items i b q) j) \<le> 0"
      using bi unfolding it by simp
  qed
  ultimately show ?thesis by (simp add: ordered_but_below_def)
qed

lemma sift_down_done:
  assumes o: "ordered_but_below cmp q i"
    and l: "qlen q \<le> LEFT_CHILD i \<or> best_idx cmp q i = i"
  shows "heap_ordered cmp q"
proof -
  have "in_order cmp q j" if j: "0 < j" "j < qlen q" "PARENT j = i" for j
  proof (cases "qlen q \<le> LEFT_CHILD i")
    case True
    then show ?thesis using j by (auto simp: PARENT_eq_iff LEFT_CHILD_def)
  next
    case False
    then show ?thesis using best_idx_min(2) [of i q j] l j by (simp add: in_order_def)
  qed
  then show ?thesis using o by (auto simp: heap_ordered_def ordered_but_below_def)
qed

lemma heapify_correct:
  assumes "rep_ok q" and "ordered_but_below cmp q i"
  shows "rep_ok (smartlist_heapify cmp i q) \<and> heap_ordered cmp (smartlist_heapify cmp i q) \<and>
    items (smartlist_heapify cmp i q) = items q"
  using assms
proof (induction "qlen q - i" arbitrary: i q rule: less_induct)
  case less
  have cap: "qlen q \<le> nat INT_MAX"
    using wf_smartlistD(5) [OF rep_okD(1) [OF less.prems(1)]] by (simp add: qlen_def MAX_CAPACITY_def)
  show ?case
  proof (cases "LEFT_CHILD i < qlen q \<and> best_idx cmp q i \<noteq> i")
    case True
    let ?b = "best_idx cmp q i"
    have b: "?b < qlen q" "i < ?b" using True best_idx_min(1) best_idx_gt by auto
    have m: "int i \<le> MAX_PARENT_IDX" using True cap by (auto simp: MAX_PARENT_IDX_def LEFT_CHILD_def INT_MAX_def)
    have s: "rep_ok (swap_items i ?b q)" "items (swap_items i ?b q) = items q"
      using swap_items_rep [OF less.prems(1), of i ?b] b by auto
    have "smartlist_heapify cmp i q = smartlist_heapify cmp ?b (swap_items i ?b q)"
      using True m by (subst smartlist_heapify.simps) (simp add: Let_def)
    moreover have "ordered_but_below cmp (swap_items i ?b q) ?b"
      using sift_down_step less.prems True by auto
    ultimately show ?thesis using less.hyps [of "swap_items i ?b q" ?b] s b by (simp add: diff_less_mono2)
  next
    case False
    then have "smartlist_heapify cmp i q = q" by (subst smartlist_heapify.simps) (auto simp: not_less)
    then show ?thesis using less.prems sift_down_done [of q i] False by (auto simp: not_less)
  qed
qed

lemma sift_up_step:
  assumes r: "rep_ok q" and o: "ordered_but_above cmp q i" and i: "0 < i" "i < qlen q"
    and c: "cmp (item q i) (item q (PARENT i)) < 0"
  shows "ordered_but_above cmp (swap_items (PARENT i) i q) (PARENT i)"
proof -
  let ?p = "PARENT i"
  have p: "?p < i" using i PARENT_less by simp
  note it = item_swap [OF r less_trans [OF p i(2)] i(2)]
  have le: "cmp (item q i) (item q ?p) \<le> 0" using c by simp
  have sib: "cmp (item q ?p) (item q j) \<le> 0" if "0 < j" "j < qlen q" "j \<noteq> i" "PARENT j = ?p" for j
    using o that by (auto simp: ordered_but_above_def in_order_def)
  have "in_order cmp (swap_items ?p i q) j" if j: "0 < j" "j < qlen q" "j \<noteq> ?p" for j
  proof -
    have pj: "PARENT j < j" using PARENT_less j by simp
    have "cmp (item q i) (item q j) \<le> 0" if "j \<noteq> i" "PARENT j = ?p" using cmp_trans [OF le sib] j that by blast
    then show ?thesis using o j p pj le i unfolding in_order_def it ordered_but_above_def bridged_def
      by (cases "j = i"; cases "PARENT j = i"; cases "PARENT j = ?p") auto
  qed
  moreover have "bridged cmp (swap_items ?p i q) ?p"
    unfolding bridged_def
  proof (intro allI impI, elim conjE)
    fix j assume j: "0 < j" "j < qlen (swap_items ?p i q)" "PARENT j = ?p" "0 < ?p"
    have pp: "PARENT ?p < ?p" using j PARENT_less by simp
    have a: "cmp (item q (PARENT ?p)) (item q ?p) \<le> 0" using o j p i by (auto simp: ordered_but_above_def in_order_def)
    moreover have "j \<noteq> ?p" using j PARENT_less [of j] by auto
    ultimately show "cmp (item (swap_items ?p i q) (PARENT ?p)) (item (swap_items ?p i q) j) \<le> 0"
      using cmp_trans [OF a sib [of j]] j pp p unfolding it by auto
  qed
  ultimately show ?thesis by (simp add: ordered_but_above_def)
qed

lemma sift_up_correct:
  assumes "rep_ok q" and "ordered_but_above cmp q i" and "i < qlen q"
  shows "rep_ok (sift_up cmp i q) \<and> heap_ordered cmp (sift_up cmp i q) \<and> items (sift_up cmp i q) = items q"
  using assms
proof (induction i arbitrary: q rule: less_induct)
  case (less i)
  show ?case
  proof (cases "i \<noteq> 0 \<and> cmp (item q i) (item q (PARENT i)) < 0")
    case True
    have p: "PARENT i < i" using True PARENT_less by simp
    have s: "rep_ok (swap_items (PARENT i) i q)" "items (swap_items (PARENT i) i q) = items q"
      using swap_items_rep [OF less.prems(1), of "PARENT i" i] p less.prems by auto
    have "sift_up cmp i q = sift_up cmp (PARENT i) (swap_items (PARENT i) i q)"
      using True by (subst sift_up.simps) simp
    then show ?thesis using less.IH [OF p s(1)] sift_up_step [of q i] s less.prems True p by simp
  next
    case False
    then have "sift_up cmp i q = q" by (subst sift_up.simps) auto
    moreover have "0 < i \<Longrightarrow> in_order cmp q i" using False cmp_total by (auto simp: in_order_def)
    then have "heap_ordered cmp q" using less.prems by (auto simp: heap_ordered_def ordered_but_above_def)
    ultimately show ?thesis using less.prems by simp
  qed
qed

text \<open>The root of an ordered heap comes first.\<close>

lemma heap_root_min:
  assumes "heap_ordered cmp q" and "j < qlen q"
  shows "cmp (item q 0) (item q j) \<le> 0"
  using assms(2)
proof (induction j rule: less_induct)
  case (less j)
  show ?case
  proof (cases "j = 0")
    case False
    then have p: "PARENT j < j" using PARENT_less by simp
    then have "cmp (item q 0) (item q (PARENT j)) \<le> 0" using less by simp
    moreover have "cmp (item q (PARENT j)) (item q j) \<le> 0"
      using assms(1) False less.prems by (auto simp: heap_ordered_def in_order_def)
    ultimately show ?thesis by (rule cmp_trans)
  qed (simp add: cmp_refl)
qed

end

section \<open>Adding and removing\<close>

lemma pqueue_new_ok:
  fixes q :: "'a pqueue"
  assumes "q = pqueue_new"
  shows "rep_ok q" "heap_ordered cmp q" "items q = {#}"
proof -
  have "elems (heap q) = []" "qlen q = 0" "wf_smartlist (heap q)"
    by (simp_all add: assms pqueue_new_def elems_new qlen_def smartlist_new_wf) (simp add: smartlist_new_def)
  then show "rep_ok q" "heap_ordered cmp q" "items q = {#}"
    by (simp_all add: rep_ok_def heap_ordered_def items_def)
qed

lemma item_in_items: "rep_ok q \<Longrightarrow> x \<in># items q \<longleftrightarrow> (\<exists>i<qlen q. x = item q i)"
  by (auto simp: items_conv)

lemma removed_elems:
  assumes r: "rep_ok q" and k: "k < qlen q" and m: "mset es = mset (elems (heap q)) - {#elems (heap q) ! k#}"
  shows "image_mset the (mset es) = items q - {#item q k#}" and "distinct es" and "None \<notin> set es"
proof -
  have e: "elems (heap q) ! k = Some (item q k)" "elems (heap q) ! k \<in># mset (elems (heap q))"
    using rep_okD(2) [OF r] rep_okD(4) [OF r k] k nth_mem [of k "elems (heap q)"]
    by (simp_all add: nth_elems qlen_def)
  then show "image_mset the (mset es) = items q - {#item q k#}"
    by (simp add: m items_def image_mset_Diff mset_subset_eq_single)
  have "mset (elems (heap q)) = mset (elems (heap q) ! k # es)" using e(2) m by simp
  then have "distinct (elems (heap q) ! k # es)" "set es \<subseteq> set (elems (heap q))"
    using rep_okD(3) [OF r] by (metis mset_eq_imp_distinct_iff, metis mset_eq_setD set_subset_Cons)
  then show "distinct es" "None \<notin> set es" using r by (auto simp: rep_ok_def)
qed

text \<open>Overwriting entry \<open>i\<close> with the last one and dropping that: what popping and removing start with.\<close>

definition move_last :: "nat \<Rightarrow> 'a pqueue \<Rightarrow> 'a pqueue" where
  "move_last i q =
     (let n = qlen q - 1; q = q\<lparr>heap_idx := (heap_idx q)(item q i := - 1)\<rparr>
      in UPDATE_IDX i (set_heap ((lst (heap q))[i := lst (heap q) ! n, n := None]) n q))"

lemma move_last_rep:
  assumes r: "rep_ok q" and n: "qlen q = Suc n" and i: "i < n"
  shows "rep_ok (move_last i q)" and "items (move_last i q) = items q - {#item q i#}"
    and "qlen (move_last i q) = n"
    and "k < n \<Longrightarrow> item (move_last i q) k = (if k = i then item q n else item q k)"
    and "heap_idx (move_last i q) (item q i) = - 1"
proof -
  let ?q = "move_last i q" and ?xs = "elems (heap q)"
  note rep = rep_okD [OF r]
  have f: "num_used (heap ?q) = num_used (heap q) - 1" "capacity (heap ?q) = capacity (heap q)"
    "lst (heap ?q) = (lst (heap q))[i := lst (heap q) ! (num_used (heap q) - 1), num_used (heap q) - 1 := None]"
    by (simp_all add: move_last_def Let_def UPDATE_IDX_def set_heap_def qlen_def)
  have d: "wf_smartlist (heap ?q) \<and> elems (heap ?q) = del_swap i ?xs"
    by (rule del_state [OF rep(1)]) (use f n i in \<open>simp_all add: qlen_def\<close>)
  show q: "qlen ?q = n" using f n by (simp add: qlen_def)
  have m: "mset (elems (heap ?q)) = mset ?xs - {#?xs ! i#}" using d rep(2) n i by (simp add: mset_del_swap)
  note rm = removed_elems [OF r _ m]
  show "items ?q = items q - {#item q i#}" using rm(1) n i by (simp add: items_def [of ?q])
  have ne: "?xs \<noteq> []" using rep(2) n by auto
  then have lasti: "last ?xs = Some (item q n)"
    using rep(2) rep(4) [of n] n by (simp add: last_conv_nth nth_elems qlen_def)
  show it: "item ?q k = (if k = i then item q n else item q k)" if "k < n" for k
  proof -
    have "item ?q k = the (elems (heap ?q) ! k)" using that q by (simp add: item_def nth_elems qlen_def)
    then show ?thesis using d that rep(2) n lasti ne by (simp add: nth_del_swap) (simp add: item_def nth_elems qlen_def)
  qed
  let ?l = "(lst (heap q))[i := lst (heap q) ! n, n := None]"
  have "item ?q i = the (?l ! i)" using f n by (simp add: item_def qlen_def)
  moreover have "heap_idx ?q = (heap_idx q)(item q i := - 1, the (?l ! i) := int i)"
    using n by (simp add: move_last_def Let_def UPDATE_IDX_def set_heap_def item_def)
  ultimately have ix: "heap_idx ?q = (heap_idx q)(item q i := - 1, item q n := int i)"
    using it [OF i] by simp
  then show "heap_idx ?q (item q i) = - 1" using rep(6) [of i n] n i by simp
  have "heap_idx ?q (item ?q k) = int k" if "k < n" for k
    using that rep(5,6) n i by (simp add: it ix)
  then show "rep_ok ?q" using d q rm(2,3) n i by (simp add: rep_ok_def)
qed

lemma drop_last_rep:
  assumes r: "rep_ok q" and n: "qlen q = Suc n" and h: "heap_ordered cmp q"
    and q': "q' = set_heap ((lst (heap q))[n := None]) n (q\<lparr>heap_idx := (heap_idx q)(item q n := - 1)\<rparr>)"
  shows "rep_ok q'" and "items q' = items q - {#item q n#}" and "heap_ordered cmp q'"
proof -
  let ?xs = "elems (heap q)"
  note rep = rep_okD [OF r]
  have d: "wf_smartlist (heap q') \<and> elems (heap q') = del_swap n ?xs"
    by (rule del_state [OF rep(1)]) (use n in \<open>simp_all add: q' set_heap_def qlen_def\<close>)
  have q: "qlen q' = n" by (simp add: q' set_heap_def qlen_def)
  have m: "mset (elems (heap q')) = mset ?xs - {#?xs ! n#}" using d rep(2) n by (simp add: mset_del_swap)
  have it: "item q' k = item q k" if "k < n" for k using that by (simp add: q' item_def set_heap_def)
  note rm = removed_elems [OF r _ m]
  show "items q' = items q - {#item q n#}" using rm(1) n by (simp add: items_def [of q'])
  have "heap_idx q' (item q' k) = int k" if "k < n" for k
    using that rep(5,6) n by (simp add: it) (simp add: q' set_heap_def)
  then show "rep_ok q'" using d q rm(2,3) n by (simp add: rep_ok_def)
  show "heap_ordered cmp q'" unfolding heap_ordered_def in_order_def
  proof (intro allI impI)
    fix j assume j: "0 < j \<and> j < qlen q'"
    then have "PARENT j < n" "j < n" using q PARENT_less [of j] by auto
    then show "cmp (item q' (PARENT j)) (item q' j) \<le> 0"
      using h j n by (simp add: it heap_ordered_def in_order_def)
  qed
qed

lemma clear_past_end: "rep_ok q \<Longrightarrow> set_heap ((lst (heap q))[qlen q := None]) (qlen q) q = q"
proof -
  assume "rep_ok q"
  then have d: "drop (qlen q) (lst (heap q)) = replicate (capacity (heap q) - qlen q) None"
    using wf_drop [OF rep_okD(1)] by (simp add: qlen_def)
  have "(lst (heap q))[qlen q := None] = lst (heap q)"
  proof (cases "qlen q < length (lst (heap q))")
    case True
    then have "lst (heap q) ! qlen q \<in> set (drop (qlen q) (lst (heap q)))" by (metis Cons_nth_drop_Suc list.set_intros(1))
    then have "lst (heap q) ! qlen q = None" using d by simp
    then show ?thesis by (metis list_update_id)
  qed (simp add: list_update_beyond)
  then show ?thesis by (simp add: set_heap_def qlen_def)
qed

context comparator
begin

lemma pqueue_add_correct:
  assumes r: "rep_ok q" and h: "heap_ordered cmp q" and x: "x \<notin># items q" and n: "qlen q < MAX_CAPACITY"
  shows "\<exists>q'. smartlist_pqueue_add cmp x q = Some q' \<and> rep_ok q' \<and> heap_ordered cmp q' \<and> items q' = add_mset x (items q)"
proof -
  note rep = rep_okD [OF r]
  obtain sl where sl: "smartlist_add (heap q) (Some x) = Some sl" "wf_smartlist sl" "elems sl = elems (heap q) @ [Some x]"
    using smartlist_add_ok [OF rep(1), of "Some x"] n by (auto simp: qlen_def)
  have nu: "num_used sl = Suc (qlen q)" using length_elems [OF sl(2)] sl(3) rep(2) by simp
  define q1 where "q1 = UPDATE_IDX (qlen q) (q\<lparr>heap := sl\<rparr>)"
  have hq: "heap q1 = sl" by (simp add: q1_def UPDATE_IDX_def)
  then have ql: "qlen q1 = Suc (qlen q)" using nu by (simp add: qlen_def)
  have it: "item q1 k = (if k = qlen q then x else item q k)" if "k < Suc (qlen q)" for k
  proof -
    have "lst sl ! k = (elems (heap q) @ [Some x]) ! k" using nth_elems [of k sl] nu that by (simp add: sl(3))
    then show ?thesis using that rep(2) rep(4) [of k]
      by (auto simp: item_def [of q1] hq nth_append nth_elems qlen_def)
  qed
  have nx: "item q k \<noteq> x" if "k < qlen q" for k using x that item_in_items [OF r] by auto
  have "item (q\<lparr>heap := sl\<rparr>) (qlen q) = x" using it [of "qlen q"] by (simp add: item_def hq)
  then have ix: "heap_idx q1 = (heap_idx q)(x := int (qlen q))" by (simp add: q1_def UPDATE_IDX_def)
  have "Some x \<notin> set (elems (heap q))" using x by (force simp: items_def)
  moreover have "heap_idx q1 (item q1 k) = int k" if "k < qlen q1" for k
    using that ql rep(5) [of k] nx [of k] by (auto simp: it ix)
  ultimately have r1: "rep_ok q1" using r sl by (simp add: rep_ok_def hq)
  have i1: "items q1 = add_mset x (items q)" by (simp add: items_def hq sl)
  have "in_order cmp q1 j" if "0 < j" "j < qlen q" for j
    using h that PARENT_less [of j] by (simp add: heap_ordered_def in_order_def it)
  then have "ordered_but_above cmp q1 (qlen q)"
    using ql PARENT_less [of "qlen q"]
    by (auto simp: ordered_but_above_def bridged_def less_Suc_eq dest: PARENT_less)
  then show ?thesis using sift_up_correct [OF r1, of "qlen q"] i1 ql sl nu
    by (simp add: smartlist_pqueue_add_def q1_def [symmetric])
qed

lemma heapify_move_last:
  assumes r: "rep_ok q" and h: "heap_ordered cmp q" and n: "qlen q = Suc n" and i: "i < n"
    and g: "0 < i \<Longrightarrow> cmp (item q (PARENT i)) (item q n) \<le> 0"
  shows "rep_ok (smartlist_heapify cmp i (move_last i q)) \<and>
    heap_ordered cmp (smartlist_heapify cmp i (move_last i q)) \<and>
    items (smartlist_heapify cmp i (move_last i q)) = items q - {#item q i#}"
proof -
  note mv = move_last_rep [OF r n i]
  have ord: "cmp (item q (PARENT j)) (item q j) \<le> 0" if "0 < j" "j \<le> n" for j
    using h that n by (simp add: heap_ordered_def in_order_def)
  have "in_order cmp (move_last i q) j" if j: "0 < j" "j < n" "PARENT j \<noteq> i" for j
    using ord [of j] g j PARENT_less [of j] by (auto simp: in_order_def mv(4))
  moreover have "bridged cmp (move_last i q) i"
    unfolding bridged_def
  proof (intro allI impI, elim conjE)
    fix j assume j: "0 < j" "j < qlen (move_last i q)" "PARENT j = i" "0 < i"
    have "cmp (item q (PARENT i)) (item q j) \<le> 0" using cmp_trans [of _ "item q i"] ord [of i] ord [of j] j i mv(3) by simp
    then show "cmp (item (move_last i q) (PARENT i)) (item (move_last i q) j) \<le> 0"
      using j PARENT_less [of j] PARENT_less [of i] mv(3) i by (simp add: mv(4))
  qed
  ultimately have "ordered_but_below cmp (move_last i q) i" by (simp add: ordered_but_below_def mv(3))
  then show ?thesis using heapify_correct [OF mv(1)] mv(2) by simp
qed

lemma pqueue_pop_correct:
  assumes r: "rep_ok q" and h: "heap_ordered cmp q" and n: "0 < qlen q"
  shows "\<exists>q'. smartlist_pqueue_pop cmp q = Some (item q 0, q') \<and> rep_ok q' \<and> heap_ordered cmp q' \<and>
    items q = add_mset (item q 0) (items q') \<and> (\<forall>y\<in>#items q'. cmp (item q 0) y \<le> 0)"
proof -
  obtain m where m: "qlen q = Suc m" using n by (cases "qlen q") auto
  have root: "item q 0 \<in># items q" "\<forall>y\<in>#items q. cmp (item q 0) y \<le> 0"
    using n heap_root_min [OF h] item_in_items [OF r] by auto
  have "\<exists>q'. smartlist_pqueue_pop cmp q = Some (item q 0, q') \<and> rep_ok q' \<and> heap_ordered cmp q' \<and>
    items q' = items q - {#item q 0#}"
  proof (cases "m = 0")
    case True
    then show ?thesis using drop_last_rep [OF r m h] m
      by (simp add: smartlist_pqueue_pop_def Let_def) (simp add: set_heap_def qlen_def)
  next
    case False
    let ?q = "smartlist_heapify cmp 0 (move_last 0 q)"
    have c: "rep_ok ?q" "heap_ordered cmp ?q" "items ?q = items q - {#item q 0#}"
      using heapify_move_last [OF r h m, of 0] False by auto
    have "smartlist_pqueue_pop cmp q = Some (item q 0, set_heap ((lst (heap ?q))[qlen ?q := None]) (qlen ?q) ?q)"
      using m False by (simp add: smartlist_pqueue_pop_def move_last_def Let_def)
    then show ?thesis using c by (simp add: clear_past_end)
  qed
  then show ?thesis using root by (metis in_diffD insert_DiffM)
qed

text \<open>Removal is right when the last item does not come before the parent of the removed one.\<close>

lemma pqueue_remove_correct:
  assumes r: "rep_ok q" and h: "heap_ordered cmp q" and i: "i < qlen q"
    and g: "0 < i \<Longrightarrow> i < qlen q - 1 \<Longrightarrow> cmp (item q (PARENT i)) (item q (qlen q - 1)) \<le> 0"
  shows "\<exists>q'. smartlist_pqueue_remove cmp (item q i) q = Some q' \<and> rep_ok q' \<and> heap_ordered cmp q' \<and>
    items q' = items q - {#item q i#}"
proof -
  note rep = rep_okD [OF r]
  obtain n where n: "qlen q = Suc n" using i by (cases "qlen q") auto
  have ix: "heap_idx q (item q i) = int i" "lst (heap q) ! i = Some (item q i)" using rep(4,5) i by auto
  have "i < capacity (heap q)" using i wf_smartlistD(2) [OF rep(1)] by (simp add: qlen_def)
  then have ok: "smartlist_pqueue_remove cmp (item q i) q =
      Some (if i = n then set_heap ((lst (heap q))[n := None]) n (q\<lparr>heap_idx := (heap_idx q)(item q n := - 1)\<rparr>)
            else smartlist_heapify cmp i (move_last i q))"
    using ix n by (auto simp: smartlist_pqueue_remove_def Let_def move_last_def)
  show ?thesis
  proof (cases "i = n")
    case True
    then show ?thesis using drop_last_rep [OF r n h] ok by simp
  next
    case False
    then have "i < n" using i n by simp
    then show ?thesis using heapify_move_last [OF r h n, of i] g n ok False by simp
  qed
qed

end

section \<open>The contract to the users of the queue\<close>

fun add_list :: "('a \<Rightarrow> 'q \<Rightarrow> 'q option) \<Rightarrow> 'a list \<Rightarrow> 'q \<Rightarrow> 'q option" where
  "add_list add [] q = Some q"
| "add_list add (x # xs) q = (case add x q of None \<Rightarrow> None | Some q' \<Rightarrow> add_list add xs q')"

fun pop_list :: "('q \<Rightarrow> ('a \<times> 'q) option) \<Rightarrow> nat \<Rightarrow> 'q \<Rightarrow> ('a list \<times> 'q) option" where
  "pop_list pop 0 q = Some ([], q)"
| "pop_list pop (Suc n) q =
     (case pop q of None \<Rightarrow> None
      | Some (x, q') \<Rightarrow> (case pop_list pop n q' of None \<Rightarrow> None | Some (xs, q'') \<Rightarrow> Some (x # xs, q'')))"

locale priority_queue =
  fixes inv :: "'q \<Rightarrow> bool" and contents :: "'q \<Rightarrow> 'a multiset" and le :: "'a \<Rightarrow> 'a \<Rightarrow> bool"
    and limit :: nat
    and add :: "'a \<Rightarrow> 'q \<Rightarrow> 'q option" and pop :: "'q \<Rightarrow> ('a \<times> 'q) option"
  assumes add_law: "inv q \<Longrightarrow> x \<notin># contents q \<Longrightarrow> size (contents q) < limit \<Longrightarrow>
      \<exists>q'. add x q = Some q' \<and> inv q' \<and> contents q' = add_mset x (contents q)"
    and pop_law: "inv q \<Longrightarrow> contents q \<noteq> {#} \<Longrightarrow>
      \<exists>x q'. pop q = Some (x, q') \<and> inv q' \<and> contents q = add_mset x (contents q') \<and> (\<forall>y\<in>#contents q'. le x y)"
begin

lemma add_list_ok:
  assumes "inv q" and "distinct xs" and "set xs \<inter> set_mset (contents q) = {}" and "size (contents q) + length xs \<le> limit"
  shows "\<exists>q'. add_list add xs q = Some q' \<and> inv q' \<and> contents q' = mset xs + contents q"
  using assms
proof (induction xs arbitrary: q)
  case (Cons x xs)
  obtain q1 where q1: "add x q = Some q1" "inv q1" "contents q1 = add_mset x (contents q)"
    using add_law [of q x] Cons.prems by auto
  obtain q' where "add_list add xs q1 = Some q'" "inv q'" "contents q' = mset xs + contents q1"
    using Cons.IH [OF q1(2)] Cons.prems q1(3) by auto
  then show ?case using q1 by simp
qed simp

lemma pop_list_ok:
  assumes "inv q" and "size (contents q) = n"
  shows "\<exists>xs q'. pop_list pop n q = Some (xs, q') \<and> inv q' \<and> contents q' = {#} \<and> mset xs = contents q \<and> sorted_wrt le xs"
  using assms
proof (induction n arbitrary: q)
  case (Suc n)
  obtain x q1 where q1: "pop q = Some (x, q1)" "inv q1" "contents q = add_mset x (contents q1)" "\<forall>y\<in>#contents q1. le x y"
    using pop_law [OF Suc.prems(1)] Suc.prems(2) by (metis nat.distinct(1) size_empty)
  obtain xs q' where xs: "pop_list pop n q1 = Some (xs, q')" "inv q'" "contents q' = {#}" "mset xs = contents q1" "sorted_wrt le xs"
    using Suc.IH [OF q1(2)] Suc.prems(2) q1(3) by auto
  have "\<forall>y\<in>set xs. le x y" using q1(4) xs(4) by (metis set_mset_mset)
  then show ?case using q1 xs by simp
qed simp

end

sublocale comparator \<subseteq> pq: priority_queue "\<lambda>q. rep_ok q \<and> heap_ordered cmp q" items "\<lambda>a b. cmp a b \<le> 0" MAX_CAPACITY
  "smartlist_pqueue_add cmp" "smartlist_pqueue_pop cmp"
proof
  fix q :: "'a pqueue" and x
  assume q: "rep_ok q \<and> heap_ordered cmp q"
  show "\<exists>q'. smartlist_pqueue_add cmp x q = Some q' \<and> (rep_ok q' \<and> heap_ordered cmp q') \<and> items q' = add_mset x (items q)"
    if "x \<notin># items q" "size (items q) < MAX_CAPACITY"
    using pqueue_add_correct [of q x] q that by (auto simp: size_items)
  show "\<exists>x q'. smartlist_pqueue_pop cmp q = Some (x, q') \<and> (rep_ok q' \<and> heap_ordered cmp q') \<and>
      items q = add_mset x (items q') \<and> (\<forall>y\<in>#items q'. cmp x y \<le> 0)" if "items q \<noteq> {#}"
  proof -
    have "0 < qlen q" using that q by (metis neq0_conv size_eq_0_iff_empty size_items)
    then show ?thesis using pqueue_pop_correct q by blast
  qed
qed

context comparator
begin

lemma sorts_list:
  assumes "distinct xs" and "length xs \<le> MAX_CAPACITY"
  shows "\<exists>q ys q'. add_list (smartlist_pqueue_add cmp) xs pqueue_new = Some q \<and>
    smartlist_pqueue_assert_ok cmp q \<and>
    pop_list (smartlist_pqueue_pop cmp) (length xs) q = Some (ys, q') \<and>
    mset ys = mset xs \<and> sorted_wrt (\<lambda>a b. cmp a b \<le> 0) ys \<and> qlen q' = 0"
proof -
  obtain q where q: "add_list (smartlist_pqueue_add cmp) xs pqueue_new = Some q" "rep_ok q" "heap_ordered cmp q" "items q = mset xs"
    using pq.add_list_ok [of pqueue_new xs] pqueue_new_ok [OF refl [of "pqueue_new :: 'a pqueue"]] assms by auto
  obtain ys q' where ys: "pop_list (smartlist_pqueue_pop cmp) (length xs) q = Some (ys, q')" "mset ys = mset xs"
    "sorted_wrt (\<lambda>a b. cmp a b \<le> 0) ys" "rep_ok q'" "items q' = {#}"
    using pq.pop_list_ok [of q "length xs"] q by (metis size_mset)
  have "smartlist_pqueue_assert_ok cmp q"
    using q(2,3) by (auto simp: smartlist_pqueue_assert_ok_def list_all_iff heap_ordered_def in_order_def rep_okD(5))
  then show ?thesis using q(1) ys size_items [OF ys(4)] by auto
qed

end

text \<open>C15: Distinct items put into an empty priority queue and popped until it is empty come out
  in the order of the comparison function, each exactly once, whatever that function is as long as
  it is antisymmetric up to ties and transitive: every operation returns, keeps the heap property
  and the positions stored in the items, and pops a smallest item.\<close>

theorem pqueue_sorts:
  assumes "comparator cmp" and "distinct xs" and "length xs \<le> MAX_CAPACITY"
  shows "\<exists>q ys q'. add_list (smartlist_pqueue_add cmp) xs pqueue_new = Some q \<and>
    smartlist_pqueue_assert_ok cmp q \<and>
    pop_list (smartlist_pqueue_pop cmp) (length xs) q = Some (ys, q') \<and>
    mset ys = mset xs \<and> sorted_wrt (\<lambda>a b. cmp a b \<le> 0) ys \<and> qlen q' = 0"
  by (rule comparator.sorts_list [OF assms])

lemma comparator_diff: "comparator (\<lambda>a b :: int. a - b)"
  by unfold_locales auto

theorem pqueue_sorts_witness:
  "\<exists>q ys q'. add_list (smartlist_pqueue_add (\<lambda>a b :: int. a - b)) [3, 1, 2] pqueue_new = Some q \<and>
    pop_list (smartlist_pqueue_pop (\<lambda>a b. a - b)) 3 q = Some (ys, q') \<and> mset ys = {#1, 2, 3#} \<and> sorted ys"
proof -
  have "sorted_wrt (\<lambda>a b :: int. a - b \<le> 0) ys \<Longrightarrow> sorted ys" for ys by simp
  then show ?thesis
    using pqueue_sorts [OF comparator_diff, of "[3, 1, 2]"]
    by (fastforce simp: MAX_CAPACITY_def INT_MAX_def add_mset_commute numeral_3_eq_3)
qed

section \<open>Removal of an inner item\<close>

definition queue_of :: "int list \<Rightarrow> int pqueue" where
  "queue_of xs = \<lparr>heap = \<lparr>lst = map Some xs @ replicate (16 - length xs) None, num_used = length xs, capacity = 16\<rparr>,
     heap_idx = fold (\<lambda>i f. f(xs ! i := int i)) [0..<length xs] (\<lambda>_. - 1)\<rparr>"


end
