(* ===== verification/Conflux.thy ===== *)
theory Conflux
  imports Pqueue
begin

text \<open>
  Multipath circuits of the embedded Tor (tor/core/conflux.c): choosing the leg a cell is sent on,
  numbering cells relative to a leg, and putting the cells that arrive on several legs back into
  the order they were sent in. Circuits are identifiers; what the code reads of a circuit and of
  its congestion control is an environment argument. A leg pointer is the position of the leg in
  the set. Sequence numbers are 64 bits wide, with the wrap-around written out. A failed
  \<open>tor_assert\<close> is the outer None of a result.
\<close>

section \<open>Data\<close>

type_synonym circ_id = nat

record circuit =
  is_origin :: bool
  last_hop :: "nat option"
  n_chan :: bool
  blocked_on_n_chan :: bool
  blocked_on_p_chan :: bool
  cwnd :: nat
  inflight :: nat
  sendme_inc :: nat
  in_slow_start :: bool

type_synonym circuits = "circ_id \<Rightarrow> circuit"

record conflux_leg =
  last_seq_recv :: nat
  last_seq_sent :: nat
  circ_rtts_usec :: nat
  linked_sent_usec :: nat
  leg_circ :: circ_id

record 'm conflux_cell =
  seq :: nat
  cell :: 'm

record 'm conflux =
  alg :: nat
  legs :: "conflux_leg list"
  ooo_q :: "'m conflux_cell pqueue"
  last_seq_delivered :: nat
  cells_until_switch :: nat
  curr_leg :: "nat option"
  prev_leg :: "nat option"
  in_full_teardown :: bool
  ooo_q_bytes :: nat

definition wrap64 :: "nat \<Rightarrow> nat" where
  "wrap64 n = n mod 2 ^ 64"

definition UINT64_MAX :: nat where
  "UINT64_MAX = 2 ^ 64 - 1"

definition UINT32_MAX :: nat where
  "UINT32_MAX = 2 ^ 32 - 1"

definition SIZEOF_CELL :: nat where
  "SIZEOF_CELL = 516"

section \<open>Which commands are multiplexed\<close>

definition RELAY_COMMAND_DATA :: nat where
  "RELAY_COMMAND_DATA = 2"

text \<open>BEGIN, DATA, END, CONNECTED, RESOLVE, RESOLVED, XOFF and XON; every other command, known or
  not, is not multiplexed.\<close>

definition conflux_should_multiplex :: "nat \<Rightarrow> bool" where
  "conflux_should_multiplex relay_command \<longleftrightarrow> relay_command \<in> set [1, 2, 3, 4, 11, 12, 43, 44]"

section \<open>Legs\<close>

definition conflux_get_leg :: "'m conflux \<Rightarrow> circ_id \<Rightarrow> nat option" where
  "conflux_get_leg cfx c = find (\<lambda>i. leg_circ (legs cfx ! i) = c) [0..<length (legs cfx)]"

definition conflux_get_max_seq_sent :: "'m conflux \<Rightarrow> nat" where
  "conflux_get_max_seq_sent cfx =
     foldl (\<lambda>mx leg. if last_seq_sent leg > mx then last_seq_sent leg else mx) 0 (legs cfx)"

definition conflux_get_max_seq_recv :: "'m conflux \<Rightarrow> nat" where
  "conflux_get_max_seq_recv cfx =
     foldl (\<lambda>mx leg. if last_seq_recv leg > mx then last_seq_recv leg else mx) 0 (legs cfx)"

definition conflux_update_rtt :: "'m conflux \<Rightarrow> circ_id \<Rightarrow> nat \<Rightarrow> 'm conflux" where
  "conflux_update_rtt cfx c rtt_usec =
     (case conflux_get_leg cfx c of
        None \<Rightarrow> cfx
      | Some i \<Rightarrow> cfx\<lparr>legs := (legs cfx)[i := (legs cfx ! i)\<lparr>circ_rtts_usec := rtt_usec\<rparr>]\<rparr>)"

section \<open>Choosing a circuit to send on\<close>

definition circuit_ready_to_send :: "circuit \<Rightarrow> bool" where
  "circuit_ready_to_send c =
     (let cc_sendable = \<not> inflight c \<ge> cwnd c
      in if is_origin c then cc_sendable \<and> \<not> blocked_on_n_chan c
         else cc_sendable \<and> \<not> blocked_on_p_chan c)"

definition conflux_decide_circ_minrtt :: "circuits \<Rightarrow> 'm conflux \<Rightarrow> circ_id option option" where
  "conflux_decide_circ_minrtt env cfx =
     (if legs cfx = [] then None
      else let (c, _) = foldl (\<lambda>(c, min_rtt) leg.
                 if circ_rtts_usec leg \<noteq> 0 \<and> circ_rtts_usec leg < min_rtt
                 then (Some (leg_circ leg), circ_rtts_usec leg) else (c, min_rtt))
               (None, UINT64_MAX) (legs cfx)
           in Some (case c of None \<Rightarrow> None
                    | Some c \<Rightarrow> if circuit_ready_to_send (env c) then Some c else None))"

definition conflux_decide_circ_lowrtt :: "circuits \<Rightarrow> 'm conflux \<Rightarrow> circ_id option option" where
  "conflux_decide_circ_lowrtt env cfx =
     (if legs cfx = [] then None
      else Some (fst (foldl (\<lambda>(c, low_rtt) leg.
                 if \<not> circuit_ready_to_send (env (leg_circ leg)) then (c, low_rtt)
                 else if circ_rtts_usec leg \<noteq> 0 \<and> circ_rtts_usec leg < low_rtt
                 then (Some (leg_circ leg), circ_rtts_usec leg) else (c, low_rtt))
               (None, UINT64_MAX) (legs cfx))))"

definition cwnd_available :: "circuit \<Rightarrow> nat" where
  "cwnd_available c = (if cwnd c < inflight c then 0 else cwnd c - inflight c)"

definition cwnd_sendable :: "circuit \<Rightarrow> nat \<Rightarrow> nat \<Rightarrow> nat" where
  "cwnd_sendable c in_usec our_usec =
     (let cwnd_adjusted = cwnd_available c in
      if our_usec = 0 \<or> in_usec = 0 then cwnd_adjusted
      else if in_slow_start c then cwnd_adjusted
      else min (cwnd c) (wrap64 (cwnd_adjusted * in_usec) div our_usec))"

definition conflux_can_switch :: "circuits \<Rightarrow> nat \<Rightarrow> 'm conflux \<Rightarrow> bool" where
  "conflux_can_switch env drain_pct cfx =
     (if cells_until_switch cfx > 0 then
        (case prev_leg cfx of
           None \<Rightarrow> False
         | Some p \<Rightarrow> let cc = env (leg_circ (legs cfx ! p))
                     in inflight cc < sendme_inc cc \<or>
                        wrap64 (100 * inflight cc) \<le> wrap64 (drain_pct * cwnd cc))
      else True)"

text \<open>The assertion of this function is inverted: it demands a set without legs.\<close>

definition conflux_decide_circ_cwndrtt :: "circuits \<Rightarrow> 'm conflux \<Rightarrow> circ_id option option" where
  "conflux_decide_circ_cwndrtt env cfx =
     (if legs cfx \<noteq> [] then None
      else let (min_rtt, leg) = foldl (\<lambda>(min_rtt, leg) l.
                 if circ_rtts_usec l \<noteq> 0 \<and> circ_rtts_usec l < min_rtt
                 then (circ_rtts_usec l, Some l) else (min_rtt, leg))
               (UINT64_MAX, None) (legs cfx);
               pick = (case leg of None \<Rightarrow> None
                       | Some l \<Rightarrow> if circuit_ready_to_send (env (leg_circ l)) then Some (leg_circ l) else None)
           in case pick of
                Some c \<Rightarrow> Some (Some c)
              | None \<Rightarrow>
                  let leg = foldl (\<lambda>leg l.
                        if \<not> circuit_ready_to_send (env (leg_circ l)) then leg
                        else if circ_rtts_usec l \<noteq> 0 \<and>
                                cwnd_sendable (env (leg_circ l)) min_rtt (circ_rtts_usec l) > 0
                        then Some l else leg) None (legs cfx)
                  in Some (case leg of None \<Rightarrow> None
                           | Some l \<Rightarrow> if circuit_ready_to_send (env (leg_circ l)) then Some (leg_circ l) else None))"

text \<open>None when the set has no leg to start with.\<close>

definition conflux_pick_first_leg :: "'m conflux \<Rightarrow> 'm conflux option" where
  "conflux_pick_first_leg cfx =
     (let min_leg = foldl (\<lambda>m i.
            if circ_rtts_usec (legs cfx ! i) > 0
            then (case m of None \<Rightarrow> Some i
                  | Some j \<Rightarrow> if circ_rtts_usec (legs cfx ! i) < circ_rtts_usec (legs cfx ! j) then Some i else m)
            else m) None [0..<length (legs cfx)]
      in case min_leg of
           Some i \<Rightarrow> Some (cfx\<lparr>cells_until_switch := 0, curr_leg := Some i\<rparr>)
         | None \<Rightarrow> if legs cfx = [] then None
                   else Some (cfx\<lparr>cells_until_switch := 0, curr_leg := Some 0\<rparr>))"

definition conflux_decide_next_circ ::
  "circuits \<Rightarrow> nat \<Rightarrow> 'm conflux \<Rightarrow> (circ_id option \<times> 'm conflux) option" where
  "conflux_decide_next_circ env drain_pct cfx =
     (if in_full_teardown cfx then Some (None, cfx)
      else case (if curr_leg cfx = None then conflux_pick_first_leg cfx else Some cfx) of
             None \<Rightarrow> Some (None, cfx)
           | Some cfx \<Rightarrow>
               if \<not> conflux_can_switch env drain_pct cfx then
                 let c = leg_circ (legs cfx ! the (curr_leg cfx))
                 in Some (if circuit_ready_to_send (env c) then Some c else None, cfx)
               else map_option (\<lambda>c. (c, cfx))
                      (if alg cfx = 0 then conflux_decide_circ_minrtt env cfx
                       else if alg cfx = 1 then conflux_decide_circ_lowrtt env cfx
                       else if alg cfx = 2 then conflux_decide_circ_cwndrtt env cfx
                       else Some None))"

section \<open>Sending\<close>

text \<open>\<open>conflux_send_switch_command\<close> puts a SWITCH cell on the circuit's queue.\<close>

definition conflux_send_switch_command :: "circ_id \<Rightarrow> nat \<Rightarrow> (circ_id \<times> nat) option" where
  "conflux_send_switch_command send_circ relative_seq =
     (if relative_seq < UINT32_MAX then Some (send_circ, relative_seq) else None)"

definition conflux_switch_leg :: "'m conflux \<Rightarrow> nat \<Rightarrow> ((circ_id \<times> nat) \<times> 'm conflux) option" where
  "conflux_switch_leg cfx new_leg =
     (let prev = the (curr_leg cfx);
          cfx = cfx\<lparr>cells_until_switch := 0, prev_leg := Some prev, curr_leg := Some new_leg\<rparr>;
          prev_sent = last_seq_sent (legs cfx ! prev);
          curr_sent = last_seq_sent (legs cfx ! new_leg);
          relative_seq = wrap64 (prev_sent + 2 ^ 64 - curr_sent)
      in if \<not> prev_sent \<ge> curr_sent then None
         else case conflux_send_switch_command (leg_circ (legs cfx ! new_leg)) relative_seq of
                None \<Rightarrow> None
              | Some sw \<Rightarrow>
                  Some (sw, cfx\<lparr>legs := (legs cfx)[new_leg := (legs cfx ! new_leg)\<lparr>last_seq_sent := prev_sent\<rparr>]\<rparr>))"

text \<open>The result: the circuit to send on, the SWITCH cell sent first if any, and the new state.\<close>

definition conflux_decide_circ_for_send ::
  "circuits \<Rightarrow> nat \<Rightarrow> 'm conflux \<Rightarrow> circ_id \<Rightarrow> nat \<Rightarrow>
     (circ_id option \<times> (circ_id \<times> nat) option \<times> 'm conflux) option" where
  "conflux_decide_circ_for_send env drain_pct cfx orig_circ relay_command =
     (if \<not> conflux_should_multiplex relay_command then Some (Some orig_circ, None, cfx)
      else case conflux_decide_next_circ env drain_pct cfx of
        None \<Rightarrow> None
      | Some (new_circ, cfx) \<Rightarrow>
          (case new_circ of
             None \<Rightarrow>
               if relay_command \<noteq> RELAY_COMMAND_DATA
               then (case curr_leg cfx of
                       None \<Rightarrow> Some (None, None, cfx)
                     | Some i \<Rightarrow> Some (Some (leg_circ (legs cfx ! i)), None, cfx))
               else Some (None, None, cfx)
           | Some c \<Rightarrow>
               (case curr_leg cfx of
                  None \<Rightarrow> None
                | Some cur \<Rightarrow>
                    if c \<noteq> leg_circ (legs cfx ! cur) then
                      (case conflux_get_leg cfx c of
                         None \<Rightarrow> None
                       | Some new_leg \<Rightarrow>
                           (case conflux_switch_leg cfx new_leg of
                              None \<Rightarrow> None
                            | Some (sw, cfx) \<Rightarrow> Some (Some c, Some sw, cfx)))
                    else Some (Some c, None, cfx))))"

definition conflux_note_cell_sent :: "'m conflux \<Rightarrow> circ_id \<Rightarrow> nat \<Rightarrow> 'm conflux" where
  "conflux_note_cell_sent cfx c relay_command =
     (if \<not> conflux_should_multiplex relay_command then cfx
      else case conflux_get_leg cfx c of
        None \<Rightarrow> cfx
      | Some i \<Rightarrow>
          let cfx = cfx\<lparr>legs := (legs cfx)[i := (legs cfx ! i)\<lparr>last_seq_sent := wrap64 (last_seq_sent (legs cfx ! i) + 1)\<rparr>]\<rparr>
          in if cells_until_switch cfx > 0
             then cfx\<lparr>cells_until_switch := cells_until_switch cfx - 1\<rparr> else cfx)"

section \<open>Receiving\<close>

definition conflux_queue_cmp :: "'m conflux_cell \<Rightarrow> 'm conflux_cell \<Rightarrow> int" where
  "conflux_queue_cmp a b = (if seq a < seq b then - 1 else if seq a > seq b then 1 else 0)"

definition conflux_get_destination_hop :: "circuit \<Rightarrow> nat option" where
  "conflux_get_destination_hop c = (if is_origin c then last_hop c else None)"

definition conflux_validate_source_hop :: "circuit \<Rightarrow> nat option \<Rightarrow> bool" where
  "conflux_validate_source_hop c layer_hint =
     (if conflux_get_destination_hop c \<noteq> layer_hint then False
      else if layer_hint = None then \<not> n_chan c else True)"

datatype close_reason = END_CIRC_REASON_TORPROTOCOL | END_CIRC_REASON_INTERNAL

definition conflux_process_switch_command ::
  "bool \<Rightarrow> circuits \<Rightarrow> 'm conflux option \<Rightarrow> circ_id \<Rightarrow> nat option \<Rightarrow> nat \<Rightarrow> close_reason + 'm conflux" where
  "conflux_process_switch_command enabled env cfx in_circ layer_hint relative_seq =
     (if \<not> enabled then Inl END_CIRC_REASON_TORPROTOCOL
      else case cfx of
        None \<Rightarrow> Inl END_CIRC_REASON_TORPROTOCOL
      | Some cfx \<Rightarrow>
          (case conflux_get_leg cfx in_circ of
             None \<Rightarrow> Inl END_CIRC_REASON_INTERNAL
           | Some i \<Rightarrow>
               if \<not> conflux_validate_source_hop (env in_circ) layer_hint then Inl END_CIRC_REASON_TORPROTOCOL
               else Inr (cfx\<lparr>legs := (legs cfx)[i := (legs cfx ! i)\<lparr>last_seq_recv :=
                      wrap64 (last_seq_recv (legs cfx ! i) + relative_seq)\<rparr>]\<rparr>)))"

text \<open>The inner result: whether this cell is next in order, and the new state.\<close>

definition conflux_process_cell ::
  "circuits \<Rightarrow> 'm conflux \<Rightarrow> circ_id \<Rightarrow> nat option \<Rightarrow> 'm \<Rightarrow> (close_reason + bool \<times> 'm conflux) option" where
  "conflux_process_cell env cfx in_circ layer_hint c =
     (case conflux_get_leg cfx in_circ of
        None \<Rightarrow> Some (Inl END_CIRC_REASON_INTERNAL)
      | Some i \<Rightarrow>
          if \<not> conflux_validate_source_hop (env in_circ) layer_hint then Some (Inl END_CIRC_REASON_TORPROTOCOL)
          else
            let n = wrap64 (last_seq_recv (legs cfx ! i) + 1);
                cfx = cfx\<lparr>legs := (legs cfx)[i := (legs cfx ! i)\<lparr>last_seq_recv := n\<rparr>]\<rparr>
            in if n = wrap64 (last_seq_delivered cfx + 1)
               then Some (Inr (True, cfx\<lparr>last_seq_delivered := wrap64 (last_seq_delivered cfx + 1)\<rparr>))
               else if n \<le> last_seq_delivered cfx then Some (Inl END_CIRC_REASON_INTERNAL)
               else (case smartlist_pqueue_add conflux_queue_cmp \<lparr>seq = n, cell = c\<rparr> (ooo_q cfx) of
                       None \<Rightarrow> None
                     | Some q \<Rightarrow> Some (Inr (False, cfx\<lparr>ooo_q := q, ooo_q_bytes := wrap64 (ooo_q_bytes cfx + SIZEOF_CELL)\<rparr>))))"

definition conflux_dequeue_cell :: "'m conflux \<Rightarrow> ('m conflux_cell \<times> 'm conflux) option" where
  "conflux_dequeue_cell cfx =
     (if qlen (ooo_q cfx) = 0 then None
      else let c = item (ooo_q cfx) 0 in
           if seq c = wrap64 (last_seq_delivered cfx + 1)
           then (case smartlist_pqueue_pop conflux_queue_cmp (ooo_q cfx) of
                   None \<Rightarrow> None
                 | Some (_, q) \<Rightarrow>
                     Some (c, cfx\<lparr>ooo_q := q, ooo_q_bytes := wrap64 (ooo_q_bytes cfx + 2 ^ 64 - SIZEOF_CELL),
                                  last_seq_delivered := wrap64 (last_seq_delivered cfx + 1)\<rparr>))
           else None)"

text \<open>The loop of \<open>connection_edge_process_relay_cell\<close> in relay.c that delivers what has become
  ready, and the whole handling of a cell there: the cells passed on to the streams, in order.\<close>

partial_function (option) dequeue_all :: "'m conflux \<Rightarrow> ('m list \<times> 'm conflux) option" where
  "dequeue_all cfx =
     (case conflux_dequeue_cell cfx of
        None \<Rightarrow> Some ([], cfx)
      | Some (c, cfx) \<Rightarrow> Option.bind (dequeue_all cfx) (\<lambda>(cs, cfx). Some (cell c # cs, cfx)))"

declare dequeue_all.simps [code]

definition process_relay_cell ::
  "circuits \<Rightarrow> 'm conflux \<Rightarrow> circ_id \<Rightarrow> nat option \<Rightarrow> 'm \<Rightarrow> (close_reason + 'm list \<times> 'm conflux) option" where
  "process_relay_cell env cfx in_circ layer_hint c =
     (case conflux_process_cell env cfx in_circ layer_hint c of
        None \<Rightarrow> None
      | Some (Inl r) \<Rightarrow> Some (Inl r)
      | Some (Inr (False, cfx)) \<Rightarrow> Some (Inr ([], cfx))
      | Some (Inr (True, cfx)) \<Rightarrow>
          (case dequeue_all cfx of
             None \<Rightarrow> None
           | Some (cs, cfx) \<Rightarrow> Some (Inr (c # cs, cfx))))"

section \<open>Two ends and the circuits between them\<close>

text \<open>Each leg carries its cells in order; the legs are independent of each other. The logs record
  the cells handed to the sender and those passed on to the streams by the receiver.\<close>

datatype 'm wire = Switch nat | Data 'm

record 'm endpoints =
  sender :: "'m conflux"
  receiver :: "'m conflux"
  chan :: "circ_id \<Rightarrow> 'm wire list"
  sent :: "'m list"
  delivered :: "'m list"

text \<open>The multiplexing part of \<open>relay_send_command_from_edge_\<close> in relay.c, for a circuit choice
  that succeeds.\<close>

definition send_cell ::
  "circuits \<Rightarrow> nat \<Rightarrow> circ_id \<Rightarrow> nat \<Rightarrow> 'm \<Rightarrow> 'm endpoints \<Rightarrow> 'm endpoints option" where
  "send_cell env drain_pct orig_circ relay_command m s =
     (case conflux_decide_circ_for_send env drain_pct (sender s) orig_circ relay_command of
        Some (Some c, sw, cfx) \<Rightarrow>
          Some (s\<lparr>sender := conflux_note_cell_sent cfx c relay_command,
                  chan := (chan s)(c := chan s c @ (case sw of None \<Rightarrow> [] | Some (_, r) \<Rightarrow> [Switch r]) @ [Data m]),
                  sent := sent s @ [m]\<rparr>)
      | _ \<Rightarrow> None)"

text \<open>The receiver handles the first cell of a circuit; a result other than the new state is a failure.\<close>

definition receive_cell :: "circuits \<Rightarrow> nat option \<Rightarrow> circ_id \<Rightarrow> 'm endpoints \<Rightarrow> 'm endpoints option" where
  "receive_cell env layer_hint c s =
     (case chan s c of
        [] \<Rightarrow> None
      | Switch r # ms \<Rightarrow>
          (case conflux_process_switch_command True env (Some (receiver s)) c layer_hint r of
             Inl _ \<Rightarrow> None
           | Inr cfx \<Rightarrow> Some (s\<lparr>receiver := cfx, chan := (chan s)(c := ms)\<rparr>))
      | Data m # ms \<Rightarrow>
          (case process_relay_cell env (receiver s) c layer_hint m of
             Some (Inr (cs, cfx)) \<Rightarrow>
               Some (s\<lparr>receiver := cfx, chan := (chan s)(c := ms), delivered := delivered s @ cs\<rparr>)
           | _ \<Rightarrow> None))"

inductive step :: "'m endpoints \<Rightarrow> 'm endpoints \<Rightarrow> bool" where
  send: "conflux_should_multiplex cmd \<Longrightarrow> length (sent s) < MAX_CAPACITY \<Longrightarrow>
    send_cell env drain_pct orig cmd m s = Some s' \<Longrightarrow> step s s'"
| receive: "conflux_validate_source_hop (env c) hint \<Longrightarrow> receive_cell env hint c s = Some s' \<Longrightarrow> step s s'"
| rtt: "step s (s\<lparr>sender := conflux_update_rtt (sender s) c rtt\<rparr>)"

definition new_leg :: "circ_id \<Rightarrow> conflux_leg" where
  "new_leg c = \<lparr>last_seq_recv = 0, last_seq_sent = 0, circ_rtts_usec = 0, linked_sent_usec = 0, leg_circ = c\<rparr>"

definition conflux_new :: "nat \<Rightarrow> circ_id list \<Rightarrow> 'm conflux" where
  "conflux_new a cs = \<lparr>alg = a, legs = map new_leg cs, ooo_q = pqueue_new, last_seq_delivered = 0,
     cells_until_switch = 0, curr_leg = None, prev_leg = None, in_full_teardown = False, ooo_q_bytes = 0\<rparr>"

definition initial :: "nat \<Rightarrow> circ_id list \<Rightarrow> 'm endpoints" where
  "initial a cs = \<lparr>sender = conflux_new a cs, receiver = conflux_new a cs, chan = (\<lambda>_. []), sent = [], delivered = []\<rparr>"

inductive reachable :: "nat \<Rightarrow> circ_id list \<Rightarrow> 'm endpoints \<Rightarrow> bool" for a cs where
  start: "distinct cs \<Longrightarrow> reachable a cs (initial a cs)"
| step: "reachable a cs s \<Longrightarrow> step s s' \<Longrightarrow> reachable a cs s'"

section \<open>Sequence numbers on the wire\<close>

fun end_seq :: "nat \<Rightarrow> 'm wire list \<Rightarrow> nat" where
  "end_seq k [] = k"
| "end_seq k (Switch r # ms) = end_seq (k + r) ms"
| "end_seq k (Data m # ms) = end_seq (k + 1) ms"

fun numbered :: "nat \<Rightarrow> 'm wire list \<Rightarrow> (nat \<times> 'm) list" where
  "numbered k [] = []"
| "numbered k (Switch r # ms) = numbered (k + r) ms"
| "numbered k (Data m # ms) = (k + 1, m) # numbered (k + 1) ms"

lemma end_seq_append [simp]: "end_seq k (xs @ ys) = end_seq (end_seq k xs) ys"
  by (induction k xs rule: end_seq.induct) auto

lemma numbered_append [simp]: "numbered k (xs @ ys) = numbered k xs @ numbered (end_seq k xs) ys"
  by (induction k xs rule: end_seq.induct) auto

lemma end_seq_ge: "k \<le> end_seq k ms"
  by (induction k ms rule: end_seq.induct) auto

definition tagged :: "'m list \<Rightarrow> (nat \<times> 'm) multiset" where
  "tagged xs = mset (zip [1..<Suc (length xs)] xs)"

lemma tagged_Nil [simp]: "tagged [] = {#}"
  by (simp add: tagged_def)

lemma tagged_snoc [simp]: "tagged (xs @ [x]) = add_mset (Suc (length xs), x) (tagged xs)"
proof -
  have "[1..<Suc (length (xs @ [x]))] = [1..<Suc (length xs)] @ [Suc (length xs)]" by simp
  then show ?thesis unfolding tagged_def by (simp only:) (simp del: upt_Suc)
qed

lemma in_tagged: "(k, x) \<in># tagged xs \<longleftrightarrow> 0 < k \<and> k \<le> length xs \<and> xs ! (k - 1) = x"
proof
  assume "(k, x) \<in># tagged xs"
  then show "0 < k \<and> k \<le> length xs \<and> xs ! (k - 1) = x" by (auto simp: tagged_def set_zip simp del: upt_Suc)
next
  assume k: "0 < k \<and> k \<le> length xs \<and> xs ! (k - 1) = x"
  then have "(k, x) = zip [1..<Suc (length xs)] xs ! (k - 1)" "k - 1 < length (zip [1..<Suc (length xs)] xs)"
    by (auto simp del: upt_Suc)
  then show "(k, x) \<in># tagged xs" unfolding tagged_def by (metis nth_mem set_mset_mset)
qed

text \<open>Each sequence number occurs once.\<close>

lemma tagged_unique:
  assumes "add_mset (k, x) (add_mset (k, y) A) \<subseteq># tagged xs"
  shows False
proof -
  have m: "mset (map fst (zip [1..<Suc (length xs)] xs)) = mset [1..<Suc (length xs)]" by (simp del: upt_Suc)
  have "image_mset fst (add_mset (k, x) (add_mset (k, y) A)) \<subseteq># image_mset fst (tagged xs)"
    using assms by (rule image_mset_subseteq_mono)
  then have "{#k, k#} + image_mset fst A \<subseteq># mset [1..<Suc (length xs)]"
    using m by (simp add: tagged_def del: upt_Suc flip: mset_map)
  then have "2 \<le> count (mset [1..<Suc (length xs)]) k"
    using mset_subset_eq_count [of "{#k, k#} + image_mset fst A" _ k] by fastforce
  moreover have "count (mset [1..<Suc (length xs)]) k \<le> 1" by (simp add: count_mset_set' del: upt_Suc)
  ultimately show False by linarith
qed

section \<open>The sender\<close>

text \<open>The leg in use has sent as many cells as the whole set; no leg is ahead of it.\<close>

definition sender_ok :: "nat \<Rightarrow> 'm conflux \<Rightarrow> bool" where
  "sender_ok n cfx \<longleftrightarrow>
     distinct (map leg_circ (legs cfx)) \<and>
     (\<forall>leg\<in>set (legs cfx). last_seq_sent leg \<le> n) \<and>
     (case curr_leg cfx of
        None \<Rightarrow> n = 0
      | Some i \<Rightarrow> i < length (legs cfx) \<and> last_seq_sent (legs cfx ! i) = n)"

lemma sender_ok_cong:
  fixes a b :: "'m conflux"
  assumes "map leg_circ (legs a) = map leg_circ (legs b)" and "map last_seq_sent (legs a) = map last_seq_sent (legs b)"
    and "curr_leg a = curr_leg b"
  shows "sender_ok n a \<longleftrightarrow> sender_ok n b"
proof -
  have "sender_ok n x \<longleftrightarrow> distinct (map leg_circ (legs x)) \<and> (\<forall>v\<in>set (map last_seq_sent (legs x)). v \<le> n) \<and>
      (case curr_leg x of None \<Rightarrow> n = 0
       | Some i \<Rightarrow> i < length (map last_seq_sent (legs x)) \<and> map last_seq_sent (legs x) ! i = n)" for x :: "'m conflux"
    by (auto simp: sender_ok_def split: option.splits)
  then show ?thesis by (simp only: assms)
qed

lemma wrap64_id [simp]: "n \<le> Suc MAX_CAPACITY \<Longrightarrow> wrap64 n = n"
  by (simp add: wrap64_def MAX_CAPACITY_def INT_MAX_def)

lemma get_leg_Some:
  "conflux_get_leg cfx c = Some i \<Longrightarrow> i < length (legs cfx) \<and> leg_circ (legs cfx ! i) = c"
  by (auto simp: conflux_get_leg_def find_Some_iff)

lemma get_leg_nth:
  assumes "distinct (map leg_circ (legs cfx))" and "i < length (legs cfx)"
  shows "conflux_get_leg cfx (leg_circ (legs cfx ! i)) = Some i"
proof -
  have "leg_circ (legs cfx ! j) \<noteq> leg_circ (legs cfx ! i)" if "j < i" for j
    using assms that by (auto simp: distinct_conv_nth)
  then show ?thesis using assms(2) unfolding conflux_get_leg_def find_Some_iff
    by (intro exI [of _ i]) simp
qed

lemma get_leg_None: "conflux_get_leg cfx c = None \<longleftrightarrow> c \<notin> leg_circ ` set (legs cfx)"
  by (fastforce simp: conflux_get_leg_def find_None_iff in_set_conv_nth)

text \<open>A choice by a loop over the legs picks one of them.\<close>

lemma foldl_choice:
  assumes "P z" and "\<And>a x. P a \<Longrightarrow> x \<in> set xs \<Longrightarrow> P (f a x)"
  shows "P (foldl f z xs)"
  using assms by (induction xs arbitrary: z) auto

lemma pick_first_leg_ok:
  assumes "conflux_pick_first_leg cfx = Some cfx'"
  shows "\<exists>i<length (legs cfx). cfx' = cfx\<lparr>cells_until_switch := 0, curr_leg := Some i\<rparr>"
proof -
  define m where "m = foldl (\<lambda>m i. if circ_rtts_usec (legs cfx ! i) > 0
      then (case m of None \<Rightarrow> Some i
            | Some j \<Rightarrow> if circ_rtts_usec (legs cfx ! i) < circ_rtts_usec (legs cfx ! j) then Some i else m)
      else m) None [0..<length (legs cfx)]"
  have "case m of None \<Rightarrow> True | Some i \<Rightarrow> i < length (legs cfx)"
    unfolding m_def by (rule foldl_choice) (auto split: option.splits)
  then show ?thesis using assms unfolding conflux_pick_first_leg_def m_def [symmetric] Let_def
    by (auto split: option.splits if_splits)
qed

lemma minrtt_leg: "conflux_decide_circ_minrtt env cfx = Some (Some c) \<Longrightarrow> c \<in> leg_circ ` set (legs cfx)"
proof -
  assume a: "conflux_decide_circ_minrtt env cfx = Some (Some c)"
  define r where "r = foldl (\<lambda>(c, min_rtt) leg. if circ_rtts_usec leg \<noteq> 0 \<and> circ_rtts_usec leg < min_rtt
      then (Some (leg_circ leg), circ_rtts_usec leg) else (c, min_rtt)) (None, UINT64_MAX) (legs cfx)"
  have "fst r \<in> insert None (Some ` leg_circ ` set (legs cfx))"
    unfolding r_def by (rule foldl_choice) (auto split: if_splits)
  then show ?thesis using a unfolding conflux_decide_circ_minrtt_def r_def [symmetric]
    by (auto split: prod.splits option.splits if_splits)
qed

lemma lowrtt_leg: "conflux_decide_circ_lowrtt env cfx = Some (Some c) \<Longrightarrow> c \<in> leg_circ ` set (legs cfx)"
proof -
  assume a: "conflux_decide_circ_lowrtt env cfx = Some (Some c)"
  define r where "r = foldl (\<lambda>(c, low_rtt) leg. if \<not> circuit_ready_to_send (env (leg_circ leg)) then (c, low_rtt)
      else if circ_rtts_usec leg \<noteq> 0 \<and> circ_rtts_usec leg < low_rtt
      then (Some (leg_circ leg), circ_rtts_usec leg) else (c, low_rtt)) (None, UINT64_MAX) (legs cfx)"
  have "fst r \<in> insert None (Some ` leg_circ ` set (legs cfx))"
    unfolding r_def by (rule foldl_choice) (auto split: if_splits)
  then show ?thesis using a unfolding conflux_decide_circ_lowrtt_def r_def [symmetric]
    by (auto split: prod.splits option.splits if_splits)
qed

text \<open>Choosing the next circuit keeps the legs, keeps or sets the current one, and picks a circuit
  of the set.\<close>

lemma next_circ_ok:
  assumes d: "conflux_decide_next_circ env pct cfx = Some (c, cfx')" and ok: "sender_ok n cfx"
  shows "sender_ok n cfx' \<and> legs cfx' = legs cfx \<and> alg cfx' = alg cfx \<and>
    (\<forall>x. c = Some x \<longrightarrow> curr_leg cfx' \<noteq> None \<and> x \<in> leg_circ ` set (legs cfx))"
proof -
  have cw: "conflux_decide_circ_cwndrtt env x = Some (Some y) \<Longrightarrow> y \<in> leg_circ ` set (legs x)" for x :: "'m conflux" and y
    by (cases "legs x = []") (auto simp: conflux_decide_circ_cwndrtt_def Let_def)
  show ?thesis
  proof (cases "in_full_teardown cfx")
    case False
    define p where "p = (if curr_leg cfx = None then conflux_pick_first_leg cfx else Some cfx)"
    show ?thesis
    proof (cases p)
      case None
      then show ?thesis using d ok False by (simp add: conflux_decide_next_circ_def p_def [symmetric])
    next
      case (Some c1)
      have c1: "sender_ok n c1 \<and> legs c1 = legs cfx \<and> alg c1 = alg cfx \<and> curr_leg c1 \<noteq> None"
        using Some ok pick_first_leg_ok [of cfx c1]
        by (auto simp: p_def sender_ok_def split: if_splits option.splits)
      obtain i where i: "curr_leg c1 = Some i" "i < length (legs c1)" using c1 by (auto simp: sender_ok_def)
      show ?thesis
        using d False c1 i minrtt_leg [of env c1] lowrtt_leg [of env c1] cw [of c1]
        unfolding conflux_decide_next_circ_def p_def [symmetric] Some
        by (auto simp: Let_def split: if_splits)
    qed
  qed (use d ok in \<open>simp add: conflux_decide_next_circ_def\<close>)
qed

lemma switch_leg_ok:
  assumes ok: "sender_ok n cfx" and n: "n \<le> MAX_CAPACITY" and i: "i < length (legs cfx)" and c: "curr_leg cfx \<noteq> None"
  shows "\<exists>r. conflux_switch_leg cfx i = Some ((leg_circ (legs cfx ! i), r),
      cfx\<lparr>cells_until_switch := 0, prev_leg := curr_leg cfx, curr_leg := Some i,
          legs := (legs cfx)[i := (legs cfx ! i)\<lparr>last_seq_sent := n\<rparr>]\<rparr>) \<and> last_seq_sent (legs cfx ! i) + r = n"
proof -
  obtain j where j: "curr_leg cfx = Some j" using c by auto
  let ?s = "last_seq_sent (legs cfx ! i)"
  have s: "last_seq_sent (legs cfx ! j) = n" "?s \<le> n" using ok i j by (auto simp: sender_ok_def)
  have "wrap64 (n + 2 ^ 64 - ?s) = n - ?s" "n - ?s < UINT32_MAX"
    using s n by (simp_all add: wrap64_def UINT32_MAX_def MAX_CAPACITY_def INT_MAX_def mod_if)
  then show ?thesis using s j
    by (intro exI [of _ "n - ?s"]) (simp add: conflux_switch_leg_def Let_def conflux_send_switch_command_def)
qed

lemma leg_same: "last_seq_sent (ls ! i) = n \<Longrightarrow> ls[i := (ls ! i)\<lparr>last_seq_sent := n\<rparr>] = ls"
  by (metis conflux_leg.surjective conflux_leg.update_convs(2) list_update_id)

lemma minrtt_returns: "legs cfx \<noteq> [] \<Longrightarrow> conflux_decide_circ_minrtt env cfx \<noteq> None"
  by (simp add: conflux_decide_circ_minrtt_def case_prod_beta)

lemma lowrtt_returns: "legs cfx \<noteq> [] \<Longrightarrow> conflux_decide_circ_lowrtt env cfx \<noteq> None"
  by (simp add: conflux_decide_circ_lowrtt_def)

definition switch_of :: "(circ_id \<times> nat) option \<Rightarrow> 'm wire list" where
  "switch_of sw = (case sw of None \<Rightarrow> [] | Some (_, r) \<Rightarrow> [Switch r])"

lemma for_send_ok:
  assumes d: "conflux_decide_circ_for_send env pct cfx orig cmd = Some (Some c, sw, cfx')"
    and m: "conflux_should_multiplex cmd" and ok: "sender_ok n cfx" and n: "n \<le> MAX_CAPACITY"
  shows "\<exists>i<length (legs cfx). leg_circ (legs cfx ! i) = c \<and> curr_leg cfx' = Some i \<and> alg cfx' = alg cfx \<and>
    legs cfx' = (legs cfx)[i := (legs cfx ! i)\<lparr>last_seq_sent := n\<rparr>] \<and>
    end_seq (last_seq_sent (legs cfx ! i)) (switch_of sw :: 'm wire list) = n \<and>
    numbered (last_seq_sent (legs cfx ! i)) (switch_of sw :: 'm wire list) = []"
proof -
  obtain nc c1 where nc: "conflux_decide_next_circ env pct cfx = Some (nc, c1)"
    using d m by (auto simp: conflux_decide_circ_for_send_def split: option.splits)
  note c1 = next_circ_ok [OF nc ok]
  have same: ?thesis if "curr_leg c1 = Some i" "c = leg_circ (legs c1 ! i)" "sw = None" "cfx' = c1" for i
  proof -
    have "i < length (legs cfx)" "last_seq_sent (legs cfx ! i) = n" using c1 that by (auto simp: sender_ok_def)
    then show ?thesis using that c1 by (intro exI [of _ i]) (simp add: switch_of_def leg_same)
  qed
  show ?thesis
  proof (cases nc)
    case None
    then have "(if cmd \<noteq> RELAY_COMMAND_DATA
        then (case curr_leg c1 of None \<Rightarrow> Some (None, None, c1) | Some i \<Rightarrow> Some (Some (leg_circ (legs c1 ! i)), None, c1))
        else Some (None, None, c1)) = Some (Some c, sw, cfx')"
      using d m nc by (simp add: conflux_decide_circ_for_send_def)
    then have "\<exists>i. curr_leg c1 = Some i \<and> c = leg_circ (legs c1 ! i) \<and> sw = None \<and> cfx' = c1"
      by (clarsimp split: if_split_asm option.split_asm)
    then show ?thesis using same by blast
  next
    case (Some x)
    then obtain j where j: "curr_leg c1 = Some j" using c1 by auto
    show ?thesis
    proof (cases "x = leg_circ (legs c1 ! j)")
      case True
      then have "c = leg_circ (legs c1 ! j)" "sw = None" "cfx' = c1"
        using d m nc Some j by (auto simp: conflux_decide_circ_for_send_def)
      then show ?thesis using same j by blast
    next
      case False
      then obtain i sw' where i: "conflux_get_leg c1 x = Some i" "conflux_switch_leg c1 i = Some (sw', cfx')"
        "c = x" "sw = Some sw'"
        using d m nc Some j by (auto simp: conflux_decide_circ_for_send_def split: option.splits)
      have il: "i < length (legs cfx)" "leg_circ (legs cfx ! i) = x" using get_leg_Some [OF i(1)] c1 by auto
      obtain r where r: "conflux_switch_leg c1 i = Some ((leg_circ (legs c1 ! i), r),
        c1\<lparr>cells_until_switch := 0, prev_leg := curr_leg c1, curr_leg := Some i,
          legs := (legs c1)[i := (legs c1 ! i)\<lparr>last_seq_sent := n\<rparr>]\<rparr>)" "last_seq_sent (legs c1 ! i) + r = n"
        using switch_leg_ok [of n c1 i] c1 n il j by auto
      then show ?thesis using i c1 il by (intro exI [of _ i]) (auto simp: switch_of_def)
    qed
  qed
qed

text \<open>With any algorithm but the third, sending does not abort.\<close>

lemma for_send_returns:
  assumes ok: "sender_ok n cfx" and n: "n \<le> MAX_CAPACITY" and a: "alg cfx \<noteq> 2" and l: "legs cfx \<noteq> []"
  shows "conflux_decide_circ_for_send env pct cfx orig cmd \<noteq> None"
proof (cases "conflux_should_multiplex cmd")
  case True
  define p where "p = (if curr_leg cfx = None then conflux_pick_first_leg cfx else Some cfx)"
  have p: "p = Some c1 \<Longrightarrow> legs c1 = legs cfx \<and> alg c1 = alg cfx" for c1
    using pick_first_leg_ok [of cfx c1] by (auto simp: p_def split: if_splits)
  have "conflux_decide_next_circ env pct cfx \<noteq> None"
  proof (cases p)
    case (Some c1)
    then have "conflux_decide_circ_minrtt env c1 \<noteq> None" "conflux_decide_circ_lowrtt env c1 \<noteq> None" "alg c1 \<noteq> 2"
      using p [OF Some] a l minrtt_returns [of c1] lowrtt_returns [of c1] by auto
    then show ?thesis using Some by (auto simp: conflux_decide_next_circ_def p_def [symmetric] Let_def)
  qed (simp add: conflux_decide_next_circ_def p_def [symmetric])
  then obtain nc c1 where nc: "conflux_decide_next_circ env pct cfx = Some (nc, c1)" by auto
  note c1 = next_circ_ok [OF nc ok]
  show ?thesis
  proof (cases nc)
    case (Some x)
    then obtain j where j: "curr_leg c1 = Some j" and x: "x \<in> leg_circ ` set (legs c1)" using c1 by auto
    obtain i where i: "conflux_get_leg c1 x = Some i" using x get_leg_None by (cases "conflux_get_leg c1 x") auto
    obtain sw c2 where "conflux_switch_leg c1 i = Some (sw, c2)"
      using switch_leg_ok [of n c1 i] c1 n get_leg_Some [OF i] j by auto
    then show ?thesis using True nc Some j i by (simp add: conflux_decide_circ_for_send_def)
  qed (use True nc in \<open>auto simp: conflux_decide_circ_for_send_def split: option.splits\<close>)
qed (simp add: conflux_decide_circ_for_send_def)

section \<open>The invariant\<close>

definition wire_of :: "'m endpoints \<Rightarrow> nat \<Rightarrow> 'm wire list" where
  "wire_of s i = chan s (leg_circ (legs (receiver s) ! i))"

definition in_flight :: "'m endpoints \<Rightarrow> (nat \<times> 'm) multiset" where
  "in_flight s = (\<Sum>i<length (legs (receiver s)).
     mset (numbered (last_seq_recv (legs (receiver s) ! i)) (wire_of s i)))"

definition queued :: "'m conflux \<Rightarrow> (nat \<times> 'm) multiset" where
  "queued cfx = image_mset (\<lambda>c. (seq c, cell c)) (items (ooo_q cfx))"

definition receiver_ok :: "nat \<Rightarrow> 'm conflux \<Rightarrow> bool" where
  "receiver_ok d cfx \<longleftrightarrow>
     distinct (map leg_circ (legs cfx)) \<and> last_seq_delivered cfx = d \<and>
     rep_ok (ooo_q cfx) \<and> heap_ordered conflux_queue_cmp (ooo_q cfx) \<and>
     ooo_q_bytes cfx = SIZEOF_CELL * qlen (ooo_q cfx)"

definition conflux_inv :: "'m endpoints \<Rightarrow> bool" where
  "conflux_inv s \<longleftrightarrow>
     length (sent s) \<le> MAX_CAPACITY \<and>
     sender_ok (length (sent s)) (sender s) \<and> receiver_ok (length (delivered s)) (receiver s) \<and>
     map leg_circ (legs (receiver s)) = map leg_circ (legs (sender s)) \<and>
     (\<forall>c. c \<notin> leg_circ ` set (legs (receiver s)) \<longrightarrow> chan s c = []) \<and>
     (\<forall>i<length (legs (receiver s)).
        end_seq (last_seq_recv (legs (receiver s) ! i)) (wire_of s i) = last_seq_sent (legs (sender s) ! i)) \<and>
     tagged (delivered s) + queued (receiver s) + in_flight s = tagged (sent s) \<and>
     Suc (length (delivered s)) \<notin> fst ` set_mset (queued (receiver s))"

lemma conflux_invD:
  assumes "conflux_inv s"
  shows "length (sent s) \<le> MAX_CAPACITY" and "sender_ok (length (sent s)) (sender s)"
    and "receiver_ok (length (delivered s)) (receiver s)"
    and "tagged (delivered s) + queued (receiver s) + in_flight s = tagged (sent s)"
    and "Suc (length (delivered s)) \<notin> fst ` set_mset (queued (receiver s))"
  using assms unfolding conflux_inv_def by blast+

interpretation conflux_queue: comparator conflux_queue_cmp
  by unfold_locales (auto simp: conflux_queue_cmp_def split: if_splits)

lemma initial_inv:
  assumes "distinct cs"
  shows "conflux_inv (initial a cs :: 'm endpoints)"
proof -
  have m: "map leg_circ (map new_leg cs) = cs" by (simp add: new_leg_def comp_def)
  have q: "rep_ok (pqueue_new :: 'm conflux_cell pqueue)" "heap_ordered conflux_queue_cmp (pqueue_new :: 'm conflux_cell pqueue)"
    "items (pqueue_new :: 'm conflux_cell pqueue) = {#}"
    using pqueue_new_ok [OF refl [of "pqueue_new :: 'm conflux_cell pqueue"]] by blast+
  have "qlen (pqueue_new :: 'm conflux_cell pqueue) = 0" using size_items [OF q(1)] q(3) by simp
  then show ?thesis using assms q m
    by (auto simp: conflux_inv_def initial_def conflux_new_def sender_ok_def receiver_ok_def queued_def
        in_flight_def wire_of_def new_leg_def)
qed

lemma update_rtt_inv:
  assumes "conflux_inv s"
  shows "conflux_inv (s\<lparr>sender := conflux_update_rtt (sender s) c rtt\<rparr>)"
proof (cases "conflux_get_leg (sender s) c")
  case (Some i)
  let ?S = "sender s" and ?S' = "conflux_update_rtt (sender s) c rtt"
  have i: "i < length (legs ?S)" using get_leg_Some [OF Some] by simp
  have l: "legs ?S' = (legs ?S)[i := (legs ?S ! i)\<lparr>circ_rtts_usec := rtt\<rparr>]" "curr_leg ?S' = curr_leg ?S"
    using Some by (simp_all add: conflux_update_rtt_def)
  have e: "map leg_circ (legs ?S') = map leg_circ (legs ?S)" "map last_seq_sent (legs ?S') = map last_seq_sent (legs ?S)"
    using i by (simp_all add: l map_update list_update_same_conv)
  have len: "length (legs (receiver s)) = length (legs ?S)" using assms by (metis conflux_inv_def length_map)
  have "last_seq_sent (legs ?S' ! j) = last_seq_sent (legs ?S ! j)" if "j < length (legs ?S)" for j
    using e(2) that by (metis length_map nth_map)
  moreover have "sender_ok (length (sent s)) ?S'"
    using assms sender_ok_cong [OF e l(2)] by (simp add: conflux_inv_def)
  ultimately show ?thesis using assms e(1) len by (simp add: conflux_inv_def in_flight_def wire_of_def)
qed (use assms in \<open>simp add: conflux_update_rtt_def\<close>)

section \<open>Steps keep the invariant\<close>

lemma sum_mset_update:
  fixes f g :: "nat \<Rightarrow> 'b multiset"
  assumes "i < n" and "\<And>j. j < n \<Longrightarrow> j \<noteq> i \<Longrightarrow> f j = g j" and "f i = g i + X"
  shows "(\<Sum>j<n. f j) = (\<Sum>j<n. g j) + X"
proof -
  have "(\<Sum>j<n. f j) = (\<Sum>j<n. g j + (if j = i then X else {#}))" using assms(2,3) by (intro sum.cong) auto
  also have "\<dots> = (\<Sum>j<n. g j) + X" using assms(1) by (simp add: sum.distrib)
  finally show ?thesis .
qed

lemma tagged_disjoint:
  assumes "A + B \<subseteq># tagged xs" and "(k, x) \<in># A" and "(k, y) \<in># B"
  shows False
proof -
  obtain A' B' where "A = add_mset (k, x) A'" "B = add_mset (k, y) B'" using assms(2,3) by (meson mset_add)
  then show False using assms(1) tagged_unique [of k y x "A' + B'" xs] by simp
qed

lemma size_tagged [simp]: "size (tagged xs) = length xs"
  by (simp add: tagged_def del: upt_Suc)

lemma tagged_prefix:
  assumes "tagged ds \<subseteq># tagged xs"
  shows "ds = take (length ds) xs" and "length ds \<le> length xs"
proof -
  have n: "xs ! i = ds ! i" if "i < length ds" for i
    using mset_subset_eqD [OF assms, of "(Suc i, ds ! i)"] that by (simp add: in_tagged)
  show l: "length ds \<le> length xs" using size_mset_mono [OF assms] by simp
  show "ds = take (length ds) xs" using n l by (auto intro!: nth_equalityI)
qed

lemma queue_ahead:
  assumes "tagged ds + Q \<subseteq># tagged xs" and "(k, x) \<in># Q"
  shows "length ds < k"
proof (rule ccontr)
  assume "\<not> length ds < k"
  moreover have "0 < k" using mset_subset_eqD [OF assms(1), of "(k, x)"] assms(2) by (simp add: in_tagged)
  ultimately have "(k, ds ! (k - 1)) \<in># tagged ds" by (simp add: in_tagged)
  then show False using tagged_disjoint [OF assms(1) _ assms(2)] by blast
qed

lemma map_circ_update:
  "i < length ls \<Longrightarrow> map leg_circ (ls[i := (ls ! i)\<lparr>last_seq_sent := v\<rparr>]) = map leg_circ ls"
  "i < length ls \<Longrightarrow> map leg_circ (ls[i := (ls ! i)\<lparr>last_seq_recv := v\<rparr>]) = map leg_circ ls"
  by (rule nth_equalityI; simp add: nth_list_update)+

lemma send_inv:
  assumes inv: "conflux_inv s" and m: "conflux_should_multiplex cmd" and n: "length (sent s) < MAX_CAPACITY"
    and s': "send_cell env pct orig cmd x s = Some s'"
  shows "conflux_inv s'"
proof -
  let ?N = "length (sent s)" and ?S = "sender s" and ?R = "receiver s"
  obtain c sw cfx where d: "conflux_decide_circ_for_send env pct ?S orig cmd = Some (Some c, sw, cfx)"
    and s'_eq: "s' = s\<lparr>sender := conflux_note_cell_sent cfx c cmd,
      chan := (chan s)(c := chan s c @ switch_of sw @ [Data x]), sent := sent s @ [x]\<rparr>"
    using s' by (auto simp: send_cell_def switch_of_def split: option.splits)
  have sok: "sender_ok ?N ?S" using inv by (simp add: conflux_inv_def)
  obtain i where i: "i < length (legs ?S)" "leg_circ (legs ?S ! i) = c" "curr_leg cfx = Some i"
    "legs cfx = (legs ?S)[i := (legs ?S ! i)\<lparr>last_seq_sent := ?N\<rparr>]"
    and w: "end_seq (last_seq_sent (legs ?S ! i)) (switch_of sw :: 'a wire list) = ?N"
    "numbered (last_seq_sent (legs ?S ! i)) (switch_of sw :: 'a wire list) = []"
    using for_send_ok [OF d m sok] n by auto
  have circs: "map leg_circ (legs cfx) = map leg_circ (legs ?S)" "distinct (map leg_circ (legs ?S))"
    using i sok by (simp_all only: map_circ_update sender_ok_def)
  have "conflux_get_leg cfx c = Some i" using get_leg_nth [of cfx i] circs i by simp
  then have S': "legs (conflux_note_cell_sent cfx c cmd) = (legs ?S)[i := (legs ?S ! i)\<lparr>last_seq_sent := Suc ?N\<rparr>]"
    "curr_leg (conflux_note_cell_sent cfx c cmd) = Some i"
    using i m n by (simp_all add: conflux_note_cell_sent_def Let_def)
  have sok': "sender_ok (Suc ?N) (conflux_note_cell_sent cfx c cmd)"
  proof -
    have "map leg_circ (legs (conflux_note_cell_sent cfx c cmd)) = map leg_circ (legs ?S)"
      using i by (simp only: S' map_circ_update)
    moreover have "last_seq_sent leg \<le> Suc ?N" if "leg \<in> set (legs (conflux_note_cell_sent cfx c cmd))" for leg
      using that sok set_update_subset_insert [of "legs ?S" i] by (force simp: S' sender_ok_def)
    ultimately show ?thesis using circs i by (simp add: sender_ok_def S'(2)) (simp add: S')
  qed
  have same: "map leg_circ (legs ?R) = map leg_circ (legs ?S)" and len: "length (legs ?R) = length (legs ?S)"
    using inv by (auto simp: conflux_inv_def dest: map_eq_imp_length_eq)
  then have rc: "leg_circ (legs ?R ! j) = leg_circ (legs ?S ! j)" if "j < length (legs ?S)" for j
    using that by (metis nth_map)
  have ne: "leg_circ (legs ?S ! j) \<noteq> c" if "j < length (legs ?S)" "j \<noteq> i" for j
    using circs(2) i that by (auto simp: distinct_conv_nth)
  have wire: "wire_of s' j = (if j = i then wire_of s i @ switch_of sw @ [Data x] else wire_of s j)"
    if "j < length (legs ?S)" for j
    using that ne [of j] rc i by (auto simp: wire_of_def s'_eq)
  have ends: "end_seq (last_seq_recv (legs ?R ! j)) (wire_of s j) = last_seq_sent (legs ?S ! j)" if "j < length (legs ?S)" for j
    using inv that len by (simp add: conflux_inv_def)
  have fl: "in_flight s' = in_flight s + {#(Suc ?N, x)#}"
  proof -
    have R': "receiver s' = ?R" by (simp add: s'_eq)
    show ?thesis unfolding in_flight_def R'
      by (rule sum_mset_update [of i]) (use i w ends len wire in simp_all)
  qed
  moreover have "\<forall>j<length (legs ?R). end_seq (last_seq_recv (legs ?R ! j)) (wire_of s' j) =
      last_seq_sent (legs (conflux_note_cell_sent cfx c cmd) ! j)"
    using ends wire w i len by (simp add: S')
  moreover have "map leg_circ (legs ?R) = map leg_circ (legs (conflux_note_cell_sent cfx c cmd))"
    using same i by (simp only: S' map_circ_update)
  moreover have "c \<in> leg_circ ` set (legs ?R)" using i same by (metis image_eqI list.set_map nth_mem)
  ultimately show ?thesis using inv n sok'
    unfolding conflux_inv_def by (simp add: s'_eq)
qed

lemma queued_items: "c \<in># items (ooo_q cfx) \<Longrightarrow> (seq c, cell c) \<in># queued cfx"
  by (auto simp: queued_def)

lemma cell_eqI: "seq a = seq b \<Longrightarrow> cell a = cell b \<Longrightarrow> a = (b :: 'm conflux_cell)"
  by simp

lemma size_queued: "rep_ok (ooo_q cfx) \<Longrightarrow> size (queued cfx) = qlen (ooo_q cfx)"
  by (simp add: queued_def size_items)

text \<open>One delivery from the queue.\<close>

lemma dequeue_step:
  assumes r: "receiver_ok (length ds) cfx" and sub: "tagged ds + queued cfx \<subseteq># tagged xs"
    and n: "length xs \<le> MAX_CAPACITY" and d: "conflux_dequeue_cell cfx = Some (c, cfx')"
  shows "receiver_ok (Suc (length ds)) cfx'" and "legs cfx' = legs cfx" and "Suc (qlen (ooo_q cfx')) = qlen (ooo_q cfx)"
    and "tagged (ds @ [cell c]) + queued cfx' = tagged ds + queued cfx"
proof -
  let ?q = "ooo_q cfx"
  have q: "rep_ok ?q" "heap_ordered conflux_queue_cmp ?q" "last_seq_delivered cfx = length ds"
    using r by (simp_all add: receiver_ok_def)
  have len: "length ds + qlen ?q \<le> MAX_CAPACITY" using size_mset_mono [OF sub] n size_queued [OF q(1)] by simp
  have pos: "0 < qlen ?q" using d by (auto simp: conflux_dequeue_cell_def split: if_splits)
  obtain q' where p: "smartlist_pqueue_pop conflux_queue_cmp ?q = Some (item ?q 0, q')" "rep_ok q'"
    "heap_ordered conflux_queue_cmp q'" "items ?q = add_mset (item ?q 0) (items q')"
    using conflux_queue.pqueue_pop_correct [OF q(1,2) pos] by blast
  have w: "wrap64 (Suc (length ds)) = Suc (length ds)" using len by simp
  have c: "c = item ?q 0" "seq c = Suc (length ds)"
    and cfx': "cfx' = cfx\<lparr>ooo_q := q', ooo_q_bytes := wrap64 (ooo_q_bytes cfx + 2 ^ 64 - SIZEOF_CELL),
      last_seq_delivered := Suc (length ds)\<rparr>"
    using d p(1) q(3) w pos by (auto simp: conflux_dequeue_cell_def Let_def split: if_splits)
  show ql: "Suc (qlen (ooo_q cfx')) = qlen ?q" using p(2,4) q(1) by (simp add: cfx' flip: size_items)
  show "legs cfx' = legs cfx" by (simp add: cfx')
  show "tagged (ds @ [cell c]) + queued cfx' = tagged ds + queued cfx"
    using p(4) c by (simp add: queued_def cfx')
  have b: "ooo_q_bytes cfx = SIZEOF_CELL * Suc (qlen q')" using r ql by (simp add: receiver_ok_def cfx')
  have "qlen q' \<le> MAX_CAPACITY" using len ql by (simp add: cfx')
  then have "wrap64 (ooo_q_bytes cfx + 2 ^ 64 - SIZEOF_CELL) = SIZEOF_CELL * qlen q'"
    by (simp add: b wrap64_def SIZEOF_CELL_def MAX_CAPACITY_def INT_MAX_def)
  then show "receiver_ok (Suc (length ds)) cfx'" using r p(2,3) by (simp add: receiver_ok_def cfx')
qed

text \<open>The loop stops, with nothing left in the queue that could be delivered next.\<close>

lemma dequeue_all_ok:
  assumes "receiver_ok (length ds) cfx" and "tagged ds + queued cfx \<subseteq># tagged xs" and "length xs \<le> MAX_CAPACITY"
  shows "\<exists>cs cfx'. dequeue_all cfx = Some (cs, cfx') \<and> receiver_ok (length (ds @ cs)) cfx' \<and> legs cfx' = legs cfx \<and>
    tagged (ds @ cs) + queued cfx' = tagged ds + queued cfx \<and>
    Suc (length (ds @ cs)) \<notin> fst ` set_mset (queued cfx')"
  using assms
proof (induction "qlen (ooo_q cfx)" arbitrary: ds cfx rule: less_induct)
  case less
  show ?case
  proof (cases "conflux_dequeue_cell cfx")
    case None
    let ?q = "ooo_q cfx"
    have q: "rep_ok ?q" "heap_ordered conflux_queue_cmp ?q" "last_seq_delivered cfx = length ds"
      using less.prems(1) by (simp_all add: receiver_ok_def)
    have len: "length ds + qlen ?q \<le> MAX_CAPACITY"
      using size_mset_mono [OF less.prems(2)] less.prems(3) size_queued [OF q(1)] by simp
    have "Suc (length ds) \<noteq> seq c" if c: "c \<in># items ?q" for c
    proof
      assume e: "Suc (length ds) = seq c"
      have pos: "0 < qlen ?q" using c size_items [OF q(1)] by (metis gr0I empty_not_add_mset mset_add size_eq_0_iff_empty)
      have r: "item ?q 0 \<in># items ?q" "conflux_queue_cmp (item ?q 0) c \<le> 0"
        using pos item_in_items [OF q(1)] c conflux_queue.heap_root_min [OF q(2)] by auto
      have "length ds < seq (item ?q 0)" using queue_ahead [OF less.prems(2) queued_items [OF r(1)]] .
      then have "seq (item ?q 0) = Suc (length ds)" using r(2) e by (auto simp: conflux_queue_cmp_def split: if_splits)
      then obtain p where "smartlist_pqueue_pop conflux_queue_cmp ?q = None"
        using None pos q(3) len by (auto simp: conflux_dequeue_cell_def Let_def split: option.splits)
      then show False using conflux_queue.pqueue_pop_correct [OF q(1,2) pos] by auto
    qed
    then have "Suc (length ds) \<notin> fst ` set_mset (queued cfx)"
      unfolding queued_def set_image_mset image_image fst_conv by blast
    then show ?thesis using less.prems None by (subst dequeue_all.simps) simp
  next
    case (Some a)
    obtain c c1 where a: "a = (c, c1)" by (cases a)
    note st = dequeue_step [OF less.prems Some [unfolded a]]
    obtain cs cfx' where "dequeue_all c1 = Some (cs, cfx')" "receiver_ok (length ((ds @ [cell c]) @ cs)) cfx'" "legs cfx' = legs c1"
      "tagged ((ds @ [cell c]) @ cs) + queued cfx' = tagged (ds @ [cell c]) + queued c1"
      "Suc (length ((ds @ [cell c]) @ cs)) \<notin> fst ` set_mset (queued cfx')"
      using less.hyps [of c1 "ds @ [cell c]"] st less.prems by (metis length_append_singleton lessI)
    then show ?thesis using st Some a
      by (intro exI [of _ "cell c # cs"] exI [of _ cfx']) (subst dequeue_all.simps, simp)
  qed
qed

lemma receive_frame:
  assumes inv: "conflux_inv s" and i: "i < length (legs (receiver s))" "leg_circ (legs (receiver s) ! i) = c"
    and w: "chan s c = w # ms"
    and l: "legs (receiver s') = (legs (receiver s))[i := (legs (receiver s) ! i)\<lparr>last_seq_recv := v\<rparr>]"
    and k: "numbered (last_seq_recv (legs (receiver s) ! i)) (w # ms) = xs @ numbered v ms"
    and e: "end_seq (last_seq_recv (legs (receiver s) ! i)) (w # ms) = end_seq v ms"
    and s': "sender s' = sender s" "chan s' = (chan s)(c := ms)"
  shows "in_flight s = in_flight s' + mset xs"
    and "\<forall>j<length (legs (receiver s')). end_seq (last_seq_recv (legs (receiver s') ! j)) (wire_of s' j) =
      last_seq_sent (legs (sender s') ! j)"
    and "map leg_circ (legs (receiver s')) = map leg_circ (legs (receiver s))"
    and "\<forall>c. c \<notin> leg_circ ` set (legs (receiver s')) \<longrightarrow> chan s' c = []"
proof -
  let ?R = "receiver s"
  show circs: "map leg_circ (legs (receiver s')) = map leg_circ (legs ?R)" using i by (simp only: l map_circ_update)
  have d: "distinct (map leg_circ (legs ?R))" using conflux_invD(3) [OF inv] by (simp add: receiver_ok_def)
  have len: "length (legs (receiver s')) = length (legs ?R)" by (simp add: l)
  have rc: "leg_circ (legs (receiver s') ! j) = leg_circ (legs ?R ! j)" if "j < length (legs ?R)" for j
    using circs that by (metis len nth_map)
  have ne: "leg_circ (legs ?R ! j) \<noteq> c" if "j < length (legs ?R)" "j \<noteq> i" for j
    using d i that by (auto simp: distinct_conv_nth)
  have wire: "wire_of s' j = (if j = i then ms else wire_of s j)" if "j < length (legs ?R)" for j
    using that ne [of j] rc [of j] i by (auto simp: wire_of_def s')
  have wi: "wire_of s i = w # ms" using i w by (simp add: wire_of_def)
  show "in_flight s = in_flight s' + mset xs"
    unfolding in_flight_def len
    by (rule sum_mset_update [of i]) (use i k wire wi in \<open>simp_all add: l nth_list_update\<close>)
  show "\<forall>j<length (legs (receiver s')). end_seq (last_seq_recv (legs (receiver s') ! j)) (wire_of s' j) =
      last_seq_sent (legs (sender s') ! j)"
    using inv e wire wi len by (auto simp: conflux_inv_def l nth_list_update s')
  have "leg_circ ` set (legs (receiver s')) = leg_circ ` set (legs ?R)" using circs by (metis list.set_map)
  moreover have "c \<in> leg_circ ` set (legs ?R)" using i by force
  ultimately show "\<forall>c. c \<notin> leg_circ ` set (legs (receiver s')) \<longrightarrow> chan s' c = []"
    using inv by (auto simp: conflux_inv_def s')
qed

lemma receive_leg:
  assumes inv: "conflux_inv s" and w: "chan s c = w # ms"
  obtains i where "conflux_get_leg (receiver s) c = Some i" "i < length (legs (receiver s))"
    "leg_circ (legs (receiver s) ! i) = c"
    "end_seq (last_seq_recv (legs (receiver s) ! i)) (w # ms) \<le> length (sent s)"
proof -
  have "c \<in> leg_circ ` set (legs (receiver s))" using inv w by (auto simp: conflux_inv_def)
  then obtain i where i: "conflux_get_leg (receiver s) c = Some i"
    using get_leg_None [of "receiver s" c] by (cases "conflux_get_leg (receiver s) c") auto
  note il = get_leg_Some [OF i]
  have len: "length (legs (receiver s)) = length (legs (sender s))"
    using inv by (metis conflux_inv_def length_map)
  have "end_seq (last_seq_recv (legs (receiver s) ! i)) (wire_of s i) = last_seq_sent (legs (sender s) ! i)"
    using inv il by (simp add: conflux_inv_def)
  moreover have "last_seq_sent (legs (sender s) ! i) \<le> length (sent s)"
    using inv il len by (auto simp: conflux_inv_def sender_ok_def)
  ultimately show ?thesis using that [OF i] il w by (simp add: wire_of_def)
qed

lemma receive_switch:
  assumes inv: "conflux_inv s" and hop: "conflux_validate_source_hop (env c) hint" and w: "chan s c = Switch r # ms"
  shows "\<exists>s'. receive_cell env hint c s = Some s' \<and> conflux_inv s' \<and> sent s' = sent s \<and> chan s' = (chan s)(c := ms)"
proof -
  let ?R = "receiver s"
  obtain i where i: "conflux_get_leg ?R c = Some i" "i < length (legs ?R)" "leg_circ (legs ?R ! i) = c"
    "end_seq (last_seq_recv (legs ?R ! i)) (Switch r # ms) \<le> length (sent s)"
    using receive_leg [OF inv w] .
  let ?v = "last_seq_recv (legs ?R ! i) + r"
  have N: "length (sent s) \<le> MAX_CAPACITY" using inv by (simp add: conflux_inv_def)
  have "?v \<le> end_seq ?v ms" by (rule end_seq_ge)
  then have v: "wrap64 ?v = ?v" using i(4) N by simp
  define s' where "s' = s\<lparr>receiver := ?R\<lparr>legs := (legs ?R)[i := (legs ?R ! i)\<lparr>last_seq_recv := ?v\<rparr>]\<rparr>, chan := (chan s)(c := ms)\<rparr>"
  have r: "receive_cell env hint c s = Some s'"
    using w i(1) hop v by (simp add: receive_cell_def conflux_process_switch_command_def s'_def)
  note fr = receive_frame [OF inv i(2,3) w, of s' ?v "[]"]
  have "receiver_ok (length (delivered s)) (receiver s')"
    using conflux_invD(3) [OF inv] i(2) by (simp add: receiver_ok_def s'_def map_circ_update)
  moreover have "queued (receiver s') = queued ?R" by (simp add: queued_def s'_def)
  ultimately have "conflux_inv s'"
    using inv fr by (simp add: conflux_inv_def s'_def)
  then show ?thesis using r by (simp add: s'_def)
qed

text \<open>A data cell is delivered, with all that follows it in the queue, or queued; it is never a
  duplicate.\<close>

lemma process_relay_cell_ok:
  assumes inv: "conflux_inv s" and hop: "conflux_validate_source_hop (env c) hint"
    and i: "conflux_get_leg (receiver s) c = Some i" "i < length (legs (receiver s))"
    and k: "k = Suc (last_seq_recv (legs (receiver s) ! i))" "k \<le> length (sent s)"
    and fl: "(k, m) \<in># in_flight s"
  shows "\<exists>cs R'. process_relay_cell env (receiver s) c hint m = Some (Inr (cs, R')) \<and>
    legs R' = (legs (receiver s))[i := (legs (receiver s) ! i)\<lparr>last_seq_recv := k\<rparr>] \<and>
    receiver_ok (length (delivered s @ cs)) R' \<and>
    tagged (delivered s @ cs) + queued R' = add_mset (k, m) (tagged (delivered s) + queued (receiver s)) \<and>
    Suc (length (delivered s @ cs)) \<notin> fst ` set_mset (queued R')"
proof -
  let ?R = "receiver s" and ?D = "length (delivered s)" and ?N = "length (sent s)"
  note invs = conflux_invD [OF inv]
  define R1 where "R1 = ?R\<lparr>legs := (legs ?R)[i := (legs ?R ! i)\<lparr>last_seq_recv := k\<rparr>]\<rparr>"
  have q1: "queued R1 = queued ?R" "receiver_ok ?D R1"
    using invs(3) i(2) by (simp_all add: R1_def queued_def receiver_ok_def map_circ_update)
  have sub: "tagged (delivered s) + queued ?R + {#(k, m)#} \<subseteq># tagged (sent s)"
    using fl by (simp flip: invs(4))
  have DN: "?D + qlen (ooo_q ?R) < ?N"
    using size_mset_mono [OF sub] invs(3) by (simp add: size_queued receiver_ok_def)
  have w: "wrap64 k = k" "wrap64 (Suc ?D) = Suc ?D" using k(2) DN invs(1) by simp_all
  have ld: "last_seq_delivered ?R = ?D" using invs(3) by (simp add: receiver_ok_def)
  have ahead: "?D < k" using queue_ahead [of "delivered s" "queued ?R + {#(k, m)#}" "sent s" k m] sub by simp
  have pc: "conflux_process_cell env ?R c hint m =
      (if k = Suc ?D then Some (Inr (True, R1\<lparr>last_seq_delivered := Suc ?D\<rparr>))
       else (case smartlist_pqueue_add conflux_queue_cmp \<lparr>seq = k, cell = m\<rparr> (ooo_q ?R) of
               None \<Rightarrow> None
             | Some q \<Rightarrow> Some (Inr (False, R1\<lparr>ooo_q := q, ooo_q_bytes := wrap64 (ooo_q_bytes ?R + SIZEOF_CELL)\<rparr>))))"
    using i(1) hop w ld ahead k(1) by (simp add: conflux_process_cell_def Let_def R1_def cong: option.case_cong)
  show ?thesis
  proof (cases "k = Suc ?D")
    case True
    let ?R2 = "R1\<lparr>last_seq_delivered := Suc ?D\<rparr>"
    have "receiver_ok (length (delivered s @ [m])) ?R2" "queued ?R2 = queued ?R"
      using q1 by (simp_all add: receiver_ok_def queued_def)
    moreover have "tagged (delivered s @ [m]) + queued ?R \<subseteq># tagged (sent s)" using sub True by simp
    ultimately obtain cs R' where cs: "dequeue_all ?R2 = Some (cs, R')" "receiver_ok (length ((delivered s @ [m]) @ cs)) R'"
      "legs R' = legs ?R2" "tagged ((delivered s @ [m]) @ cs) + queued R' = tagged (delivered s @ [m]) + queued ?R"
      "Suc (length ((delivered s @ [m]) @ cs)) \<notin> fst ` set_mset (queued R')"
      using dequeue_all_ok [of "delivered s @ [m]" ?R2 "sent s"] invs(1) by auto
    have "process_relay_cell env ?R c hint m = Some (Inr (m # cs, R'))"
      using pc True cs(1) by (simp add: process_relay_cell_def)
    then show ?thesis using cs True by (intro exI [of _ "m # cs"] exI [of _ R']) (simp add: R1_def)
  next
    case False
    let ?c = "\<lparr>seq = k, cell = m\<rparr>"
    have rq: "rep_ok (ooo_q ?R)" "heap_ordered conflux_queue_cmp (ooo_q ?R)" using invs(3) by (simp_all add: receiver_ok_def)
    have "?c \<notin># items (ooo_q ?R)"
    proof
      assume "?c \<in># items (ooo_q ?R)"
      then have "(k, m) \<in># queued ?R" using queued_items [of ?c ?R] by simp
      then show False using tagged_disjoint [of "tagged (delivered s) + queued ?R" "{#(k, m)#}" "sent s" k m m] sub by simp
    qed
    then obtain q where q: "smartlist_pqueue_add conflux_queue_cmp ?c (ooo_q ?R) = Some q" "rep_ok q"
      "heap_ordered conflux_queue_cmp q" "items q = add_mset ?c (items (ooo_q ?R))"
      using conflux_queue.pqueue_add_correct [OF rq, of ?c] DN invs(1) by auto
    let ?R2 = "R1\<lparr>ooo_q := q, ooo_q_bytes := wrap64 (ooo_q_bytes ?R + SIZEOF_CELL)\<rparr>"
    have qq: "queued ?R2 = add_mset (k, m) (queued ?R)" using q(4) by (simp add: queued_def)
    have ql: "qlen q = Suc (qlen (ooo_q ?R))" using size_items [OF q(2)] q(4) size_items [OF rq(1)] by simp
    have "wrap64 (SIZEOF_CELL * qlen (ooo_q ?R) + SIZEOF_CELL) = SIZEOF_CELL * qlen q"
      using DN invs(1) ql by (simp add: wrap64_def SIZEOF_CELL_def MAX_CAPACITY_def INT_MAX_def)
    then have "receiver_ok ?D ?R2" using q1(2) q(2,3) invs(3) by (simp add: receiver_ok_def)
    moreover have "process_relay_cell env ?R c hint m = Some (Inr ([], ?R2))"
      using pc False q(1) by (simp add: process_relay_cell_def)
    moreover have "Suc ?D \<notin> fst ` set_mset (queued ?R2)" using invs(5) qq False by auto
    ultimately show ?thesis using qq by (intro exI [of _ "[]"] exI [of _ ?R2]) (simp add: R1_def)
  qed
qed

lemma receive_data:
  assumes inv: "conflux_inv s" and hop: "conflux_validate_source_hop (env c) hint" and w: "chan s c = Data m # ms"
  shows "\<exists>s'. receive_cell env hint c s = Some s' \<and> conflux_inv s' \<and> sent s' = sent s \<and> chan s' = (chan s)(c := ms)"
proof -
  let ?R = "receiver s"
  obtain i where i: "conflux_get_leg ?R c = Some i" "i < length (legs ?R)" "leg_circ (legs ?R ! i) = c"
    "end_seq (last_seq_recv (legs ?R ! i)) (Data m # ms) \<le> length (sent s)"
    using receive_leg [OF inv w] .
  define k where "k = Suc (last_seq_recv (legs ?R ! i))"
  have "k \<le> end_seq k ms" by (rule end_seq_ge)
  then have kN: "k \<le> length (sent s)" using i(4) by (simp add: k_def)
  define s1 where "s1 = s\<lparr>receiver := ?R\<lparr>legs := (legs ?R)[i := (legs ?R ! i)\<lparr>last_seq_recv := k\<rparr>]\<rparr>, chan := (chan s)(c := ms)\<rparr>"
  have fl: "in_flight s = in_flight s1 + {#(k, m)#}"
    using receive_frame(1) [OF inv i(2,3) w, of s1 k "[(k, m)]"] by (simp add: s1_def k_def)
  obtain cs R' where p: "process_relay_cell env ?R c hint m = Some (Inr (cs, R'))"
    "legs R' = (legs ?R)[i := (legs ?R ! i)\<lparr>last_seq_recv := k\<rparr>]"
    "receiver_ok (length (delivered s @ cs)) R'"
    "tagged (delivered s @ cs) + queued R' = add_mset (k, m) (tagged (delivered s) + queued ?R)"
    "Suc (length (delivered s @ cs)) \<notin> fst ` set_mset (queued R')"
    using process_relay_cell_ok [of s env c hint, OF inv hop i(1,2) k_def kN, of m] fl by auto
  define s' where "s' = s\<lparr>receiver := R', chan := (chan s)(c := ms), delivered := delivered s @ cs\<rparr>"
  have r: "receive_cell env hint c s = Some s'" using w p(1) by (simp add: receive_cell_def s'_def)
  note fr = receive_frame [OF inv i(2,3) w, of s' k "[(k, m)]"]
  have fl': "in_flight s = in_flight s' + {#(k, m)#}" using fr(1) p(2) by (simp add: s'_def k_def)
  have "tagged (delivered s') + queued (receiver s') + in_flight s' = tagged (sent s')"
    using p(4) fl' conflux_invD(4) [OF inv] by (simp add: s'_def)
  then have "conflux_inv s'"
    using inv fr p(2,3,5) by (simp add: conflux_inv_def s'_def k_def)
  then show ?thesis using r by (simp add: s'_def)
qed

lemma receive_ok:
  assumes "conflux_inv s" and "conflux_validate_source_hop (env c) hint" and "chan s c = w # ms"
  shows "\<exists>s'. receive_cell env hint c s = Some s' \<and> conflux_inv s' \<and> sent s' = sent s \<and> chan s' = (chan s)(c := ms)"
  using receive_switch [of s env c hint] receive_data [of s env c hint] assms by (cases w) auto

lemma step_inv: "step s s' \<Longrightarrow> conflux_inv s \<Longrightarrow> conflux_inv s'"
proof (induction rule: step.induct)
  case (receive env c hint s s')
  then obtain w ms where "chan s c = w # ms" by (cases "chan s c") (auto simp: receive_cell_def)
  then show ?case using receive_ok [of s env c hint] receive by auto
qed (auto intro: send_inv update_rtt_inv)

lemma reachable_inv: "reachable a cs s \<Longrightarrow> conflux_inv s"
  by (induction rule: reachable.induct) (auto intro: initial_inv step_inv)

lemma step_set: "step s s' \<Longrightarrow> conflux_inv s \<Longrightarrow>
    alg (sender s') = alg (sender s) \<and> map leg_circ (legs (sender s')) = map leg_circ (legs (sender s))"
proof (induction rule: step.induct)
  case (send cmd s env pct orig m s')
  obtain c sw cfx where d: "conflux_decide_circ_for_send env pct (sender s) orig cmd = Some (Some c, sw, cfx)"
    and s': "sender s' = conflux_note_cell_sent cfx c cmd"
    using send.hyps(3) by (auto simp: send_cell_def split: option.splits)
  obtain i where i: "i < length (legs (sender s))" "alg cfx = alg (sender s)"
    "legs cfx = (legs (sender s))[i := (legs (sender s) ! i)\<lparr>last_seq_sent := length (sent s)\<rparr>]"
    using for_send_ok [OF d send.hyps(1) conflux_invD(2,1)] send.prems by blast
  have "alg (conflux_note_cell_sent cfx c cmd) = alg cfx \<and>
      map leg_circ (legs (conflux_note_cell_sent cfx c cmd)) = map leg_circ (legs cfx)"
    using get_leg_Some [of cfx c]
    by (auto simp: conflux_note_cell_sent_def Let_def map_circ_update split: option.splits)
  then show ?case using s' i by (simp add: map_circ_update)
next
  case (receive env c hint s s')
  then show ?case by (auto simp: receive_cell_def split: list.splits wire.splits sum.splits option.splits)
next
  case (rtt s c r)
  have "map leg_circ (ls[i := (ls ! i)\<lparr>circ_rtts_usec := r\<rparr>]) = map leg_circ ls" if "i < length ls" for i ls
    using that by (intro nth_equalityI) (simp_all add: nth_list_update)
  then show ?case using get_leg_Some [of "sender s" c] by (auto simp: conflux_update_rtt_def split: option.splits)
qed

lemma reachable_set:
  "reachable a cs s \<Longrightarrow> alg (sender s) = a \<and> map leg_circ (legs (sender s)) = cs"
proof (induction rule: reachable.induct)
  case start
  then show ?case by (simp add: initial_def conflux_new_def new_leg_def comp_def)
next
  case (step s s')
  then show ?case using step_set reachable_inv by metis
qed

section \<open>In order, exactly once\<close>

text \<open>A BEGIN cell sent first goes out on the first leg.\<close>

lemma one_sent: "\<exists>s. reachable 0 [1, 2] s \<and> sent s = [7 :: nat] \<and> chan s = (\<lambda>_. [])(1 := [Data 7])"
proof -
  let ?s = "initial 0 [1, 2] :: nat endpoints"
  obtain s where s: "send_cell env 0 1 1 7 ?s = Some s" "sent s = [7]" "chan s = (\<lambda>_. [])(1 := [Data 7])"
    by (simp add: send_cell_def initial_def conflux_new_def new_leg_def conflux_decide_circ_for_send_def
        conflux_should_multiplex_def conflux_decide_next_circ_def conflux_pick_first_leg_def conflux_can_switch_def
        conflux_decide_circ_minrtt_def RELAY_COMMAND_DATA_def)
  have "step ?s s"
    by (rule step.send [of 1 _ env 0 1 7])
      (use s in \<open>simp_all add: conflux_should_multiplex_def initial_def MAX_CAPACITY_def INT_MAX_def\<close>)
  moreover have "reachable 0 [1, 2] ?s" by (rule reachable.start) simp
  ultimately show ?thesis using s reachable.step by blast
qed

text \<open>C8: However cells are spread over the legs and however the arrivals on different legs
  interleave, the cells the receiver has passed on to the streams are a prefix of the cells handed to
  the sender: in order, none lost, none twice. (A set carries at most \<open>INT_MAX\<close> cells here, the
  bound of the queue and well below the one of the SWITCH cell.)\<close>

theorem conflux_in_order:
  assumes "reachable a cs s"
  shows "prefix (delivered s) (sent s)"
proof -
  have "tagged (delivered s) \<subseteq># tagged (sent s)"
    using conflux_invD(4) [OF reachable_inv [OF assms]] by (metis mset_subset_eq_add_left union_assoc)
  then show ?thesis using tagged_prefix(1) take_is_prefix by metis
qed

theorem conflux_in_order_witness:
  "\<exists>s. reachable 0 [1, 2] s \<and> sent s = [7 :: nat] \<and> prefix (delivered s) [7]"
proof -
  obtain s where s: "reachable 0 [1, 2] s" "sent s = [7 :: nat]" using one_sent by blast
  show ?thesis using conflux_in_order [OF s(1)] s by auto
qed

lemma drained_inv:
  assumes inv: "conflux_inv s" and e: "\<And>c. chan s c = []"
  shows "delivered s = sent s \<and> qlen (ooo_q (receiver s)) = 0"
proof -
  note invs = conflux_invD [OF inv]
  have "in_flight s = {#}" by (simp add: in_flight_def wire_of_def e)
  then have t: "tagged (delivered s) + queued (receiver s) = tagged (sent s)" using invs(4) by simp
  have p: "delivered s = take (length (delivered s)) (sent s)" "length (delivered s) \<le> length (sent s)"
    using tagged_prefix [of "delivered s" "sent s"] t by (metis mset_subset_eq_add_left)+
  have "length (delivered s) = length (sent s)"
  proof (rule ccontr)
    assume "length (delivered s) \<noteq> length (sent s)"
    then have "(Suc (length (delivered s)), sent s ! length (delivered s)) \<in># tagged (sent s)"
      using p(2) by (simp add: in_tagged)
    then have "(Suc (length (delivered s)), sent s ! length (delivered s)) \<in># queued (receiver s)"
      using t by (metis in_tagged not_less_eq_eq order_refl union_iff)
    then show False using invs(5) by force
  qed
  moreover have "size (queued (receiver s)) = length (sent s) - length (delivered s)"
    using arg_cong [OF t, of size] by simp
  ultimately show ?thesis using p(1) invs(3) size_queued [of "receiver s"] by (simp add: receiver_ok_def)
qed

text \<open>C12: From every reachable state, when the cells in flight arrive, in whatever interleaving of
  the legs, each of them is accepted, and then every cell sent has been delivered and the out-of-order queue is
  empty: the reordering never gets stuck and never closes a circuit.\<close>

theorem conflux_all_delivered:
  assumes "reachable a cs s" and "\<forall>c. conflux_validate_source_hop (env c) (hint c)"
    and "\<forall>c. count_list order c = length (chan s c)"
  shows "\<exists>s'. run (\<lambda>c. receive_cell env (hint c) c) order s = Some s' \<and>
    delivered s' = sent s \<and> qlen (ooo_q (receiver s')) = 0"
proof -
  have "conflux_inv s \<Longrightarrow> \<forall>c. count_list order c = length (chan s c) \<Longrightarrow>
    \<exists>s'. run (\<lambda>c. receive_cell env (hint c) c) order s = Some s' \<and> conflux_inv s' \<and> sent s' = sent s \<and> (\<forall>c. chan s' c = [])"
  proof (induction order arbitrary: s)
    case (Cons c order)
    have n: "length (chan s c) = Suc (count_list order c)" using spec [OF Cons.prems(2), of c] by simp
    obtain w ms where w: "chan s c = w # ms" using n by (cases "chan s c") auto
    obtain s1 where s1: "receive_cell env (hint c) c s = Some s1" "conflux_inv s1" "sent s1 = sent s" "chan s1 = (chan s)(c := ms)"
      using receive_ok [of s env c "hint c"] Cons.prems(1) assms(2) w by blast
    have "count_list order d = length (chan s1 d)" for d
      using spec [OF Cons.prems(2), of d] w s1(4) by (auto split: if_splits)
    then show ?case using Cons.IH [OF s1(2)] s1 by simp
  qed simp
  then show ?thesis using reachable_inv [OF assms(1)] assms(3) drained_inv by metis
qed

definition idle_circuit :: circuit where
  "idle_circuit = \<lparr>is_origin = False, last_hop = None, n_chan = False, blocked_on_n_chan = False,
     blocked_on_p_chan = False, cwnd = 100, inflight = 0, sendme_inc = 31, in_slow_start = False\<rparr>"

theorem conflux_all_delivered_witness:
  "\<exists>s s'. reachable 0 [1, 2] s \<and> sent s = [7 :: nat] \<and> delivered s' = [7] \<and>
    run (\<lambda>c. receive_cell (\<lambda>_. idle_circuit) None c) [1] s = Some s'"
proof -
  obtain s where s: "reachable 0 [1, 2] s" "sent s = [7 :: nat]" "chan s = (\<lambda>_. [])(1 := [Data 7])"
    using one_sent by blast
  have "\<forall>c. conflux_validate_source_hop idle_circuit None"
    by (simp add: conflux_validate_source_hop_def conflux_get_destination_hop_def idle_circuit_def)
  moreover have "\<forall>c. count_list [1] c = length (chan s c)" by (simp add: s(3))
  ultimately show ?thesis
    using conflux_all_delivered [OF s(1), of "\<lambda>_. idle_circuit" "\<lambda>_. None" "[1]"] s by auto
qed



end
