(* ===== verification/Bignum.thy ===== *)
theory Bignum
  imports Prelude
begin

text \<open>
  Big numbers of the node (src/src/bignum.h). The number itself is an integer; the functions of
  OpenSSL that convert it from and to bytes (\<open>BN_mpi2bn\<close>, \<open>BN_bn2mpi\<close>) and to a machine word
  (\<open>BN_get_word\<close>) are parameters, the fields of the record \<open>bn_lib\<close>. The locale \<open>openssl_bn\<close> states
  their documented behaviour: the MPI format is a length of four bytes, big-endian, and the
  magnitude in big-endian order whose topmost bit is the sign.
\<close>

section \<open>Bytes in order of significance\<close>

primrec le_nat :: "byte list \<Rightarrow> nat" where
  "le_nat [] = 0"
| "le_nat (b # bs) = unat b + 256 * le_nat bs"

primrec le_bytes :: "nat \<Rightarrow> nat \<Rightarrow> byte list" where
  "le_bytes 0 n = []"
| "le_bytes (Suc k) n = word_of_nat n # le_bytes k (n div 256)"

definition be_nat :: "byte list \<Rightarrow> nat" where
  "be_nat bs = le_nat (rev bs)"

definition be_bytes :: "nat \<Rightarrow> nat \<Rightarrow> byte list" where
  "be_bytes k n = rev (le_bytes k n)"

lemma length_le_bytes [simp]: "length (le_bytes k n) = k"
  by (induction k arbitrary: n) auto

lemma length_be_bytes [simp]: "length (be_bytes k n) = k"
  by (simp add: be_bytes_def)

lemma unat_byte [simp]: "unat (word_of_nat n :: byte) = n mod 256"
  by (simp add: unat_of_nat)

lemma unat_byte_less [simp]: "unat (b :: byte) < 256"
  using unat_less_exp [of b] by simp

lemma le_nat_le_bytes [simp]: "le_nat (le_bytes k n) = n mod 256 ^ k"
  by (induction k arbitrary: n) (auto simp: mod_mult2_eq)

lemma le_bytes_le_nat [simp]: "le_bytes (length bs) (le_nat bs) = bs"
proof (induction bs)
  case (Cons b bs)
  have "word_of_nat (unat b + 256 * le_nat bs) = b"
    by (simp add: word_unat_eq_iff del: of_nat_add of_nat_mult)
  then show ?case using Cons by simp
qed simp

lemma le_nat_append: "le_nat (xs @ ys) = le_nat xs + 256 ^ length xs * le_nat ys"
  by (induction xs) (auto simp: algebra_simps)

lemma le_nat_less: "le_nat bs < 256 ^ length bs"
proof (induction bs)
  case (Cons b bs)
  have "unat b + 256 * le_nat bs < 256 + 256 * le_nat bs" by simp
  also have "\<dots> = 256 * Suc (le_nat bs)" by simp
  also have "\<dots> \<le> 256 * 256 ^ length bs" using Cons by (simp only: Suc_le_eq mult_le_mono2)
  finally show ?case by simp
qed simp

lemma be_nat_simps [simp]:
  "be_nat [] = 0" "be_nat (b # bs) = unat b * 256 ^ length bs + be_nat bs"
  by (simp_all add: be_nat_def le_nat_append)

lemma be_nat_less: "be_nat bs < 256 ^ length bs"
  using le_nat_less [of "rev bs"] by (simp add: be_nat_def)

lemma be_nat_be_bytes [simp]: "be_nat (be_bytes k n) = n mod 256 ^ k"
  by (simp add: be_nat_def be_bytes_def)

lemma be_bytes_be_nat [simp]: "be_bytes (length bs) (be_nat bs) = bs"
  using le_bytes_le_nat [of "rev bs"] by (simp add: be_nat_def be_bytes_def)

section \<open>The MPI format\<close>

record bn_lib =
  BN_mpi2bn :: "byte list \<Rightarrow> int"
  BN_bn2mpi :: "int \<Rightarrow> byte list"
  BN_get_word :: "int \<Rightarrow> nat"

text \<open>What the format says a body stands for, and the body of a number: sign and magnitude.\<close>

fun mpi_value :: "byte list \<Rightarrow> int" where
  "mpi_value [] = 0"
| "mpi_value (b # bs) =
     (if bit b 7 then - int (be_nat ((b AND 0x7f) # bs)) else int (be_nat (b # bs)))"

fun mpi_sign :: "bool \<Rightarrow> byte list \<Rightarrow> byte list" where
  "mpi_sign neg [] = []"
| "mpi_sign neg (b # bs) =
     (if bit b 7 then (if neg then 0x80 else 0) # b # bs
      else (if neg then b OR 0x80 else b) # bs)"

fun minimal_le :: "nat \<Rightarrow> byte list" where
  "minimal_le n = (if n = 0 then [] else word_of_nat n # minimal_le (n div 256))"

declare minimal_le.simps [simp del]

definition mpi_body :: "int \<Rightarrow> byte list" where
  "mpi_body n = mpi_sign (n < 0) (rev (minimal_le (nat \<bar>n\<bar>)))"

definition mpi_limit :: nat where
  "mpi_limit = 2147483647"

locale openssl_bn =
  fixes lib :: bn_lib
  assumes mpi2bn: "length body \<le> mpi_limit
      \<Longrightarrow> BN_mpi2bn lib (be_bytes 4 (length body) @ body) = mpi_value body"
    and bn2mpi: "length (mpi_body n) \<le> mpi_limit
      \<Longrightarrow> BN_bn2mpi lib n = be_bytes 4 (length (mpi_body n)) @ mpi_body n"
    and get_word: "BN_get_word lib n = (if \<bar>n\<bar> < 2 ^ 64 then nat \<bar>n\<bar> else 2 ^ 64 - 1)"

section \<open>Conversions of bignum.h\<close>

definition setvch :: "bn_lib \<Rightarrow> byte list \<Rightarrow> int" where
  "setvch lib vch = (let nSize = length vch in
     BN_mpi2bn lib ([word_of_nat (nSize div 2 ^ 24), word_of_nat (nSize div 2 ^ 16),
                     word_of_nat (nSize div 2 ^ 8), word_of_nat nSize] @ rev vch))"

definition getvch :: "bn_lib \<Rightarrow> int \<Rightarrow> byte list" where
  "getvch lib bn = (let vch = BN_bn2mpi lib bn in
     if length vch \<le> 4 then [] else rev (drop 4 vch))"

text \<open>The bytes of a 64-bit number as the loops of \<open>setint64\<close> and \<open>setuint64\<close> write them.\<close>

fun mpi_loop :: "nat \<Rightarrow> bool \<Rightarrow> u64 \<Rightarrow> bool \<Rightarrow> byte list" where
  "mpi_loop 0 fNegative n fLeadingZeroes = []"
| "mpi_loop (Suc i) fNegative n fLeadingZeroes =
     (let c = (ucast (drop_bit 56 n) :: byte); n' = push_bit 8 n in
      if fLeadingZeroes then
        if c = 0 then mpi_loop i fNegative n' True
        else if c AND 0x80 \<noteq> 0
        then (if fNegative then 0x80 else 0) # c # mpi_loop i fNegative n' False
        else (if fNegative then c OR 0x80 else c) # mpi_loop i fNegative n' False
      else c # mpi_loop i fNegative n' False)"

definition setint64 :: "bn_lib \<Rightarrow> int \<Rightarrow> int" where
  "setint64 lib sn = (let (n, fNegative) =
       (if sn < 0 then (word_of_int (- (sn + 1)) + 1 :: u64, True) else (word_of_int sn, False));
       p = mpi_loop 8 fNegative n True in
     BN_mpi2bn lib ([0, 0, 0, word_of_nat (length p)] @ p))"

definition setuint64 :: "bn_lib \<Rightarrow> u64 \<Rightarrow> int" where
  "setuint64 lib n = (let p = mpi_loop 8 False n True in
     BN_mpi2bn lib ([0, 0, 0, word_of_nat (length p)] @ p))"

definition getint :: "bn_lib \<Rightarrow> int \<Rightarrow> int" where
  "getint lib bn = (let n = BN_get_word lib bn in
     if \<not> bn < 0 then (if n > 2147483647 then 2147483647 else int n)
     else (if n > 2147483647 then - 2147483648 else - int n))"

definition SetCompact :: "bn_lib \<Rightarrow> u32 \<Rightarrow> int" where
  "SetCompact lib nCompact = (let nSize = unat (drop_bit 24 nCompact);
       vch = replicate (4 + nSize) 0;
       vch = vch[3 := word_of_nat nSize];
       vch = (if nSize \<ge> 1 then vch[4 := ucast (drop_bit 16 nCompact)] else vch);
       vch = (if nSize \<ge> 2 then vch[5 := ucast (drop_bit 8 nCompact)] else vch);
       vch = (if nSize \<ge> 3 then vch[6 := ucast nCompact] else vch) in
     BN_mpi2bn lib vch)"

definition GetCompact :: "bn_lib \<Rightarrow> int \<Rightarrow> u32" where
  "GetCompact lib bn = (let vch = BN_bn2mpi lib bn; nSize = length vch - 4;
       nCompact = push_bit 24 (word_of_nat nSize);
       nCompact = (if nSize \<ge> 1 then nCompact OR push_bit 16 (ucast (vch ! 4)) else nCompact);
       nCompact = (if nSize \<ge> 2 then nCompact OR push_bit 8 (ucast (vch ! 5)) else nCompact) in
     if nSize \<ge> 3 then nCompact OR ucast (vch ! 6) else nCompact)"

section \<open>The conversions agree with the format\<close>

lemma be_bytes_4: "be_bytes 4 n = [word_of_nat (n div 2 ^ 24), word_of_nat (n div 2 ^ 16),
    word_of_nat (n div 2 ^ 8), word_of_nat n]"
proof -
  have "4 = Suc (Suc (Suc (Suc 0)))" by simp
  then have "be_bytes 4 n = [word_of_nat (n div 256 div 256 div 256), word_of_nat (n div 256 div 256),
      word_of_nat (n div 256), word_of_nat n]"
    by (simp only: be_bytes_def le_bytes.simps rev.simps append.simps)
  then show ?thesis by (simp add: div_mult2_eq [symmetric])
qed

lemma bit_byte_128: "bit (0x80 :: byte) n \<longleftrightarrow> n = 7"
  using bit_exp_iff [of 7 n, where 'a="byte"] by (auto dest: bit_imp_le_length)

lemma bit_byte_127: "bit (0x7f :: byte) n \<longleftrightarrow> n < 7"
  using bit_mask_iff [of 7 n, where 'a="byte"]
  by (auto simp: mask_eq_exp_minus_1 dest: bit_imp_le_length)

lemma byte_or_128:
  fixes b :: byte
  shows "bit (b OR 0x80) 7" and "\<not> bit b 7 \<Longrightarrow> (b OR 0x80) AND 0x7f = b"
proof -
  show "bit (b OR 0x80) 7" by (simp add: bit_or_iff bit_byte_128)
next
  assume b: "\<not> bit b 7"
  have "n < 7" if "bit b n" for n
    using bit_imp_le_length [OF that] b that by (cases "n = 7") auto
  then show "(b OR 0x80) AND 0x7f = b"
    by (intro bit_word_eqI) (auto simp only: bit_or_iff bit_and_iff bit_byte_128 bit_byte_127)
qed

lemma mpi_value_sign: "mpi_value (mpi_sign neg bs) = (if neg then - int (be_nat bs) else int (be_nat bs))"
  by (cases bs) (auto simp: byte_or_128)

lemma le_nat_minimal_le [simp]: "le_nat (minimal_le n) = n"
proof (induction n rule: minimal_le.induct)
  case (1 n)
  then show ?case by (cases "n = 0") (simp_all add: minimal_le.simps [of n] minimal_le.simps [of 0])
qed

lemma mpi_value_body [simp]: "mpi_value (mpi_body n) = n"
  by (simp add: mpi_body_def mpi_value_sign be_nat_def)

lemma le_bytes_map: "le_bytes k n = map (\<lambda>i. word_of_nat (n div 256 ^ i)) [0..<k]"
proof (induction k arbitrary: n)
  case (Suc k)
  have "map (\<lambda>i. word_of_nat (n div 256 div 256 ^ i)) [0..<k] =
      map (\<lambda>i. word_of_nat (n div 256 ^ i) :: byte) (map Suc [0..<k])"
    by (simp add: div_mult2_eq)
  then show ?case using Suc by (simp add: map_Suc_upt upt_conv_Cons del: upt_Suc)
qed simp

lemma mpi_loop_byte:
  fixes n :: u64
  assumes "j < 8"
  shows "ucast (drop_bit 56 (push_bit (8 * j) n)) = (word_of_nat (unat n div 256 ^ (7 - j)) :: byte)"
proof -
  have "(256 :: nat) ^ (7 - j) = 2 ^ (8 * (7 - j))" by (simp add: power_mult)
  then have "(256 :: nat) ^ (7 - j) = 2 ^ (56 - 8 * j)" using assms by (simp add: diff_mult_distrib2)
  then have "word_of_nat (unat n div 256 ^ (7 - j)) = (ucast (drop_bit (56 - 8 * j) n) :: byte)"
    by (simp flip: unat_drop_bit)
  also have "\<dots> = ucast (drop_bit 56 (push_bit (8 * j) n))"
    by (rule bit_word_eqI) (use assms in \<open>auto simp: bit_simps\<close>)
  finally show ?thesis by simp
qed

lemma bit_byte_7: "(b :: byte) AND 0x80 \<noteq> 0 \<longleftrightarrow> bit b 7"
  using and_exp_eq_0_iff_not_bit [of b 7] by simp

lemma mpi_loop_bytes:
  "j + k = 8 \<Longrightarrow> mpi_loop k neg (push_bit (8 * j) n) lz =
    (let bs = map (\<lambda>i. word_of_nat (unat n div 256 ^ (7 - i))) [j..<8] in
     if lz then mpi_sign neg (dropWhile (\<lambda>b. b = 0) bs) else bs)"
proof (induction k arbitrary: j lz)
  case (Suc k)
  have "mpi_loop k neg (push_bit (8 + 8 * j) n) lz' = (let bs = map (\<lambda>i. word_of_nat (unat n div 256 ^ (7 - i))) [Suc j..<8] in
     if lz' then mpi_sign neg (dropWhile (\<lambda>b. b = 0) bs) else bs)" for lz'
    using Suc.IH [of "Suc j" lz'] Suc.prems by simp
  with Suc.prems show ?case
    by (simp add: upt_conv_Cons Let_def mpi_loop_byte bit_byte_7 del: upt_Suc)
qed simp

lemma mpi_loop_8: "mpi_loop 8 neg n True = mpi_sign neg (dropWhile (\<lambda>b. b = 0) (be_bytes 8 (unat n)))"
proof -
  have "rev [0..<8] = map (\<lambda>i. 7 - i) [0..<8::nat]" by (simp add: upt_conv_Cons)
  then have "be_bytes 8 (unat n) = map (\<lambda>i. word_of_nat (unat n div 256 ^ (7 - i))) [0..<8]"
    by (simp add: be_bytes_def le_bytes_map rev_map del: upt_Suc)
  then show ?thesis using mpi_loop_bytes [of 0 8 neg n True] by simp
qed

lemma be_nat_dropWhile [simp]: "be_nat (dropWhile (\<lambda>b. b = 0) bs) = be_nat bs"
  by (induction bs) auto

lemma length_mpi_sign: "length (mpi_sign neg bs) \<le> Suc (length bs)"
  by (cases bs) auto

lemma length_mpi_loop_8: "length (mpi_loop 8 neg n True) \<le> 9"
  using length_mpi_sign [of neg "dropWhile (\<lambda>b. b = 0) (be_bytes 8 (unat n))"]
    length_dropWhile_le [of "\<lambda>b. b = 0" "be_bytes 8 (unat n)"] by (simp add: mpi_loop_8)

lemma unat_word_of_int_64: "0 \<le> x \<Longrightarrow> x < 2 ^ 64 \<Longrightarrow> unat (word_of_int x :: u64) = nat x"
  by (simp add: unsigned_of_int take_bit_int_eq_self nat_take_bit_eq)

context openssl_bn
begin

lemma setvch_value: "length vch \<le> mpi_limit \<Longrightarrow> setvch lib vch = mpi_value (rev vch)"
  using mpi2bn [of "rev vch"] by (simp add: setvch_def Let_def be_bytes_4)

lemma getvch_body: "length (mpi_body n) \<le> mpi_limit \<Longrightarrow> getvch lib n = rev (mpi_body n)"
  by (simp add: getvch_def bn2mpi Let_def)

lemma small_mpi:
  assumes "length p \<le> 9"
  shows "BN_mpi2bn lib ([0, 0, 0, word_of_nat (length p)] @ p) = mpi_value p"
  using mpi2bn [of p] assms by (simp add: be_bytes_4 mpi_limit_def)

lemma setuint64_value: "setuint64 lib n = int (unat n)"
  unfolding setuint64_def Let_def
  using small_mpi [OF length_mpi_loop_8 [of False n]] be_nat_be_bytes [of 8 "unat n"] unat_less_exp [of n]
  by (simp add: mpi_loop_8 mpi_value_sign)

lemma setint64_value:
  assumes "- (2 ^ 63) \<le> sn" "sn < 2 ^ 63"
  shows "setint64 lib sn = sn"
proof (cases "sn < 0")
  case True
  have "word_of_int (- (sn + 1)) + 1 = (word_of_int (- sn) :: u64)" by simp
  moreover have "unat (word_of_int (- sn) :: u64) = nat (- sn)"
    using True assms unat_word_of_int_64 [of "- sn"] by simp
  ultimately show ?thesis using True be_nat_be_bytes [of 8 "nat (- sn)"] assms
    small_mpi [OF length_mpi_loop_8 [of True "word_of_int (- sn)"]]
    by (simp add: setint64_def mpi_loop_8 mpi_value_sign)
next
  case False
  then have "unat (word_of_int sn :: u64) = nat sn"
    using assms unat_word_of_int_64 [of sn] by simp
  then show ?thesis using False be_nat_be_bytes [of 8 "nat sn"] assms
    small_mpi [OF length_mpi_loop_8 [of False "word_of_int sn"]]
    by (simp add: setint64_def mpi_loop_8 mpi_value_sign)
qed

end

lemma minimal_le_length: "minimal_le n = le_bytes (length (minimal_le n)) n"
  using le_bytes_le_nat [of "minimal_le n"] by simp

lemma length_minimal_le: "length (minimal_le n) \<le> k \<longleftrightarrow> n < 256 ^ k"
proof (induction n arbitrary: k rule: minimal_le.induct)
  case (1 n)
  show ?case
  proof (cases k)
    case 0
    then show ?thesis by (simp add: minimal_le.simps [of n])
  next
    case (Suc m)
    then show ?thesis using 1 [of m]
      by (cases "n = 0")
        (simp_all add: minimal_le.simps [of n] minimal_le.simps [of 0] less_mult_imp_div_less
          div_less_iff_less_mult mult.commute)
  qed
qed

lemma length_mpi_body: "\<bar>n\<bar> < 256 ^ k \<Longrightarrow> length (mpi_body n) \<le> Suc k"
proof -
  assume "\<bar>n\<bar> < 256 ^ k"
  then have "nat \<bar>n\<bar> < 256 ^ k" by (simp add: nat_less_iff)
  then have "length (minimal_le (nat \<bar>n\<bar>)) \<le> k" by (simp only: length_minimal_le)
  then show ?thesis
    using length_mpi_sign [of "n < 0" "rev (minimal_le (nat \<bar>n\<bar>))"] by (simp add: mpi_body_def)
qed

lemma abs_mpi_value: "\<bar>mpi_value body\<bar> < 256 ^ length body"
proof (cases body)
  case (Cons b bs)
  have "be_nat ((b AND 0x7f) # bs) < 256 ^ length body" "be_nat (b # bs) < 256 ^ length body"
    using be_nat_less [of "(b AND 0x7f) # bs"] be_nat_less [of "b # bs"] Cons by simp_all
  then have "int (be_nat ((b AND 0x7f) # bs)) < int (256 ^ length body)" "int (be_nat (b # bs)) < int (256 ^ length body)"
    by (simp_all only: of_nat_less_iff)
  then show ?thesis using Cons by (simp del: be_nat_simps)
qed simp

text \<open>A body without a superfluous leading byte is the one that stands for its value.\<close>

fun minimal_mpi :: "byte list \<Rightarrow> bool" where
  "minimal_mpi [] = True"
| "minimal_mpi [b] = (b AND 0x7f \<noteq> 0)"
| "minimal_mpi (b # c # bs) = (b AND 0x7f \<noteq> 0 \<or> bit c 7)"

lemma minimal_le_le_nat: "bs = [] \<or> last bs \<noteq> 0 \<Longrightarrow> minimal_le (le_nat bs) = bs"
proof (induction bs)
  case (Cons b bs)
  have nz: "le_nat (b # bs) \<noteq> 0" using Cons.prems
  proof (induction bs arbitrary: b)
    case (Cons c cs)
    then show ?case by (metis add_is_0 last_ConsR le_nat.simps(2) list.distinct(1) mult_is_0 numeral_neq_zero)
  qed (simp add: unat_eq_0)
  have "minimal_le (le_nat bs) = bs" using Cons by (cases "bs = []") auto
  moreover have "word_of_nat (unat b + 256 * le_nat bs) = b"
    by (simp add: word_unat_eq_iff del: of_nat_add of_nat_mult)
  ultimately show ?case using nz by (simp add: minimal_le.simps [of "unat b + 256 * le_nat bs"])
qed (simp add: minimal_le.simps)

lemma rev_minimal_le_be_nat: "b \<noteq> 0 \<Longrightarrow> rev (minimal_le (be_nat (b # bs))) = b # bs"
  using minimal_le_le_nat [of "rev (b # bs)"] by (simp add: be_nat_def del: be_nat_simps)

lemma be_nat_pos: "b \<noteq> 0 \<Longrightarrow> 0 < be_nat (b # bs)"
  by (simp add: unat_gt_0)

lemma byte_and_127:
  fixes b :: byte
  shows "\<not> bit (b AND 0x7f) 7" and "bit b 7 \<Longrightarrow> (b AND 0x7f) OR 0x80 = b"
    and "\<not> bit b 7 \<Longrightarrow> b AND 0x7f = b" and "b AND 0x7f = 0 \<Longrightarrow> b = (if bit b 7 then 0x80 else 0)"
proof -
  show 1: "\<not> bit (b AND 0x7f) 7" by (simp only: bit_and_iff bit_byte_127) simp
  have le: "n \<le> 7" if "bit b n" for n using bit_imp_le_length [OF that] by simp
  show 2: "(b AND 0x7f) OR 0x80 = b" if "bit b 7"
    by (intro bit_word_eqI) (use that le in \<open>auto simp only: bit_or_iff bit_and_iff bit_byte_128 bit_byte_127 dest: le_neq_implies_less\<close>)
  show 3: "b AND 0x7f = b" if "\<not> bit b 7"
    by (intro bit_word_eqI) (use that le in \<open>auto simp only: bit_and_iff bit_byte_127 dest: le_neq_implies_less\<close>)
  show "b = (if bit b 7 then 0x80 else 0)" if "b AND 0x7f = 0"
    using 2 3 that by (cases "bit b 7") auto
qed

lemma mpi_body_value: "minimal_mpi body \<Longrightarrow> mpi_body (mpi_value body) = body"
proof (cases body)
  case (Cons b bs)
  assume m: "minimal_mpi body"
  show ?thesis
  proof (cases "b AND 0x7f = 0")
    case False
    have "b \<noteq> 0" using False by auto
    then show ?thesis
      using Cons False rev_minimal_le_be_nat [of b bs] rev_minimal_le_be_nat [of "b AND 0x7f" bs]
        be_nat_pos [of "b AND 0x7f" bs] byte_and_127 [of b]
      by (auto simp: mpi_body_def simp del: be_nat_simps)
  next
    case True
    with m Cons obtain c cs where c: "bs = c # cs" "bit c 7" by (cases bs) auto
    then have "c \<noteq> 0" by auto
    then show ?thesis
      using Cons True c rev_minimal_le_be_nat [of c cs] byte_and_127(4) [of b]
        be_nat_pos [of c cs]
      by (auto simp: mpi_body_def simp del: be_nat_simps simp: be_nat_simps(2) [of 0])
  qed
qed (simp add: mpi_body_def minimal_le.simps)

section \<open>Compact targets\<close>

lemma list_update_small:
  "(a # b # c # d # xs)[3 := v] = a # b # c # v # xs"
  "(a # b # c # d # e # xs)[4 := v] = a # b # c # d # v # xs"
  "(a # b # c # d # e # f # xs)[5 := v] = a # b # c # d # e # v # xs"
  "(a # b # c # d # e # f # g # xs)[6 := v] = a # b # c # d # e # f # v # xs"
  by (simp_all add: numeral_eq_Suc)

lemma SetCompact_bytes:
  assumes "3 \<le> unat (drop_bit 24 c)"
  shows "SetCompact lib c = BN_mpi2bn lib
    (be_bytes 4 (unat (drop_bit 24 c)) @ [ucast (drop_bit 16 c), ucast (drop_bit 8 c), ucast c]
       @ replicate (unat (drop_bit 24 c) - 3) 0)"
proof -
  have n: "unat (drop_bit 24 c) < 256" using unat_less_exp [of c] by (simp add: unat_drop_bit)
  obtain k where "unat (drop_bit 24 c) = 3 + k" using assms le_Suc_ex by blast
  then have k: "unat (drop_bit 24 c) = Suc (Suc (Suc k))" by linarith
  have r: "replicate (4 + Suc (Suc (Suc k))) (0 :: byte) = 0 # 0 # 0 # 0 # 0 # 0 # 0 # replicate k 0"
  proof -
    have "4 + Suc (Suc (Suc k)) = Suc (Suc (Suc (Suc (Suc (Suc (Suc k))))))" by simp
    then show ?thesis by (simp only: replicate_Suc)
  qed
  have z: "Suc (Suc (Suc k)) div 2 ^ 24 = 0" "Suc (Suc (Suc k)) div 2 ^ 16 = 0" "Suc (Suc (Suc k)) div 2 ^ 8 = 0"
    using n k by simp_all
  show ?thesis
    unfolding SetCompact_def Let_def k be_bytes_4 z r by (simp add: list_update_small)
qed

lemma compact_parts:
  fixes c :: u32
  shows "push_bit 24 (word_of_nat (unat (drop_bit 24 c))) OR push_bit 16 (ucast (ucast (drop_bit 16 c) :: byte))
    OR push_bit 8 (ucast (ucast (drop_bit 8 c) :: byte)) OR ucast (ucast c :: byte) = c" (is "?l = c")
proof (rule bit_word_eqI)
  fix n assume "n < LENGTH(32)"
  then consider "n < 8" | "8 \<le> n" "n < 16" | "16 \<le> n" "n < 24" | "24 \<le> n" "n < 32" by fastforce
  then show "bit ?l n = bit c n"
    by cases (auto simp: bit_simps)
qed

lemma compact_mantissa:
  fixes c :: u32
  assumes "c AND 0x7f8000 \<noteq> 0"
  shows "(ucast (drop_bit 16 c) :: byte) AND 0x7f \<noteq> 0 \<or> bit (ucast (drop_bit 8 c) :: byte) 7"
proof -
  have m: "0x7f8000 = (push_bit 15 (mask 8) :: u32)" by (simp add: mask_eq_exp_minus_1 push_bit_eq_mult)
  obtain n where n: "bit c n" "15 \<le> n" "n < 23"
    using assms unfolding m by (auto simp: bit_eq_iff bit_simps)
  show ?thesis
  proof (cases "n = 15")
    case True
    then show ?thesis using n by (simp add: bit_simps)
  next
    case False
    then have "bit ((ucast (drop_bit 16 c) :: byte) AND 0x7f) (n - 16)"
      using n by (simp only: bit_and_iff bit_byte_127) (auto simp: bit_simps)
    then show ?thesis by auto
  qed
qed

context openssl_bn
begin

lemma SetCompact_value:
  assumes "3 \<le> unat (drop_bit 24 c)"
  shows "SetCompact lib c = mpi_value ([ucast (drop_bit 16 c), ucast (drop_bit 8 c), ucast c]
       @ replicate (unat (drop_bit 24 c) - 3) 0)"
proof -
  let ?n = "unat (drop_bit 24 c)"
  let ?body = "[ucast (drop_bit 16 c), ucast (drop_bit 8 c), ucast c] @ replicate (?n - 3) (0 :: byte)"
  have "?n < 256" using unat_less_exp [of c] by (simp add: unat_drop_bit)
  then have "length ?body = ?n" "length ?body \<le> mpi_limit" using assms by (simp_all add: mpi_limit_def)
  then show ?thesis using mpi2bn [of ?body] assms by (simp only: SetCompact_bytes)
qed

lemma GetCompact_body:
  assumes "length body \<le> mpi_limit" "3 \<le> length body" "minimal_mpi body"
  shows "GetCompact lib (mpi_value body) = push_bit 24 (word_of_nat (length body))
    OR push_bit 16 (ucast (body ! 0)) OR push_bit 8 (ucast (body ! 1)) OR ucast (body ! 2)"
proof -
  have "BN_bn2mpi lib (mpi_value body) = be_bytes 4 (length body) @ body"
    using bn2mpi [of "mpi_value body"] assms by (simp add: mpi_body_value)
  then show ?thesis using assms
    by (simp add: GetCompact_def Let_def nth_append or.assoc)
qed

lemma GetCompact_SetCompact:
  assumes "3 \<le> unat (drop_bit 24 c)" "c AND 0x7f8000 \<noteq> 0"
  shows "GetCompact lib (SetCompact lib c) = c"
proof -
  let ?n = "unat (drop_bit 24 c)"
  let ?body = "[ucast (drop_bit 16 c), ucast (drop_bit 8 c), ucast c] @ replicate (?n - 3) (0 :: byte)"
  have len: "length ?body = ?n" using assms by simp
  have "?n < 256" using unat_less_exp [of c] by (simp add: unat_drop_bit)
  then have lim: "length ?body \<le> mpi_limit" using len by (simp add: mpi_limit_def)
  have min: "minimal_mpi ?body" using compact_mantissa [OF assms(2)] by simp
  show ?thesis
    unfolding SetCompact_value [OF assms(1)]
    using GetCompact_body [OF lim _ min] assms(1) compact_parts [of c] by (simp add: len)
qed

end

section \<open>The documented library\<close>

definition documented_lib :: bn_lib where
  "documented_lib = \<lparr>BN_mpi2bn = (\<lambda>v. mpi_value (drop 4 v)),
     BN_bn2mpi = (\<lambda>n. be_bytes 4 (length (mpi_body n)) @ mpi_body n),
     BN_get_word = (\<lambda>n. if \<bar>n\<bar> < 2 ^ 64 then nat \<bar>n\<bar> else 2 ^ 64 - 1)\<rparr>"

interpretation doc: openssl_bn documented_lib
  by unfold_locales (simp_all add: documented_lib_def)

lemma mpi_value_sign_bit:
  "mpi_value (b # bs) = (if bit b 7 then - 1 else 1) * int (be_nat ((b AND 0x7f) # bs))"
  using byte_and_127(3) [of b] by (simp del: be_nat_simps)

lemma be_nat_replicate: "be_nat (bs @ replicate k 0) = be_nat bs * 256 ^ k"
  by (induction bs) (auto simp: algebra_simps power_add, induction k, auto)

lemma compact_magnitude:
  fixes c :: u32
  shows "be_nat [ucast (drop_bit 16 c) AND 0x7f, ucast (drop_bit 8 c), ucast c] = unat (c AND 0x7fffff)"
proof -
  have m: "0x7fffff = (mask 23 :: u32)" "0x7f = (mask 7 :: byte)" by (simp_all add: mask_eq_exp_minus_1)
  have "unat c mod 2 ^ 23 = unat c div 2 ^ 16 mod 2 ^ 7 * 2 ^ 16 + unat c mod 2 ^ 16"
    using mod_mult2_eq [of "unat c" "2 ^ 16" "2 ^ 7"] by simp
  moreover have "unat c mod 2 ^ 16 = unat c div 2 ^ 8 mod 2 ^ 8 * 2 ^ 8 + unat c mod 2 ^ 8"
    using mod_mult2_eq [of "unat c" "2 ^ 8" "2 ^ 8"] by simp
  moreover have "unat c div 65536 mod 256 mod 128 = unat c div 65536 mod 128"
    by (simp add: mod_mod_cancel)
  ultimately show ?thesis
    unfolding m by (simp flip: take_bit_eq_mask
      add: unsigned_take_bit_eq unsigned_ucast_eq take_bit_eq_mod unat_drop_bit unat_mod)
qed

text \<open>C35: A compact target (the difficulty field \<open>nBits\<close> of a block) of at least three bytes is the
  23-bit mantissa, with its sign bit, times a power of 256 (\<open>SetCompact\<close>), and \<open>GetCompact\<close> gives
  back every encoding whose mantissa has no superfluous leading byte. What OpenSSL's MPI
  conversions do is a hypothesis.\<close>

theorem compact_target_correct:
  assumes "openssl_bn lib" and "3 \<le> unat (drop_bit 24 c)"
  shows "SetCompact lib c = (if bit c 23 then - 1 else 1)
           * int (unat (c AND 0x7fffff) * 256 ^ (unat (drop_bit 24 c) - 3))
       \<and> (c AND 0x7f8000 \<noteq> 0 \<longrightarrow> GetCompact lib (SetCompact lib c) = c)"
proof -
  let ?b = "ucast (drop_bit 16 c) :: byte"
  have "be_nat ((?b AND 0x7f) # [ucast (drop_bit 8 c), ucast c] @ replicate (unat (drop_bit 24 c) - 3) 0)
    = unat (c AND 0x7fffff) * 256 ^ (unat (drop_bit 24 c) - 3)"
    using be_nat_replicate [of "[?b AND 0x7f, ucast (drop_bit 8 c), ucast c]"] compact_magnitude [of c]
    by simp
  moreover have "bit ?b 7 = bit c 23" by (simp add: bit_simps)
  ultimately have "SetCompact lib c = (if bit c 23 then - 1 else 1)
      * int (unat (c AND 0x7fffff) * 256 ^ (unat (drop_bit 24 c) - 3))"
    using openssl_bn.SetCompact_value [OF assms]
      mpi_value_sign_bit [of ?b "[ucast (drop_bit 8 c), ucast c] @ replicate (unat (drop_bit 24 c) - 3) 0"]
    by (simp only: append_Cons)
  then show ?thesis using openssl_bn.GetCompact_SetCompact [OF assms] by blast
qed

theorem compact_target_correct_witness:
  "SetCompact documented_lib 0x1d00ffff = int (0xffff * 256 ^ 26)
   \<and> GetCompact documented_lib (SetCompact documented_lib 0x1d00ffff) = 0x1d00ffff"
proof -
  have "0x1d00ffff AND 0x7f8000 \<noteq> (0 :: u32)" and "\<not> bit (0x1d00ffff :: u32) 23"
    and "unat (0x1d00ffff AND 0x7fffff :: u32) = 0xffff"
    and "unat (drop_bit 24 (0x1d00ffff :: u32)) - 3 = 26" and "3 \<le> unat (drop_bit 24 (0x1d00ffff :: u32))"
    by simp_all
  note facts = this
  have "SetCompact documented_lib 0x1d00ffff = int (0xffff * 256 ^ 26)"
    using compact_target_correct [OF doc.openssl_bn_axioms facts(5)] facts
    by (simp only: if_False mult_1)
  moreover have "GetCompact documented_lib (SetCompact documented_lib 0x1d00ffff) = 0x1d00ffff"
    using compact_target_correct [OF doc.openssl_bn_axioms facts(5)] facts(1) by blast
  ultimately show ?thesis ..
qed

end
