(* ===== verification/Script.thy ===== *)
theory Script
  imports Bignum "HOL-Library.Monad_Syntax"
begin

text \<open>
  The byte format of scripts (src/src/script.h and the members of \<open>CScript\<close> in script.cpp): pushing
  values and opcodes, reading the next operation, deleting a subscript, counting signature
  operations and the syntactic checks on scripts. A script is its list of bytes, an iterator into
  it an offset, an opcode a number; an operation that throws or fails an assertion is None.
\<close>

type_synonym valtype = "byte list"

section \<open>Opcodes\<close>

abbreviation OP_0 :: nat where "OP_0 \<equiv> 0x00"
abbreviation OP_PUSHDATA1 :: nat where "OP_PUSHDATA1 \<equiv> 0x4c"
abbreviation OP_PUSHDATA2 :: nat where "OP_PUSHDATA2 \<equiv> 0x4d"
abbreviation OP_PUSHDATA4 :: nat where "OP_PUSHDATA4 \<equiv> 0x4e"
abbreviation OP_1NEGATE :: nat where "OP_1NEGATE \<equiv> 0x4f"
abbreviation OP_RESERVED :: nat where "OP_RESERVED \<equiv> 0x50"
abbreviation OP_1 :: nat where "OP_1 \<equiv> 0x51"
abbreviation OP_16 :: nat where "OP_16 \<equiv> 0x60"
abbreviation OP_NOP :: nat where "OP_NOP \<equiv> 0x61"
abbreviation OP_VER :: nat where "OP_VER \<equiv> 0x62"
abbreviation OP_IF :: nat where "OP_IF \<equiv> 0x63"
abbreviation OP_NOTIF :: nat where "OP_NOTIF \<equiv> 0x64"
abbreviation OP_VERIF :: nat where "OP_VERIF \<equiv> 0x65"
abbreviation OP_VERNOTIF :: nat where "OP_VERNOTIF \<equiv> 0x66"
abbreviation OP_ELSE :: nat where "OP_ELSE \<equiv> 0x67"
abbreviation OP_ENDIF :: nat where "OP_ENDIF \<equiv> 0x68"
abbreviation OP_VERIFY :: nat where "OP_VERIFY \<equiv> 0x69"
abbreviation OP_RETURN :: nat where "OP_RETURN \<equiv> 0x6a"
abbreviation OP_TOALTSTACK :: nat where "OP_TOALTSTACK \<equiv> 0x6b"
abbreviation OP_FROMALTSTACK :: nat where "OP_FROMALTSTACK \<equiv> 0x6c"
abbreviation OP_2DROP :: nat where "OP_2DROP \<equiv> 0x6d"
abbreviation OP_2DUP :: nat where "OP_2DUP \<equiv> 0x6e"
abbreviation OP_3DUP :: nat where "OP_3DUP \<equiv> 0x6f"
abbreviation OP_2OVER :: nat where "OP_2OVER \<equiv> 0x70"
abbreviation OP_2ROT :: nat where "OP_2ROT \<equiv> 0x71"
abbreviation OP_2SWAP :: nat where "OP_2SWAP \<equiv> 0x72"
abbreviation OP_IFDUP :: nat where "OP_IFDUP \<equiv> 0x73"
abbreviation OP_DEPTH :: nat where "OP_DEPTH \<equiv> 0x74"
abbreviation OP_DROP :: nat where "OP_DROP \<equiv> 0x75"
abbreviation OP_DUP :: nat where "OP_DUP \<equiv> 0x76"
abbreviation OP_NIP :: nat where "OP_NIP \<equiv> 0x77"
abbreviation OP_OVER :: nat where "OP_OVER \<equiv> 0x78"
abbreviation OP_PICK :: nat where "OP_PICK \<equiv> 0x79"
abbreviation OP_ROLL :: nat where "OP_ROLL \<equiv> 0x7a"
abbreviation OP_ROT :: nat where "OP_ROT \<equiv> 0x7b"
abbreviation OP_SWAP :: nat where "OP_SWAP \<equiv> 0x7c"
abbreviation OP_TUCK :: nat where "OP_TUCK \<equiv> 0x7d"
abbreviation OP_CAT :: nat where "OP_CAT \<equiv> 0x7e"
abbreviation OP_SUBSTR :: nat where "OP_SUBSTR \<equiv> 0x7f"
abbreviation OP_LEFT :: nat where "OP_LEFT \<equiv> 0x80"
abbreviation OP_RIGHT :: nat where "OP_RIGHT \<equiv> 0x81"
abbreviation OP_SIZE :: nat where "OP_SIZE \<equiv> 0x82"
abbreviation OP_INVERT :: nat where "OP_INVERT \<equiv> 0x83"
abbreviation OP_AND :: nat where "OP_AND \<equiv> 0x84"
abbreviation OP_OR :: nat where "OP_OR \<equiv> 0x85"
abbreviation OP_XOR :: nat where "OP_XOR \<equiv> 0x86"
abbreviation OP_EQUAL :: nat where "OP_EQUAL \<equiv> 0x87"
abbreviation OP_EQUALVERIFY :: nat where "OP_EQUALVERIFY \<equiv> 0x88"
abbreviation OP_RESERVED1 :: nat where "OP_RESERVED1 \<equiv> 0x89"
abbreviation OP_RESERVED2 :: nat where "OP_RESERVED2 \<equiv> 0x8a"
abbreviation OP_1ADD :: nat where "OP_1ADD \<equiv> 0x8b"
abbreviation OP_1SUB :: nat where "OP_1SUB \<equiv> 0x8c"
abbreviation OP_2MUL :: nat where "OP_2MUL \<equiv> 0x8d"
abbreviation OP_2DIV :: nat where "OP_2DIV \<equiv> 0x8e"
abbreviation OP_NEGATE :: nat where "OP_NEGATE \<equiv> 0x8f"
abbreviation OP_ABS :: nat where "OP_ABS \<equiv> 0x90"
abbreviation OP_NOT :: nat where "OP_NOT \<equiv> 0x91"
abbreviation OP_0NOTEQUAL :: nat where "OP_0NOTEQUAL \<equiv> 0x92"
abbreviation OP_ADD :: nat where "OP_ADD \<equiv> 0x93"
abbreviation OP_SUB :: nat where "OP_SUB \<equiv> 0x94"
abbreviation OP_MUL :: nat where "OP_MUL \<equiv> 0x95"
abbreviation OP_DIV :: nat where "OP_DIV \<equiv> 0x96"
abbreviation OP_MOD :: nat where "OP_MOD \<equiv> 0x97"
abbreviation OP_LSHIFT :: nat where "OP_LSHIFT \<equiv> 0x98"
abbreviation OP_RSHIFT :: nat where "OP_RSHIFT \<equiv> 0x99"
abbreviation OP_BOOLAND :: nat where "OP_BOOLAND \<equiv> 0x9a"
abbreviation OP_BOOLOR :: nat where "OP_BOOLOR \<equiv> 0x9b"
abbreviation OP_NUMEQUAL :: nat where "OP_NUMEQUAL \<equiv> 0x9c"
abbreviation OP_NUMEQUALVERIFY :: nat where "OP_NUMEQUALVERIFY \<equiv> 0x9d"
abbreviation OP_NUMNOTEQUAL :: nat where "OP_NUMNOTEQUAL \<equiv> 0x9e"
abbreviation OP_LESSTHAN :: nat where "OP_LESSTHAN \<equiv> 0x9f"
abbreviation OP_GREATERTHAN :: nat where "OP_GREATERTHAN \<equiv> 0xa0"
abbreviation OP_LESSTHANOREQUAL :: nat where "OP_LESSTHANOREQUAL \<equiv> 0xa1"
abbreviation OP_GREATERTHANOREQUAL :: nat where "OP_GREATERTHANOREQUAL \<equiv> 0xa2"
abbreviation OP_MIN :: nat where "OP_MIN \<equiv> 0xa3"
abbreviation OP_MAX :: nat where "OP_MAX \<equiv> 0xa4"
abbreviation OP_WITHIN :: nat where "OP_WITHIN \<equiv> 0xa5"
abbreviation OP_RIPEMD160 :: nat where "OP_RIPEMD160 \<equiv> 0xa6"
abbreviation OP_SHA1 :: nat where "OP_SHA1 \<equiv> 0xa7"
abbreviation OP_SHA256 :: nat where "OP_SHA256 \<equiv> 0xa8"
abbreviation OP_HASH160 :: nat where "OP_HASH160 \<equiv> 0xa9"
abbreviation OP_HASH256 :: nat where "OP_HASH256 \<equiv> 0xaa"
abbreviation OP_CODESEPARATOR :: nat where "OP_CODESEPARATOR \<equiv> 0xab"
abbreviation OP_CHECKSIG :: nat where "OP_CHECKSIG \<equiv> 0xac"
abbreviation OP_CHECKSIGVERIFY :: nat where "OP_CHECKSIGVERIFY \<equiv> 0xad"
abbreviation OP_CHECKMULTISIG :: nat where "OP_CHECKMULTISIG \<equiv> 0xae"
abbreviation OP_CHECKMULTISIGVERIFY :: nat where "OP_CHECKMULTISIGVERIFY \<equiv> 0xaf"
abbreviation OP_NOP1 :: nat where "OP_NOP1 \<equiv> 0xb0"
abbreviation OP_NOP2 :: nat where "OP_NOP2 \<equiv> 0xb1"
abbreviation OP_CHECKLOCKTIMEVERIFY :: nat where "OP_CHECKLOCKTIMEVERIFY \<equiv> OP_NOP2"
abbreviation OP_NOP3 :: nat where "OP_NOP3 \<equiv> 0xb2"
abbreviation OP_NOP4 :: nat where "OP_NOP4 \<equiv> 0xb3"
abbreviation OP_NOP5 :: nat where "OP_NOP5 \<equiv> 0xb4"
abbreviation OP_NOP6 :: nat where "OP_NOP6 \<equiv> 0xb5"
abbreviation OP_NOP7 :: nat where "OP_NOP7 \<equiv> 0xb6"
abbreviation OP_NOP8 :: nat where "OP_NOP8 \<equiv> 0xb7"
abbreviation OP_NOP9 :: nat where "OP_NOP9 \<equiv> 0xb8"
abbreviation OP_NOP10 :: nat where "OP_NOP10 \<equiv> 0xb9"
abbreviation OP_SMALLDATA :: nat where "OP_SMALLDATA \<equiv> 0xf9"
abbreviation OP_SMALLINTEGER :: nat where "OP_SMALLINTEGER \<equiv> 0xfa"
abbreviation OP_PUBKEYS :: nat where "OP_PUBKEYS \<equiv> 0xfb"
abbreviation OP_PUBKEYHASH :: nat where "OP_PUBKEYHASH \<equiv> 0xfd"
abbreviation OP_PUBKEY :: nat where "OP_PUBKEY \<equiv> 0xfe"
abbreviation OP_INVALIDOPCODE :: nat where "OP_INVALIDOPCODE \<equiv> 0xff"

abbreviation MAX_OPCODE :: nat where "MAX_OPCODE \<equiv> OP_NOP10"

abbreviation MAX_SCRIPT_ELEMENT_SIZE :: nat where "MAX_SCRIPT_ELEMENT_SIZE \<equiv> 520"

abbreviation MAX_OP_RETURN_RELAY :: nat where "MAX_OP_RETURN_RELAY \<equiv> 48"

section \<open>Writing\<close>

definition push_opcode :: "valtype \<Rightarrow> nat \<Rightarrow> valtype option" where
  "push_opcode s opcode = (if opcode > 0xff then None else Some (s @ [word_of_nat opcode]))"

definition push_data :: "valtype \<Rightarrow> valtype \<Rightarrow> valtype" where
  "push_data s b = s @
     (if length b < OP_PUSHDATA1 then [word_of_nat (length b)]
      else if length b \<le> 0xff then [word_of_nat OP_PUSHDATA1, word_of_nat (length b)]
      else if length b \<le> 0xffff then word_of_nat OP_PUSHDATA2 # le_bytes 2 (length b)
      else word_of_nat OP_PUSHDATA4 # le_bytes 4 (length b)) @ b"

definition push_int64 :: "bn_lib \<Rightarrow> valtype \<Rightarrow> int \<Rightarrow> valtype" where
  "push_int64 lib s n = (if n = - 1 \<or> 1 \<le> n \<and> n \<le> 16 then s @ [word_of_int (n + 0x50)]
     else push_data s (getvch lib (setint64 lib n)))"

definition push_uint64 :: "bn_lib \<Rightarrow> valtype \<Rightarrow> u64 \<Rightarrow> valtype" where
  "push_uint64 lib s n = (if 1 \<le> n \<and> n \<le> 16 then s @ [ucast n + 0x50]
     else push_data s (getvch lib (setuint64 lib n)))"

text \<open>The overloads for 160-bit hashes and for public keys: one length byte and the bytes.\<close>

definition push_uint160 :: "valtype \<Rightarrow> valtype \<Rightarrow> valtype" where
  "push_uint160 s b = s @ [20] @ b"

definition push_pubkey :: "valtype \<Rightarrow> valtype \<Rightarrow> valtype option" where
  "push_pubkey s key = (if length key < OP_PUSHDATA1 then Some (s @ [word_of_nat (length key)] @ key) else None)"

definition PushAll :: "valtype list \<Rightarrow> valtype" where
  "PushAll values = foldl push_data [] values"

section \<open>Reading\<close>

text \<open>\<open>GetOp2\<close>: whether an operation was read, the advanced iterator, the opcode and its operand.\<close>

definition read_size :: "valtype \<Rightarrow> nat \<Rightarrow> nat \<Rightarrow> (nat \<times> nat) option" where
  "read_size s pc opcode =
     (if opcode < OP_PUSHDATA1 then Some (opcode, pc)
      else if opcode = OP_PUSHDATA1
      then if length s - pc < 1 then None else Some (unat (s ! pc), pc + 1)
      else if opcode = OP_PUSHDATA2
      then if length s - pc < 2 then None else Some (le_nat (take 2 (drop pc s)), pc + 2)
      else if length s - pc < 4 then None else Some (le_nat (take 4 (drop pc s)), pc + 4))"

definition GetOp2 :: "valtype \<Rightarrow> nat \<Rightarrow> bool \<times> nat \<times> nat \<times> valtype" where
  "GetOp2 s pc =
     (if pc \<ge> length s then (False, pc, OP_INVALIDOPCODE, [])
      else let opcode = unat (s ! pc); pc1 = pc + 1 in
        if opcode \<le> OP_PUSHDATA4
        then case read_size s pc1 opcode of
            None \<Rightarrow> (False, pc1, OP_INVALIDOPCODE, [])
          | Some (nSize, pc2) \<Rightarrow>
              if (length s - pc2) mod 2 ^ 32 < nSize then (False, pc2, OP_INVALIDOPCODE, [])
              else (True, pc2 + nSize, opcode, take nSize (drop pc2 s))
        else (True, pc1, opcode, []))"

definition DecodeOP_N :: "nat \<Rightarrow> nat option" where
  "DecodeOP_N opcode = (if opcode = OP_0 then Some 0
     else if opcode \<ge> OP_1 \<and> opcode \<le> OP_16 then Some (opcode - (OP_1 - 1)) else None)"

definition EncodeOP_N :: "int \<Rightarrow> nat option" where
  "EncodeOP_N n = (if n \<ge> 0 \<and> n \<le> 16
     then if n = 0 then Some OP_0 else Some (nat (int OP_1 + n - 1)) else None)"

lemma read_size_bounds:
  "read_size s pc opcode = Some (n, pc2) \<Longrightarrow> pc \<le> length s \<Longrightarrow> pc \<le> pc2 \<and> pc2 \<le> length s"
  by (auto simp: read_size_def split: if_splits)

lemma GetOp2_progress:
  assumes "GetOp2 s pc = (True, pc', opcode, vch)"
  shows "pc < pc'" and "pc' \<le> length s" and "pc < length s" and "opcode < 256"
    and "length vch \<le> length s"
proof -
  have "pc < pc' \<and> pc' \<le> length s \<and> pc < length s \<and> opcode < 256 \<and> length vch \<le> length s"
  proof (cases "unat (s ! pc) \<le> OP_PUSHDATA4 \<and> pc < length s")
    case True
    then obtain n pc2 where r: "read_size s (pc + 1) (unat (s ! pc)) = Some (n, pc2)"
      and m: "\<not> (length s - pc2) mod 2 ^ 32 < n" and "pc' = pc2 + n" "opcode = unat (s ! pc)"
      "vch = take n (drop pc2 s)"
      using assms by (auto simp: GetOp2_def Let_def split: if_splits option.splits)
    moreover have "n \<le> length s - pc2"
      using m by (meson le_trans mod_less_eq_dividend not_less)
    ultimately show ?thesis using True read_size_bounds [OF r] by auto
  qed (use assms in \<open>auto simp: GetOp2_def Let_def split: if_splits\<close>)
  then show "pc < pc'" "pc' \<le> length s" "pc < length s" "opcode < 256" "length vch \<le> length s"
    by auto
qed

lemma GetOp2_measure:
  "(True, pc', opcode, vch) = GetOp2 s pc \<Longrightarrow> length s - pc' < length s - pc"
  using GetOp2_progress [of s pc pc' opcode vch] by simp

section \<open>Loops over a script\<close>

text \<open>\<open>FindAndDelete\<close>: the inner loop erases matches at the iterator, the outer one reads an operation.\<close>

function erase_at :: "valtype \<Rightarrow> valtype \<Rightarrow> nat \<Rightarrow> nat \<Rightarrow> valtype \<times> nat" where
  "erase_at b s pc nFound =
     (if b \<noteq> [] \<and> pc \<le> length s \<and> length s - pc \<ge> length b \<and> take (length b) (drop pc s) = b
      then erase_at b (take pc s @ drop (pc + length b) s) pc (nFound + 1)
      else (s, nFound))"
  by pat_completeness auto
termination
  by (relation "measure (\<lambda>(b, s, pc, n). length s)") (auto simp: Suc_le_eq intro!: diff_less)

declare erase_at.simps [simp del]

lemma erase_at_length: "length (fst (erase_at b s pc n)) \<le> length s"
proof (induction b s pc n rule: erase_at.induct)
  case (1 b s pc n)
  then show ?case by (subst erase_at.simps) auto
qed

function find_and_delete :: "valtype \<Rightarrow> valtype \<Rightarrow> nat \<Rightarrow> nat \<Rightarrow> valtype \<times> nat" where
  "find_and_delete b s pc nFound =
     (let (s', nFound') = erase_at b s pc nFound; (ok, pc', _) = GetOp2 s' pc in
      if ok then find_and_delete b s' pc' nFound' else (s', nFound'))"
  by pat_completeness auto
termination
proof (relation "measure (\<lambda>(b, s, pc, n). length s - pc)")
  fix b s pc n s' n' and a :: "valtype \<times> nat" and r :: "bool \<times> nat \<times> nat \<times> valtype"
    and ok :: bool and q pc' t
  assume "a = erase_at b s pc n" "(s', n') = a" "r = GetOp2 s' pc" "(ok, q) = r" "(pc', t) = q" ok
  then have "length s' \<le> length s" "GetOp2 s' pc = (True, pc', t)"
    using erase_at_length [of b s pc n] by (auto dest: arg_cong [where f=fst])
  then show "((b, s', pc', n'), b, s, pc, n) \<in> measure (\<lambda>(b, s, pc, n). length s - pc)"
    using GetOp2_progress [of s' pc pc' "fst t" "snd t"] by auto
qed auto

declare find_and_delete.simps [simp del]

definition FindAndDelete :: "valtype \<Rightarrow> valtype \<Rightarrow> valtype \<times> nat" where
  "FindAndDelete s b = (if b = [] then (s, 0) else find_and_delete b s 0 0)"

function Find_from :: "nat \<Rightarrow> valtype \<Rightarrow> nat \<Rightarrow> nat \<Rightarrow> nat" where
  "Find_from op s pc nFound =
     (if pc \<noteq> length s
      then let (ok, pc', opcode, _) = GetOp2 s pc in
        if ok then Find_from op s pc' (if opcode = op then nFound + 1 else nFound) else nFound
      else nFound)"
  by pat_completeness auto
termination by (relation "measure (\<lambda>(op, s, pc, n). length s - pc)") (auto dest: GetOp2_measure)

definition Find :: "valtype \<Rightarrow> nat \<Rightarrow> nat" where
  "Find s op = Find_from op s 0 0"

function IsPushOnly_from :: "valtype \<Rightarrow> nat \<Rightarrow> bool" where
  "IsPushOnly_from s pc =
     (if pc < length s
      then let (ok, pc', opcode, _) = GetOp2 s pc in
        if \<not> ok then False else if opcode > OP_16 then False else IsPushOnly_from s pc'
      else True)"
  by pat_completeness auto
termination by (relation "measure (\<lambda>(s, pc). length s - pc)") (auto dest: GetOp2_measure)

definition IsPushOnly :: "valtype \<Rightarrow> bool" where
  "IsPushOnly s = IsPushOnly_from s 0"

function count_sigops :: "bool \<Rightarrow> valtype \<Rightarrow> nat \<Rightarrow> nat \<Rightarrow> u32 \<Rightarrow> u32" where
  "count_sigops fAccurate s pc lastOpcode n =
     (if pc < length s
      then let (ok, pc', opcode, _) = GetOp2 s pc in
        if \<not> ok then n
        else count_sigops fAccurate s pc' opcode
          (if opcode = OP_CHECKSIG \<or> opcode = OP_CHECKSIGVERIFY then n + 1
           else if opcode = OP_CHECKMULTISIG \<or> opcode = OP_CHECKMULTISIGVERIFY
           then if fAccurate \<and> lastOpcode \<ge> OP_1 \<and> lastOpcode \<le> OP_16
             then n + word_of_nat (lastOpcode - (OP_1 - 1)) else n + 20
           else n)
      else n)"
  by pat_completeness auto
termination by (relation "measure (\<lambda>(f, s, pc, l, n). length s - pc)") (auto dest: GetOp2_measure)

definition GetSigOpCount :: "valtype \<Rightarrow> bool \<Rightarrow> u32" where
  "GetSigOpCount s fAccurate = count_sigops fAccurate s 0 OP_INVALIDOPCODE 0"

definition IsPayToScriptHash :: "valtype \<Rightarrow> bool" where
  "IsPayToScriptHash s \<longleftrightarrow> length s = 23 \<and> unat (s ! 0) = OP_HASH160 \<and> s ! 1 = 0x14
     \<and> unat (s ! 22) = OP_EQUAL"

text \<open>The operand of the last push of a script of pushes only; None stands for the early \<open>return 0\<close>.\<close>

function last_push :: "valtype \<Rightarrow> nat \<Rightarrow> valtype \<Rightarrow> valtype option" where
  "last_push s pc vch =
     (if pc < length s
      then let (ok, pc', opcode, vch') = GetOp2 s pc in
        if \<not> ok then None else if opcode > OP_16 then None else last_push s pc' vch'
      else Some vch)"
  by pat_completeness auto
termination by (relation "measure (\<lambda>(s, pc, v). length s - pc)") (auto dest: GetOp2_measure)

definition GetSigOpCount_P2SH :: "valtype \<Rightarrow> valtype \<Rightarrow> u32" where
  "GetSigOpCount_P2SH s scriptSig =
     (if \<not> IsPayToScriptHash s then GetSigOpCount s True
      else case last_push scriptSig 0 [] of None \<Rightarrow> 0 | Some subscript \<Rightarrow> GetSigOpCount subscript True)"

function HasCanonicalPushes_from :: "valtype \<Rightarrow> nat \<Rightarrow> bool" where
  "HasCanonicalPushes_from s pc =
     (if pc < length s
      then let (ok, pc', opcode, vch) = GetOp2 s pc in
        if \<not> ok then False
        else if opcode > OP_16 then HasCanonicalPushes_from s pc'
        else if opcode < OP_PUSHDATA1 \<and> opcode > OP_0 \<and> length vch = 1 \<and> vch ! 0 \<le> 16 then False
        else if opcode = OP_PUSHDATA1 \<and> length vch < OP_PUSHDATA1 then False
        else if opcode = OP_PUSHDATA2 \<and> length vch \<le> 0xff then False
        else if opcode = OP_PUSHDATA4 \<and> length vch \<le> 0xffff then False
        else HasCanonicalPushes_from s pc'
      else True)"
  by pat_completeness auto
termination by (relation "measure (\<lambda>(s, pc). length s - pc)") (auto dest: GetOp2_measure)

definition HasCanonicalPushes :: "valtype \<Rightarrow> bool" where
  "HasCanonicalPushes s = HasCanonicalPushes_from s 0"

function HasValidOps_from :: "valtype \<Rightarrow> nat \<Rightarrow> bool" where
  "HasValidOps_from s it =
     (if it < length s
      then let (ok, it', opcode, item) = GetOp2 s it in
        if \<not> ok \<or> opcode > MAX_OPCODE \<or> length item > MAX_SCRIPT_ELEMENT_SIZE then False
        else HasValidOps_from s it'
      else True)"
  by pat_completeness auto
termination by (relation "measure (\<lambda>(s, pc). length s - pc)") (auto dest: GetOp2_measure)

definition HasValidOps :: "valtype \<Rightarrow> bool" where
  "HasValidOps s = HasValidOps_from s 0"

function collect_pushes :: "valtype \<Rightarrow> nat \<Rightarrow> valtype list \<Rightarrow> valtype list option" where
  "collect_pushes s pc stack =
     (if pc \<noteq> length s
      then let (ok, pc', opcode, pushData) = GetOp2 s pc in
        if \<not> ok then None else if opcode > OP_16 then None
        else collect_pushes s pc' (stack @ [pushData])
      else Some stack)"
  by pat_completeness auto
termination by (relation "measure (\<lambda>(s, pc, v). length s - pc)") (auto dest: GetOp2_measure)

definition GetPubKeyFromP2PKH :: "valtype \<Rightarrow> valtype option" where
  "GetPubKeyFromP2PKH s = (case collect_pushes s 0 [] of
     Some [_, vchPubKey] \<Rightarrow>
       if length vchPubKey \<noteq> 33 \<and> length vchPubKey \<noteq> 65 then None else Some vchPubKey
   | _ \<Rightarrow> None)"

declare Find_from.simps [simp del] IsPushOnly_from.simps [simp del] count_sigops.simps [simp del]
  last_push.simps [simp del] HasCanonicalPushes_from.simps [simp del] HasValidOps_from.simps [simp del]
  collect_pushes.simps [simp del]

section \<open>Scripts for destinations\<close>

definition GetScriptForKeyID :: "valtype \<Rightarrow> valtype" where
  "GetScriptForKeyID keyID = push_uint160 [word_of_nat OP_DUP, word_of_nat OP_HASH160] keyID
     @ [word_of_nat OP_EQUALVERIFY, word_of_nat OP_CHECKSIG]"

definition GetScriptForScriptID :: "valtype \<Rightarrow> valtype" where
  "GetScriptForScriptID scriptID = push_uint160 [word_of_nat OP_HASH160] scriptID @ [word_of_nat OP_EQUAL]"

definition GetScriptForRawPubKey :: "valtype \<Rightarrow> valtype" where
  "GetScriptForRawPubKey pubKey = push_data [] pubKey @ [word_of_nat OP_CHECKSIG]"

definition GetScriptForMultisig :: "int \<Rightarrow> valtype list \<Rightarrow> valtype option" where
  "GetScriptForMultisig nRequired keys = do {
     m \<leftarrow> EncodeOP_N nRequired;
     s \<leftarrow> push_opcode [] m;
     n \<leftarrow> EncodeOP_N (int (length keys));
     s \<leftarrow> push_opcode (foldl push_data s keys) n;
     push_opcode s OP_CHECKMULTISIG }"

definition SetMultisig :: "int \<Rightarrow> valtype list \<Rightarrow> valtype option" where
  "SetMultisig nRequired keys = do {
     m \<leftarrow> EncodeOP_N nRequired;
     s \<leftarrow> push_opcode [] m;
     s \<leftarrow> foldl (\<lambda>r key. Option.bind r (\<lambda>s. push_pubkey s key)) (Some s) keys;
     n \<leftarrow> EncodeOP_N (int (length keys));
     s \<leftarrow> push_opcode s n;
     push_opcode s OP_CHECKMULTISIG }"

section \<open>Reading what was written\<close>

definition push_opcode_of :: "valtype \<Rightarrow> nat" where
  "push_opcode_of b = (if length b < OP_PUSHDATA1 then length b else if length b \<le> 0xff then OP_PUSHDATA1
     else if length b \<le> 0xffff then OP_PUSHDATA2 else OP_PUSHDATA4)"

lemma push_opcode_of_le: "push_opcode_of b \<le> OP_PUSHDATA4"
  by (simp add: push_opcode_of_def)

lemma push_data_append: "push_data s b = s @ push_data [] b"
  by (simp add: push_data_def)

lemma push_data_not_Nil [simp]: "push_data [] b \<noteq> []"
  by (simp add: push_data_def)

lemma foldl_push_data: "foldl push_data s vs = s @ foldl push_data [] vs"
proof (induction vs arbitrary: s)
  case (Cons v vs)
  show ?case
    using Cons.IH [of "push_data s v"] Cons.IH [of "push_data [] v"] push_data_append [of s v] by simp
qed simp

lemma PushAll_simps [simp]:
  "PushAll [] = []" "PushAll (v # vs) = push_data [] v @ PushAll vs"
  using foldl_push_data [of "push_data [] v" vs] by (simp_all add: PushAll_def)

lemma le_bytes_2_4 [simp]:
  "n \<le> 0xffff \<Longrightarrow> le_nat (le_bytes 2 n) = n" "n < 2 ^ 32 \<Longrightarrow> le_nat (le_bytes 4 n) = n"
  by simp_all

lemma read_size_push:
  assumes "length b < 2 ^ 32" and "s = pre @ push_data [] b @ post"
  shows "unat (s ! length pre) = push_opcode_of b"
    and "read_size s (length pre + 1) (push_opcode_of b)
      = Some (length b, length pre + (length (push_data [] b) - length b))"
proof -
  have ne: "Suc 0 \<le> length (push_data [] b)" by (simp add: push_data_def)
  then have n: "s ! length pre = push_data [] b ! 0"
    and d: "drop (Suc (length pre)) s = drop 1 (push_data [] b) @ post"
    by (simp_all add: assms(2) nth_append)
  have l: "length s - (length pre + 1) = length (push_data [] b) - 1 + length post"
    using ne by (simp add: assms(2))
  show "unat (s ! length pre) = push_opcode_of b"
    using n by (simp add: push_data_def push_opcode_of_def)
  show "read_size s (length pre + 1) (push_opcode_of b)
      = Some (length b, length pre + (length (push_data [] b) - length b))"
  proof (cases "length b \<le> 0xff")
    case True
    then show ?thesis using n d l assms
      by (auto simp: read_size_def push_opcode_of_def push_data_def nth_append)
  next
    case False
    then show ?thesis using d l assms(1)
      by (auto simp: read_size_def push_opcode_of_def push_data_def)
  qed
qed

lemma GetOp2_push:
  assumes "length (pre @ push_data [] b @ post) < 2 ^ 32"
  shows "GetOp2 (pre @ push_data [] b @ post) (length pre)
    = (True, length pre + length (push_data [] b), push_opcode_of b, b)"
proof -
  let ?s = "pre @ push_data [] b @ post" and ?h = "length (push_data [] b) - length b"
  have b: "length b < 2 ^ 32" using assms by (simp add: push_data_def)
  have len: "length (push_data [] b) = ?h + length b" by (simp add: push_data_def)
  have dr: "drop (length pre + ?h) ?s = b @ post" by (simp add: push_data_def)
  have "length ?s - (length pre + ?h) < 2 ^ 32" using assms by linarith
  then have "\<not> (length ?s - (length pre + ?h)) mod 2 ^ 32 < length b"
    using len by simp
  moreover have "length pre < length ?s" by simp
  ultimately show ?thesis
    using read_size_push [OF b refl, of pre post] push_opcode_of_le [of b] dr len
    by (simp add: GetOp2_def Let_def)
qed

lemma GetOp2_op:
  assumes "OP_PUSHDATA4 < opcode" "opcode < 256"
  shows "GetOp2 (pre @ word_of_nat opcode # post) (length pre) = (True, length pre + 1, opcode, [])"
  using assms by (simp add: GetOp2_def)

lemma split_at:
  assumes "drop pc script = x @ rest" "x \<noteq> []"
  shows "script = take pc script @ x @ rest" "length (take pc script) = pc" 
    "drop (pc + length x) script = rest"
proof -
  show "script = take pc script @ x @ rest" using assms append_take_drop_id [of pc script] by simp
  have "pc < length script" using assms by (metis append_is_Nil_conv drop_eq_Nil not_less)
  then show "length (take pc script) = pc" by simp
  have "drop (pc + length x) script = drop (length x) (drop pc script)" by (simp add: add.commute)
  then show "drop (pc + length x) script = rest" using assms by simp
qed

lemma GetOp2_at_op:
  assumes "drop pc s = word_of_nat opcode # rest" "OP_PUSHDATA4 < opcode" "opcode < 256"
  shows "GetOp2 s pc = (True, Suc pc, opcode, [])"
  using GetOp2_op [OF assms(2,3), of "take pc s" rest] split_at [of pc s "[word_of_nat opcode]" rest] assms(1)
  by simp

lemma GetOp2_at_push:
  assumes "drop pc s = push_data [] v @ rest" "length s < 2 ^ 32"
  shows "GetOp2 s pc = (True, pc + length (push_data [] v), push_opcode_of v, v)"
  using GetOp2_push [of "take pc s" v rest] split_at [OF assms(1)] assms(2) by simp

lemma length_push_data: "length v < length (push_data [] v)" "length (push_data [] v) \<le> length v + 5"
  by (auto simp: push_data_def)

lemma multisig_script:
  assumes "1 \<le> m" "m \<le> 16" "length keys \<le> 16" "1 \<le> length keys"
  shows "GetScriptForMultisig (int m) keys = Some (word_of_nat (80 + m) # PushAll keys
    @ [word_of_nat (80 + length keys), word_of_nat OP_CHECKMULTISIG])"
  using assms foldl_push_data [of "[word_of_nat (80 + m)]" keys]
  by (cases "keys = []") (simp_all add: GetScriptForMultisig_def EncodeOP_N_def push_opcode_def PushAll_def nat_add_distrib)

lemma length_PushAll: "\<forall>v \<in> set vs. length v \<le> n \<Longrightarrow> length (PushAll vs) \<le> length vs * (n + 5)"
proof (induction vs)
  case (Cons v vs)
  then show ?case using length_push_data(2) [of v] by fastforce
qed simp

end
