(* ===== verification/Script_Eval.thy ===== *)
theory Script_Eval
  imports Script
begin

text \<open>
  The script interpreter (src/src/script.cpp): the encoding checks on signatures and public keys, the
  stack machine \<open>EvalScript\<close> and \<open>VerifyScript\<close>, which decides whether an input may spend an output.
  A run of the machine is a value or an error; the errors separate \<open>return false\<close> from what the
  \<open>catch\<close> clause of the source turns into false: the overflow of \<open>CastToBigNum\<close> and the range
  errors of \<open>stack.at\<close> and \<open>popstack\<close>. The digests of OpenSSL and the signature check are parameters.
\<close>

section \<open>Values\<close>

datatype exn = Bignum_overflow | Out_of_range | Stack_empty

datatype script_err = Ret_false | Throws exn

type_synonym 'a eval = "script_err + 'a"

definition ebind :: "'e + 'a \<Rightarrow> ('a \<Rightarrow> 'e + 'b) \<Rightarrow> 'e + 'b" where
  "ebind r f = (case r of Inl e \<Rightarrow> Inl e | Inr x \<Rightarrow> f x)"

lemma ebind_simps [simp]: "ebind (Inl e) f = Inl e" "ebind (Inr x) f = f x"
  by (simp_all add: ebind_def)

lemma ebind_cong [fundef_cong]:
  "r = r' \<Longrightarrow> (\<And>x. r' = Inr x \<Longrightarrow> f x = f' x) \<Longrightarrow> ebind r f = ebind r' f'"
  by (cases r') auto

lemma ebind_eq_Inr: "ebind r f = Inr y \<longleftrightarrow> (\<exists>x. r = Inr x \<and> f x = Inr y)"
  by (cases r) auto

lemma ebind_eq_Inl: "ebind r f = Inl e \<longleftrightarrow> r = Inl e \<or> (\<exists>x. r = Inr x \<and> f x = Inl e)"
  by (cases r) auto

definition stacktop :: "'a list \<Rightarrow> nat \<Rightarrow> 'a eval" where
  "stacktop stack i = (if 1 \<le> i \<and> i \<le> length stack then Inr (stack ! (length stack - i))
     else Inl (Throws Out_of_range))"

definition popstack :: "'a list \<Rightarrow> 'a list eval" where
  "popstack stack = (if stack = [] then Inl (Throws Stack_empty) else Inr (butlast stack))"

fun pops :: "nat \<Rightarrow> 'a list \<Rightarrow> 'a list eval" where
  "pops 0 stack = Inr stack"
| "pops (Suc n) stack = ebind (popstack stack) (pops n)"

abbreviation vchFalse :: valtype where "vchFalse \<equiv> []"

abbreviation vchTrue :: valtype where "vchTrue \<equiv> [1]"

definition CastToBigNum :: "bn_lib \<Rightarrow> valtype \<Rightarrow> nat \<Rightarrow> int eval" where
  "CastToBigNum lib vch nMaxNumSize =
     (if length vch > nMaxNumSize then Inl (Throws Bignum_overflow)
      else Inr (setvch lib (getvch lib (setvch lib vch))))"

fun CastToBool :: "valtype \<Rightarrow> bool" where
  "CastToBool [] = False"
| "CastToBool (b # bs) = (if b \<noteq> 0 then \<not> (bs = [] \<and> b = 0x80) else CastToBool bs)"

section \<open>Encodings of keys and signatures\<close>

definition IsCompressedOrUncompressedPubKey :: "valtype \<Rightarrow> bool" where
  "IsCompressedOrUncompressedPubKey vchPubKey =
     (if length vchPubKey < 33 then False
      else if vchPubKey ! 0 = 0x04 then length vchPubKey = 65
      else if vchPubKey ! 0 = 0x02 \<or> vchPubKey ! 0 = 0x03 then length vchPubKey = 33
      else False)"

definition IsDERSignature :: "valtype \<Rightarrow> bool \<Rightarrow> bool" where
  "IsDERSignature vchSig haveHashType =
     (if length vchSig < 9 then False
      else if length vchSig > 73 then False
      else if vchSig ! 0 \<noteq> 0x30 then False
      else if unat (vchSig ! 1) \<noteq> length vchSig - (if haveHashType then 3 else 2) then False
      else let nLenR = unat (vchSig ! 3) in
        if 5 + nLenR \<ge> length vchSig then False
        else let nLenS = unat (vchSig ! (5 + nLenR)) in
          if nLenR + nLenS + (if haveHashType then 7 else 6) \<noteq> length vchSig then False
          else if vchSig ! 2 \<noteq> 0x02 then False
          else if nLenR = 0 then False
          else if vchSig ! 4 AND 0x80 \<noteq> 0 then False
          else if nLenR > 1 \<and> vchSig ! 4 = 0 \<and> vchSig ! 5 AND 0x80 = 0 then False
          else if vchSig ! (4 + nLenR) \<noteq> 0x02 then False
          else if nLenS = 0 then False
          else if vchSig ! (6 + nLenR) AND 0x80 \<noteq> 0 then False
          else if nLenS > 1 \<and> vchSig ! (6 + nLenR) = 0 \<and> vchSig ! (7 + nLenR) AND 0x80 = 0 then False
          else True)"

text \<open>\<open>CompareBigEndian\<close>: skip the longer operand's excess bytes, then compare byte by byte.\<close>

fun compare_same :: "byte list \<Rightarrow> byte list \<Rightarrow> int" where
  "compare_same (a # as) (b # bs) = (if a > b then 1 else if b > a then - 1 else compare_same as bs)"
| "compare_same _ _ = 0"

function CompareBigEndian :: "byte list \<Rightarrow> byte list \<Rightarrow> int" where
  "CompareBigEndian c1 c2 =
     (if length c1 > length c2 then if hd c1 \<noteq> 0 then 1 else CompareBigEndian (tl c1) c2
      else if length c2 > length c1 then if hd c2 \<noteq> 0 then - 1 else CompareBigEndian c1 (tl c2)
      else compare_same c1 c2)"
  by pat_completeness auto
termination by (relation "measure (\<lambda>(a, b). length a + length b)") auto

declare CompareBigEndian.simps [simp del]

definition vchMaxModOrder :: "byte list" where
  "vchMaxModOrder = [
    0xFF,0xFF,0xFF,0xFF,0xFF,0xFF,0xFF,0xFF,
    0xFF,0xFF,0xFF,0xFF,0xFF,0xFF,0xFF,0xFE,
    0xBA,0xAE,0xDC,0xE6,0xAF,0x48,0xA0,0x3B,
    0xBF,0xD2,0x5E,0x8C,0xD0,0x36,0x41,0x40]"

definition vchMaxModHalfOrder :: "byte list" where
  "vchMaxModHalfOrder = [
    0x7F,0xFF,0xFF,0xFF,0xFF,0xFF,0xFF,0xFF,
    0xFF,0xFF,0xFF,0xFF,0xFF,0xFF,0xFF,0xFF,
    0x5D,0x57,0x6E,0x73,0x57,0xA4,0x50,0x1D,
    0xDF,0xE9,0x2F,0x46,0x68,0x1B,0x20,0xA0]"

definition CheckSignatureElement :: "byte list \<Rightarrow> bool \<Rightarrow> bool" where
  "CheckSignatureElement vch half \<longleftrightarrow> CompareBigEndian vch [] > 0
     \<and> CompareBigEndian vch (if half then vchMaxModHalfOrder else vchMaxModOrder) \<le> 0"

definition IsLowDERSignature :: "valtype \<Rightarrow> bool" where
  "IsLowDERSignature vchSig =
     (if \<not> IsDERSignature vchSig True then False
      else let nLenR = unat (vchSig ! 3); nLenS = unat (vchSig ! (5 + nLenR)) in
        CheckSignatureElement (take nLenS (drop (6 + nLenR) vchSig)) True)"

definition IsDefinedHashtypeSignature :: "valtype \<Rightarrow> bool" where
  "IsDefinedHashtypeSignature vchSig =
     (if length vchSig = 0 then False
      else let nHashType = last vchSig AND NOT 0x80 in \<not> (nHashType < 1 \<or> nHashType > 3))"

abbreviation SCRIPT_VERIFY_NOCACHE :: u32 where "SCRIPT_VERIFY_NOCACHE \<equiv> 1"
abbreviation SCRIPT_VERIFY_NULLDUMMY :: u32 where "SCRIPT_VERIFY_NULLDUMMY \<equiv> 2"
abbreviation SCRIPT_VERIFY_DISCOURAGE_UPGRADABLE_NOPS :: u32 where
  "SCRIPT_VERIFY_DISCOURAGE_UPGRADABLE_NOPS \<equiv> 4"
abbreviation SCRIPT_VERIFY_STRICTENC :: u32 where "SCRIPT_VERIFY_STRICTENC \<equiv> 8"
abbreviation SCRIPT_VERIFY_ALLOW_EMPTY_SIG :: u32 where "SCRIPT_VERIFY_ALLOW_EMPTY_SIG \<equiv> 16"
abbreviation SCRIPT_VERIFY_FIX_HASHTYPE :: u32 where "SCRIPT_VERIFY_FIX_HASHTYPE \<equiv> 32"
abbreviation SCRIPT_VERIFY_CHECKLOCKTIMEVERIFY :: u32 where "SCRIPT_VERIFY_CHECKLOCKTIMEVERIFY \<equiv> 64"

definition CheckSignatureEncoding :: "valtype \<Rightarrow> u32 \<Rightarrow> bool" where
  "CheckSignatureEncoding vchSig flags =
     (if flags AND SCRIPT_VERIFY_ALLOW_EMPTY_SIG \<noteq> 0 \<and> length vchSig = 0 then True
      else if \<not> IsLowDERSignature vchSig then False
      else if flags AND SCRIPT_VERIFY_FIX_HASHTYPE = 0 \<and> \<not> IsDefinedHashtypeSignature vchSig then False
      else True)"

definition CheckPubKeyEncoding :: "valtype \<Rightarrow> bool" where
  "CheckPubKeyEncoding vchSig = IsCompressedOrUncompressedPubKey vchSig"

definition LOCKTIME_THRESHOLD :: int where
  "LOCKTIME_THRESHOLD = 500000000"

definition CheckLockTime :: "u32 \<Rightarrow> u32 \<Rightarrow> int \<Rightarrow> bool" where
  "CheckLockTime tx_nLockTime nSequence nLockTime =
     (if \<not> (uint tx_nLockTime < LOCKTIME_THRESHOLD \<and> nLockTime < LOCKTIME_THRESHOLD
          \<or> uint tx_nLockTime \<ge> LOCKTIME_THRESHOLD \<and> nLockTime \<ge> LOCKTIME_THRESHOLD) then False
      else if nLockTime > uint tx_nLockTime then False
      else nSequence \<noteq> - 1)"

section \<open>The machine\<close>

record script_env =
  bn :: bn_lib
  RIPEMD160_Once :: "valtype \<Rightarrow> valtype"
  SHA1_Once :: "valtype \<Rightarrow> valtype"
  SHA256_Once :: "valtype \<Rightarrow> valtype"
  CheckSig :: "valtype \<Rightarrow> valtype \<Rightarrow> valtype \<Rightarrow> int \<Rightarrow> u32 \<Rightarrow> bool"
  tx_nLockTime :: u32
  txin_nSequence :: u32

definition Hash160 :: "script_env \<Rightarrow> valtype \<Rightarrow> valtype" where
  "Hash160 env vch = RIPEMD160_Once env (SHA256_Once env vch)"

definition Hash256 :: "script_env \<Rightarrow> valtype \<Rightarrow> valtype" where
  "Hash256 env vch = SHA256_Once env (SHA256_Once env vch)"

record mstate =
  stack :: "valtype list"
  altstack :: "valtype list"
  vfExec :: "bool list"
  nOpCount :: int
  pbegincodehash :: nat

definition push :: "valtype \<Rightarrow> mstate \<Rightarrow> mstate" where
  "push v m = m\<lparr>stack := stack m @ [v]\<rparr>"

definition pop :: "nat \<Rightarrow> mstate \<Rightarrow> mstate eval" where
  "pop n m = ebind (pops n (stack m)) (\<lambda>s. Inr (m\<lparr>stack := s\<rparr>))"

definition require :: "nat \<Rightarrow> mstate \<Rightarrow> 'a eval \<Rightarrow> 'a eval" where
  "require n m r = (if length (stack m) < n then Inl Ret_false else r)"

text \<open>The conversions \<open>CBigNum(int)\<close> and \<open>CBigNum(bool)\<close>.\<close>

definition CBigNum_int :: "bn_lib \<Rightarrow> int \<Rightarrow> int" where
  "CBigNum_int lib n = (if n \<ge> 0 then n else setint64 lib n)"

definition exec_push_value :: "script_env \<Rightarrow> nat \<Rightarrow> mstate \<Rightarrow> mstate eval" where
  "exec_push_value env opcode m =
     Inr (push (getvch (bn env) (CBigNum_int (bn env) (int opcode - int (OP_1 - 1)))) m)"

definition exec_checklocktimeverify :: "script_env \<Rightarrow> u32 \<Rightarrow> mstate \<Rightarrow> mstate eval" where
  "exec_checklocktimeverify env flags m =
     (if flags AND SCRIPT_VERIFY_CHECKLOCKTIMEVERIFY = 0
      then if flags AND SCRIPT_VERIFY_DISCOURAGE_UPGRADABLE_NOPS \<noteq> 0 then Inl Ret_false else Inr m
      else require 1 m (ebind (stacktop (stack m) 1) (\<lambda>v.
        ebind (CastToBigNum (bn env) v 5) (\<lambda>nLockTime.
          if nLockTime < 0 then Inl Ret_false
          else if \<not> CheckLockTime (tx_nLockTime env) (txin_nSequence env) nLockTime then Inl Ret_false
          else Inr m))))"

definition exec_nop_n :: "u32 \<Rightarrow> mstate \<Rightarrow> mstate eval" where
  "exec_nop_n flags m =
     (if flags AND SCRIPT_VERIFY_DISCOURAGE_UPGRADABLE_NOPS \<noteq> 0 then Inl Ret_false else Inr m)"

definition exec_if :: "bool \<Rightarrow> nat \<Rightarrow> mstate \<Rightarrow> mstate eval" where
  "exec_if fExec opcode m =
     (if fExec
      then require 1 m (ebind (stacktop (stack m) 1) (\<lambda>vch.
        let fValue = CastToBool vch; fValue = (if opcode = OP_NOTIF then \<not> fValue else fValue) in
        ebind (pop 1 m) (\<lambda>m'. Inr (m'\<lparr>vfExec := vfExec m' @ [fValue]\<rparr>))))
      else Inr (m\<lparr>vfExec := vfExec m @ [False]\<rparr>))"

definition exec_else :: "mstate \<Rightarrow> mstate eval" where
  "exec_else m = (if vfExec m = [] then Inl Ret_false
     else Inr (m\<lparr>vfExec := butlast (vfExec m) @ [\<not> last (vfExec m)]\<rparr>))"

definition exec_endif :: "mstate \<Rightarrow> mstate eval" where
  "exec_endif m = (if vfExec m = [] then Inl Ret_false else Inr (m\<lparr>vfExec := butlast (vfExec m)\<rparr>))"

definition exec_verify :: "mstate \<Rightarrow> mstate eval" where
  "exec_verify m = require 1 m (ebind (stacktop (stack m) 1) (\<lambda>v.
     if CastToBool v then pop 1 m else Inl Ret_false))"

definition exec_toaltstack :: "mstate \<Rightarrow> mstate eval" where
  "exec_toaltstack m = require 1 m (ebind (stacktop (stack m) 1) (\<lambda>v.
     pop 1 (m\<lparr>altstack := altstack m @ [v]\<rparr>)))"

definition exec_fromaltstack :: "mstate \<Rightarrow> mstate eval" where
  "exec_fromaltstack m = (if length (altstack m) < 1 then Inl Ret_false
     else ebind (stacktop (altstack m) 1) (\<lambda>v.
       ebind (popstack (altstack m)) (\<lambda>a. Inr ((push v m)\<lparr>altstack := a\<rparr>))))"

text \<open>\<open>swap(stacktop(-i), stacktop(-j))\<close>\<close>

definition swap_top :: "nat \<Rightarrow> nat \<Rightarrow> 'a list \<Rightarrow> 'a list eval" where
  "swap_top i j s = ebind (stacktop s i) (\<lambda>a. ebind (stacktop s j) (\<lambda>b.
     Inr (s[length s - i := b, length s - j := a])))"

text \<open>\<open>stack.erase(stack.end()-i, stack.end()-j)\<close>, for \<open>j \<le> i \<le> size\<close>\<close>

definition erase_top :: "nat \<Rightarrow> nat \<Rightarrow> 'a list \<Rightarrow> 'a list" where
  "erase_top i j s = take (length s - i) s @ drop (length s - j) s"

definition dup_from :: "nat \<Rightarrow> nat \<Rightarrow> mstate \<Rightarrow> mstate eval" where
  "dup_from n i m = require n m (ebind (stacktop (stack m) i) (\<lambda>v. Inr (push v m)))"

definition exec_stack :: "script_env \<Rightarrow> nat \<Rightarrow> mstate \<Rightarrow> mstate eval" where
  "exec_stack env opcode m =
     (if opcode = OP_2DROP then require 2 m (pop 2 m)
      else if opcode = OP_2DUP then require 2 m
        (ebind (stacktop (stack m) 2) (\<lambda>v1. ebind (stacktop (stack m) 1) (\<lambda>v2.
           Inr (push v2 (push v1 m)))))
      else if opcode = OP_3DUP then require 3 m
        (ebind (stacktop (stack m) 3) (\<lambda>v1. ebind (stacktop (stack m) 2) (\<lambda>v2.
           ebind (stacktop (stack m) 1) (\<lambda>v3. Inr (push v3 (push v2 (push v1 m)))))))
      else if opcode = OP_2OVER then require 4 m
        (ebind (stacktop (stack m) 4) (\<lambda>v1. ebind (stacktop (stack m) 3) (\<lambda>v2.
           Inr (push v2 (push v1 m)))))
      else if opcode = OP_2ROT then require 6 m
        (ebind (stacktop (stack m) 6) (\<lambda>v1. ebind (stacktop (stack m) 5) (\<lambda>v2.
           Inr (push v2 (push v1 (m\<lparr>stack := erase_top 6 4 (stack m)\<rparr>))))))
      else if opcode = OP_2SWAP then require 4 m
        (ebind (swap_top 4 2 (stack m)) (\<lambda>s. ebind (swap_top 3 1 s) (\<lambda>s'. Inr (m\<lparr>stack := s'\<rparr>))))
      else if opcode = OP_IFDUP then require 1 m
        (ebind (stacktop (stack m) 1) (\<lambda>v. Inr (if CastToBool v then push v m else m)))
      else if opcode = OP_DEPTH then
        Inr (push (getvch (bn env) (setuint64 (bn env) (word_of_nat (length (stack m))))) m)
      else if opcode = OP_DROP then require 1 m (pop 1 m)
      else if opcode = OP_DUP then dup_from 1 1 m
      else if opcode = OP_NIP then require 2 m (Inr (m\<lparr>stack := erase_top 2 1 (stack m)\<rparr>))
      else if opcode = OP_OVER then dup_from 2 2 m
      else if opcode = OP_PICK \<or> opcode = OP_ROLL then require 2 m
        (ebind (stacktop (stack m) 1) (\<lambda>v. ebind (CastToBigNum (bn env) v 4) (\<lambda>b.
           let n = getint (bn env) b in
           ebind (pop 1 m) (\<lambda>m'.
             if n < 0 \<or> n \<ge> int (length (stack m')) then Inl Ret_false
             else ebind (stacktop (stack m') (nat n + 1)) (\<lambda>vch.
               Inr (push vch (if opcode = OP_ROLL
                 then m'\<lparr>stack := erase_top (nat n + 1) (nat n) (stack m')\<rparr> else m')))))))
      else if opcode = OP_ROT then require 3 m
        (ebind (swap_top 3 2 (stack m)) (\<lambda>s. ebind (swap_top 2 1 s) (\<lambda>s'. Inr (m\<lparr>stack := s'\<rparr>))))
      else if opcode = OP_SWAP then require 2 m
        (ebind (swap_top 2 1 (stack m)) (\<lambda>s. Inr (m\<lparr>stack := s\<rparr>)))
      else if opcode = OP_TUCK then require 2 m
        (ebind (stacktop (stack m) 1) (\<lambda>v. let k = length (stack m) - 2 in
           Inr (m\<lparr>stack := take k (stack m) @ [v] @ drop k (stack m)\<rparr>)))
      else if opcode = OP_SIZE then require 1 m
        (ebind (stacktop (stack m) 1) (\<lambda>v.
           Inr (push (getvch (bn env) (setuint64 (bn env) (word_of_nat (length v)))) m)))
      else Inl Ret_false)"

text \<open>The end of an opcode \<open>X\<close> and of its variant \<open>XVERIFY\<close>: push the result, or demand it.\<close>

definition push_result :: "bool \<Rightarrow> bool \<Rightarrow> mstate \<Rightarrow> mstate eval" where
  "push_result verify fSuccess m = (let m' = push (if fSuccess then vchTrue else vchFalse) m in
     if verify then if fSuccess then pop 1 m' else Inl Ret_false else Inr m')"

definition exec_equal :: "nat \<Rightarrow> mstate \<Rightarrow> mstate eval" where
  "exec_equal opcode m = require 2 m
     (ebind (stacktop (stack m) 2) (\<lambda>vch1. ebind (stacktop (stack m) 1) (\<lambda>vch2.
        ebind (pop 2 m) (push_result (opcode = OP_EQUALVERIFY) (vch1 = vch2)))))"

definition numeric1 :: "nat \<Rightarrow> int \<Rightarrow> int" where
  "numeric1 opcode b =
     (if opcode = OP_1ADD then b + 1
      else if opcode = OP_1SUB then b - 1
      else if opcode = OP_NEGATE then - b
      else if opcode = OP_ABS then if b < 0 then - b else b
      else if opcode = OP_NOT then of_bool (b = 0)
      else of_bool (b \<noteq> 0))"

definition exec_numeric1 :: "script_env \<Rightarrow> nat \<Rightarrow> mstate \<Rightarrow> mstate eval" where
  "exec_numeric1 env opcode m = require 1 m
     (ebind (stacktop (stack m) 1) (\<lambda>v. ebind (CastToBigNum (bn env) v 4) (\<lambda>b.
        ebind (pop 1 m) (\<lambda>m'. Inr (push (getvch (bn env) (numeric1 opcode b)) m')))))"

definition numeric2 :: "nat \<Rightarrow> int \<Rightarrow> int \<Rightarrow> int" where
  "numeric2 opcode bn1 bn2 =
     (if opcode = OP_ADD then bn1 + bn2
      else if opcode = OP_SUB then bn1 - bn2
      else if opcode = OP_BOOLAND then of_bool (bn1 \<noteq> 0 \<and> bn2 \<noteq> 0)
      else if opcode = OP_BOOLOR then of_bool (bn1 \<noteq> 0 \<or> bn2 \<noteq> 0)
      else if opcode = OP_NUMEQUAL then of_bool (bn1 = bn2)
      else if opcode = OP_NUMEQUALVERIFY then of_bool (bn1 = bn2)
      else if opcode = OP_NUMNOTEQUAL then of_bool (bn1 \<noteq> bn2)
      else if opcode = OP_LESSTHAN then of_bool (bn1 < bn2)
      else if opcode = OP_GREATERTHAN then of_bool (bn1 > bn2)
      else if opcode = OP_LESSTHANOREQUAL then of_bool (bn1 \<le> bn2)
      else if opcode = OP_GREATERTHANOREQUAL then of_bool (bn1 \<ge> bn2)
      else if opcode = OP_MIN then if bn1 < bn2 then bn1 else bn2
      else if bn1 > bn2 then bn1 else bn2)"

definition exec_numeric2 :: "script_env \<Rightarrow> nat \<Rightarrow> mstate \<Rightarrow> mstate eval" where
  "exec_numeric2 env opcode m = require 2 m
     (ebind (stacktop (stack m) 2) (\<lambda>v1. ebind (CastToBigNum (bn env) v1 4) (\<lambda>bn1.
      ebind (stacktop (stack m) 1) (\<lambda>v2. ebind (CastToBigNum (bn env) v2 4) (\<lambda>bn2.
      ebind (pop 2 m) (\<lambda>m'. let m'' = push (getvch (bn env) (numeric2 opcode bn1 bn2)) m' in
        if opcode = OP_NUMEQUALVERIFY
        then ebind (stacktop (stack m'') 1) (\<lambda>v. if CastToBool v then pop 1 m'' else Inl Ret_false)
        else Inr m''))))))"

definition exec_within :: "script_env \<Rightarrow> mstate \<Rightarrow> mstate eval" where
  "exec_within env m = require 3 m
     (ebind (stacktop (stack m) 3) (\<lambda>v1. ebind (CastToBigNum (bn env) v1 4) (\<lambda>bn1.
      ebind (stacktop (stack m) 2) (\<lambda>v2. ebind (CastToBigNum (bn env) v2 4) (\<lambda>bn2.
      ebind (stacktop (stack m) 1) (\<lambda>v3. ebind (CastToBigNum (bn env) v3 4) (\<lambda>bn3.
      ebind (pop 3 m) (push_result False (bn2 \<le> bn1 \<and> bn1 < bn3)))))))))"

definition exec_hash :: "script_env \<Rightarrow> nat \<Rightarrow> mstate \<Rightarrow> mstate eval" where
  "exec_hash env opcode m = require 1 m
     (ebind (stacktop (stack m) 1) (\<lambda>vch.
        let vchHash = (if opcode = OP_RIPEMD160 then RIPEMD160_Once env vch
          else if opcode = OP_SHA1 then SHA1_Once env vch
          else if opcode = OP_SHA256 then SHA256_Once env vch
          else if opcode = OP_HASH160 then Hash160 env vch
          else Hash256 env vch) in
        ebind (pop 1 m) (\<lambda>m'. Inr (push vchHash m'))))"

definition sig_ok :: "script_env \<Rightarrow> u32 \<Rightarrow> int \<Rightarrow> valtype \<Rightarrow> valtype \<Rightarrow> valtype \<Rightarrow> bool" where
  "sig_ok env flags nHashType scriptCode vchSig vchPubKey \<longleftrightarrow>
     CheckSignatureEncoding vchSig flags \<and> CheckPubKeyEncoding vchPubKey
     \<and> CheckSig env vchSig vchPubKey scriptCode nHashType flags"

definition strict_fail :: "u32 \<Rightarrow> valtype \<Rightarrow> valtype \<Rightarrow> bool" where
  "strict_fail flags vchSig vchPubKey \<longleftrightarrow> flags AND SCRIPT_VERIFY_STRICTENC \<noteq> 0
     \<and> (\<not> CheckSignatureEncoding vchSig flags \<or> \<not> CheckPubKeyEncoding vchPubKey)"

definition exec_checksig ::
  "script_env \<Rightarrow> u32 \<Rightarrow> int \<Rightarrow> valtype \<Rightarrow> nat \<Rightarrow> mstate \<Rightarrow> mstate eval" where
  "exec_checksig env flags nHashType script opcode m = require 2 m
     (ebind (stacktop (stack m) 2) (\<lambda>vchSig. ebind (stacktop (stack m) 1) (\<lambda>vchPubKey.
        let scriptCode = fst (FindAndDelete (drop (pbegincodehash m) script) (push_data [] vchSig)) in
        if strict_fail flags vchSig vchPubKey then Inl Ret_false
        else let fSuccess = sig_ok env flags nHashType scriptCode vchSig vchPubKey in
          ebind (pop 2 m) (push_result (opcode = OP_CHECKSIGVERIFY) fSuccess))))"

text \<open>The loop of \<open>OP_CHECKMULTISIG\<close>: while signatures are left, try the next key.\<close>

function multisig_loop ::
  "script_env \<Rightarrow> u32 \<Rightarrow> int \<Rightarrow> valtype \<Rightarrow> valtype list \<Rightarrow> nat \<Rightarrow> nat \<Rightarrow> nat \<Rightarrow> nat \<Rightarrow> bool eval" where
  "multisig_loop env flags nHashType scriptCode st isig nSigsCount ikey nKeysCount =
     (if nSigsCount > 0
      then ebind (stacktop st isig) (\<lambda>vchSig. ebind (stacktop st ikey) (\<lambda>vchPubKey.
        if strict_fail flags vchSig vchPubKey then Inl Ret_false
        else let fOk = sig_ok env flags nHashType scriptCode vchSig vchPubKey;
            isig' = (if fOk then isig + 1 else isig);
            nSigs' = (if fOk then nSigsCount - 1 else nSigsCount) in
          if int nSigs' > int nKeysCount - 1 then Inr False
          else multisig_loop env flags nHashType scriptCode st isig' nSigs' (ikey + 1) (nKeysCount - 1)))
      else Inr True)"
  by pat_completeness auto
termination
  by (relation "measure (\<lambda>(env, f, h, c, st, isig, ns, ikey, nk). nk + ns)") auto

declare multisig_loop.simps [simp del]

fun drop_signatures :: "valtype list \<Rightarrow> nat \<Rightarrow> nat \<Rightarrow> valtype \<Rightarrow> valtype eval" where
  "drop_signatures st i 0 scriptCode = Inr scriptCode"
| "drop_signatures st i (Suc n) scriptCode = ebind (stacktop st i) (\<lambda>vchSig.
     drop_signatures st (i + 1) n (fst (FindAndDelete scriptCode (push_data [] vchSig))))"

definition exec_checkmultisig ::
  "script_env \<Rightarrow> u32 \<Rightarrow> int \<Rightarrow> valtype \<Rightarrow> nat \<Rightarrow> mstate \<Rightarrow> mstate eval" where
  "exec_checkmultisig env flags nHashType script opcode m = require 1 m
     (ebind (stacktop (stack m) 1) (\<lambda>v. ebind (CastToBigNum (bn env) v 4) (\<lambda>b.
      let nKeysCount = getint (bn env) b in
      if nKeysCount < 0 \<or> nKeysCount > 20 then Inl Ret_false
      else let m = m\<lparr>nOpCount := nOpCount m + nKeysCount\<rparr> in
      if nOpCount m > 201 then Inl Ret_false
      else let ikey = 2; i = ikey + nat nKeysCount in
      require i m (ebind (stacktop (stack m) i) (\<lambda>v. ebind (CastToBigNum (bn env) v 4) (\<lambda>b.
      let nSigsCount = getint (bn env) b in
      if nSigsCount < 0 \<or> nSigsCount > nKeysCount then Inl Ret_false
      else let isig = i + 1; i = isig + nat nSigsCount in
      require i m (ebind (drop_signatures (stack m) isig (nat nSigsCount) (drop (pbegincodehash m) script))
        (\<lambda>scriptCode.
      ebind (multisig_loop env flags nHashType scriptCode (stack m) isig (nat nSigsCount) ikey (nat nKeysCount))
        (\<lambda>fSuccess.
      ebind (pop (i - 1) m) (\<lambda>m.
      require 1 m (ebind (stacktop (stack m) 1) (\<lambda>dummy.
      if flags AND SCRIPT_VERIFY_NULLDUMMY \<noteq> 0 \<and> dummy \<noteq> [] then Inl Ret_false
      else ebind (pop 1 m) (push_result (opcode = OP_CHECKMULTISIGVERIFY) fSuccess)))))))))))))"

definition disabled_opcode :: "nat \<Rightarrow> bool" where
  "disabled_opcode opcode \<longleftrightarrow>
     opcode = OP_CAT \<or> opcode = OP_SUBSTR \<or> opcode = OP_LEFT \<or> opcode = OP_RIGHT \<or> opcode = OP_INVERT
     \<or> opcode = OP_AND \<or> opcode = OP_OR \<or> opcode = OP_XOR \<or> opcode = OP_2MUL \<or> opcode = OP_2DIV
     \<or> opcode = OP_MUL \<or> opcode = OP_DIV \<or> opcode = OP_MOD \<or> opcode = OP_LSHIFT \<or> opcode = OP_RSHIFT"

text \<open>The \<open>switch\<close> on the opcode. The cases of disabled opcodes are unreachable and left out.\<close>

definition exec_op ::
  "script_env \<Rightarrow> u32 \<Rightarrow> int \<Rightarrow> valtype \<Rightarrow> nat \<Rightarrow> bool \<Rightarrow> nat \<Rightarrow> mstate \<Rightarrow> mstate eval" where
  "exec_op env flags nHashType script pc fExec opcode m =
     (if opcode = OP_1NEGATE \<or> OP_1 \<le> opcode \<and> opcode \<le> OP_16 then exec_push_value env opcode m
      else if opcode = OP_NOP then Inr m
      else if opcode = OP_CHECKLOCKTIMEVERIFY then exec_checklocktimeverify env flags m
      else if opcode = OP_NOP1 \<or> OP_NOP3 \<le> opcode \<and> opcode \<le> OP_NOP10 then exec_nop_n flags m
      else if opcode = OP_IF \<or> opcode = OP_NOTIF then exec_if fExec opcode m
      else if opcode = OP_ELSE then exec_else m
      else if opcode = OP_ENDIF then exec_endif m
      else if opcode = OP_VERIFY then exec_verify m
      else if opcode = OP_RETURN then Inl Ret_false
      else if opcode = OP_TOALTSTACK then exec_toaltstack m
      else if opcode = OP_FROMALTSTACK then exec_fromaltstack m
      else if OP_2DROP \<le> opcode \<and> opcode \<le> OP_TUCK \<or> opcode = OP_SIZE then exec_stack env opcode m
      else if opcode = OP_EQUAL \<or> opcode = OP_EQUALVERIFY then exec_equal opcode m
      else if opcode = OP_1ADD \<or> opcode = OP_1SUB \<or> OP_NEGATE \<le> opcode \<and> opcode \<le> OP_0NOTEQUAL
      then exec_numeric1 env opcode m
      else if opcode = OP_ADD \<or> opcode = OP_SUB \<or> OP_BOOLAND \<le> opcode \<and> opcode \<le> OP_MAX
      then exec_numeric2 env opcode m
      else if opcode = OP_WITHIN then exec_within env m
      else if OP_RIPEMD160 \<le> opcode \<and> opcode \<le> OP_HASH256 then exec_hash env opcode m
      else if opcode = OP_CODESEPARATOR then Inr (m\<lparr>pbegincodehash := pc\<rparr>)
      else if opcode = OP_CHECKSIG \<or> opcode = OP_CHECKSIGVERIFY
      then exec_checksig env flags nHashType script opcode m
      else if opcode = OP_CHECKMULTISIG \<or> opcode = OP_CHECKMULTISIGVERIFY
      then exec_checkmultisig env flags nHashType script opcode m
      else Inl Ret_false)"

text \<open>One turn of the loop of \<open>EvalScript\<close>, after the operation was read.\<close>

definition exec_instr ::
  "script_env \<Rightarrow> u32 \<Rightarrow> int \<Rightarrow> valtype \<Rightarrow> nat \<Rightarrow> nat \<Rightarrow> valtype \<Rightarrow> mstate \<Rightarrow> mstate eval" where
  "exec_instr env flags nHashType script pc opcode vchPushValue m =
     (let fExec = (False \<notin> set (vfExec m)) in
      if length vchPushValue > MAX_SCRIPT_ELEMENT_SIZE then Inl Ret_false
      else let m = (if opcode > OP_16 then m\<lparr>nOpCount := nOpCount m + 1\<rparr> else m) in
      if opcode > OP_16 \<and> nOpCount m > 201 then Inl Ret_false
      else if disabled_opcode opcode then Inl Ret_false
      else ebind (if fExec \<and> opcode \<le> OP_PUSHDATA4 then Inr (push vchPushValue m)
          else if fExec \<or> OP_IF \<le> opcode \<and> opcode \<le> OP_ENDIF
          then exec_op env flags nHashType script pc fExec opcode m
          else Inr m)
        (\<lambda>m. if length (stack m) + length (altstack m) > 1000 then Inl Ret_false else Inr m))"

function eval_loop :: "script_env \<Rightarrow> u32 \<Rightarrow> int \<Rightarrow> valtype \<Rightarrow> nat \<Rightarrow> mstate \<Rightarrow> mstate eval" where
  "eval_loop env flags nHashType script pc m =
     (if pc < length script
      then let (ok, pc', opcode, vchPushValue) = GetOp2 script pc in
        if \<not> ok then Inl Ret_false
        else ebind (exec_instr env flags nHashType script pc' opcode vchPushValue m)
          (eval_loop env flags nHashType script pc')
      else Inr m)"
  by pat_completeness auto
termination
  by (relation "measure (\<lambda>(e, f, h, s, pc, m). length s - pc)") (auto dest: GetOp2_measure)

declare eval_loop.simps [simp del]

definition EvalScript :: "script_env \<Rightarrow> u32 \<Rightarrow> int \<Rightarrow> valtype list \<Rightarrow> valtype \<Rightarrow> valtype list eval" where
  "EvalScript env flags nHashType st script =
     (if length script > 10000 then Inl Ret_false
      else ebind (eval_loop env flags nHashType script 0
          \<lparr>stack = st, altstack = [], vfExec = [], nOpCount = 0, pbegincodehash = 0\<rparr>)
        (\<lambda>m. if vfExec m \<noteq> [] then Inl Ret_false else Inr (stack m)))"

text \<open>\<open>stackCopy.back()\<close> and \<open>popstack(stackCopy)\<close> of an empty stack: the first is undefined, here a
  range error like the second.\<close>

definition VerifyScript :: "script_env \<Rightarrow> u32 \<Rightarrow> int \<Rightarrow> valtype \<Rightarrow> valtype \<Rightarrow> bool eval" where
  "VerifyScript env flags nHashType scriptSig scriptPubKey =
     (case EvalScript env flags nHashType [] scriptSig of
        Inl _ \<Rightarrow> Inr False
      | Inr stackCopy \<Rightarrow>
        (case EvalScript env flags nHashType stackCopy scriptPubKey of
           Inl _ \<Rightarrow> Inr False
         | Inr st \<Rightarrow>
             if st = [] then Inr False
             else if \<not> CastToBool (last st) then Inr False
             else if IsPayToScriptHash scriptPubKey
             then if \<not> IsPushOnly scriptSig then Inr False
               else ebind (stacktop stackCopy 1) (\<lambda>pubKey2. ebind (popstack stackCopy) (\<lambda>stackCopy.
                 case EvalScript env flags nHashType stackCopy pubKey2 of
                   Inl _ \<Rightarrow> Inr False
                 | Inr st2 \<Rightarrow> if st2 = [] then Inr False else Inr (CastToBool (last st2))))
             else Inr True))"

section \<open>What an operation may do\<close>

text \<open>
  \<open>good Q r\<close>: a result that is a value satisfies \<open>Q\<close>, and the only exception is the overflow of a
  number. The rules below compose it along the operations.
\<close>

fun good :: "('a \<Rightarrow> bool) \<Rightarrow> 'a eval \<Rightarrow> bool" where
  "good Q (Inr x) = Q x"
| "good Q (Inl Ret_false) = True"
| "good Q (Inl (Throws e)) = (e = Bignum_overflow)"

named_theorems good_rules \<open>composition rules for good\<close>

lemma good_ebind: "good R r \<Longrightarrow> (\<And>x. r = Inr x \<Longrightarrow> R x \<Longrightarrow> good Q (f x)) \<Longrightarrow> good Q (ebind r f)"
  by (cases "(R, r)" rule: good.cases) auto

lemma good_if [good_rules]: "(b \<Longrightarrow> good Q r) \<Longrightarrow> (\<not> b \<Longrightarrow> good Q r') \<Longrightarrow> good Q (if b then r else r')"
  by simp

lemma good_let [good_rules]: "good Q (f x) \<Longrightarrow> good Q (let y = x in f y)"
  by simp

lemma good_Inr [good_rules]: "Q x \<Longrightarrow> good Q (Inr x)"
  by simp

lemma good_false [good_rules]: "good Q (Inl Ret_false)"
  by simp

lemma good_require [good_rules]: "(n \<le> length (stack m) \<Longrightarrow> good Q r) \<Longrightarrow> good Q (require n m r)"
  by (simp add: require_def)

lemma good_stacktop [good_rules]:
  "1 \<le> i \<Longrightarrow> i \<le> length s \<Longrightarrow> (\<And>v. v \<in> set s \<Longrightarrow> good Q (f v)) \<Longrightarrow> good Q (ebind (stacktop s i) f)"
  by (simp add: stacktop_def)

lemma pops_take: "n \<le> length s \<Longrightarrow> pops n s = Inr (take (length s - n) s)"
proof (induction n arbitrary: s)
  case (Suc n)
  then have "s \<noteq> []" and "n \<le> length (butlast s)" by auto
  then show ?case using Suc
    by (simp add: popstack_def butlast_conv_take min_def)
qed simp

lemma pop_take: "n \<le> length (stack m) \<Longrightarrow> pop n m = Inr (m\<lparr>stack := take (length (stack m) - n) (stack m)\<rparr>)"
  by (simp add: pop_def pops_take)

lemma good_pop [good_rules]:
  "n \<le> length (stack m) \<Longrightarrow> good Q (f (m\<lparr>stack := take (length (stack m) - n) (stack m)\<rparr>))
     \<Longrightarrow> good Q (ebind (pop n m) f)"
  by (simp add: pop_take)

lemma good_pop_last [good_rules]:
  "n \<le> length (stack m) \<Longrightarrow> Q (m\<lparr>stack := take (length (stack m) - n) (stack m)\<rparr>) \<Longrightarrow> good Q (pop n m)"
  by (simp add: pop_take)

lemma swap_top_perm:
  assumes "1 \<le> i" "i \<le> length s" "1 \<le> j" "j \<le> length s"
  obtains s' where "swap_top i j s = Inr s'" "length s' = length s" "set s' = set s"
proof -
  let ?s = "s[length s - i := s ! (length s - j), length s - j := s ! (length s - i)]"
  have "swap_top i j s = Inr ?s" using assms by (simp add: swap_top_def stacktop_def)
  moreover have "set ?s = set s" using assms set_swap [of "length s - j" s "length s - i"] by simp
  ultimately show thesis using that by simp
qed

lemma good_swap [good_rules]:
  assumes "1 \<le> i" "i \<le> length s" "1 \<le> j" "j \<le> length s"
    and "\<And>s'. length s' = length s \<Longrightarrow> set s' = set s \<Longrightarrow> good Q (f s')"
  shows "good Q (ebind (swap_top i j s) f)"
  using swap_top_perm [OF assms(1-4)] assms(5) by (metis ebind_simps(2))

text \<open>
  What a run keeps of the values on the stacks: \<open>A\<close> holds of every value an operation can produce,
  \<open>B\<close> of every number it can read.
\<close>

locale script_values =
  fixes env :: script_env and A :: "valtype \<Rightarrow> bool" and B :: "int \<Rightarrow> bool"
  assumes A_bool: "A []" "A [1]"
    and A_opn: "opcode \<le> OP_16 \<Longrightarrow> A (getvch (bn env) (CBigNum_int (bn env) (int opcode - 80)))"
    and A_size: "A (getvch (bn env) (setuint64 (bn env) n))"
    and B_cast: "CastToBigNum (bn env) v 4 = Inr b \<Longrightarrow> B b"
    and A_numeric1: "B b \<Longrightarrow> A (getvch (bn env) (numeric1 opcode b))"
    and A_numeric2: "B b \<Longrightarrow> B b' \<Longrightarrow> A (getvch (bn env) (numeric2 opcode b b'))"
    and A_hash: "A (RIPEMD160_Once env v)" "A (SHA1_Once env v)" "A (SHA256_Once env v)"
begin

definition elems :: "mstate \<Rightarrow> bool" where
  "elems m \<longleftrightarrow> (\<forall>v \<in> set (stack m). A v) \<and> (\<forall>v \<in> set (altstack m). A v) \<and> nOpCount m \<le> 201"

lemma good_cast [good_rules]:
  "(\<And>b. B b \<Longrightarrow> good Q (f b)) \<Longrightarrow> good Q (ebind (CastToBigNum (bn env) v 4) f)"
  using B_cast [of v] by (auto simp: CastToBigNum_def)

lemma elems_push: "elems m \<Longrightarrow> A v \<Longrightarrow> elems (push v m)"
  by (auto simp: elems_def push_def)

lemma elems_stack: "elems m \<Longrightarrow> set s \<subseteq> set (stack m) \<Longrightarrow> elems (m\<lparr>stack := s\<rparr>)"
  by (auto simp: elems_def)

lemma elems_take: "elems m \<Longrightarrow> elems (m\<lparr>stack := take n (stack m)\<rparr>)"
  by (rule elems_stack) (auto dest: in_set_takeD)

lemma in_set_erase_top: "v \<in> set (erase_top i j s) \<Longrightarrow> v \<in> set s"
  by (auto simp: erase_top_def dest: in_set_takeD in_set_dropD)

lemma elems_erase: "elems m \<Longrightarrow> elems (m\<lparr>stack := erase_top i j (stack m)\<rparr>)"
  by (rule elems_stack) (auto dest: in_set_erase_top)

lemma elems_in: "elems m \<Longrightarrow> v \<in> set (stack m) \<Longrightarrow> A v"
  by (simp add: elems_def)

lemma good_push_result [good_rules]: "elems m \<Longrightarrow> good elems (push_result verify fSuccess m)"
  unfolding push_result_def
  by (auto simp: Let_def pop_take push_def elems_def A_bool dest: in_set_takeD)

lemmas elems_rules = elems_push elems_take elems_erase elems_stack A_size

lemma good_push_value: "elems m \<Longrightarrow> opcode \<le> OP_16 \<Longrightarrow> good elems (exec_push_value env opcode m)"
  by (simp add: exec_push_value_def elems_push A_opn)

lemma good_cltv: "elems m \<Longrightarrow> good elems (exec_checklocktimeverify env flags m)"
  unfolding exec_checklocktimeverify_def
  by (intro good_rules) (auto simp: CastToBigNum_def)

lemma good_if_op: "elems m \<Longrightarrow> good elems (exec_if fExec opcode m)"
  unfolding exec_if_def
  by (intro good_rules) (auto simp: elems_def dest: in_set_takeD)

lemma good_verify: "elems m \<Longrightarrow> good elems (exec_verify m)"
  unfolding exec_verify_def
  by (intro good_rules) (auto simp: elems_def dest: in_set_takeD)

lemma good_altstack: "elems m \<Longrightarrow> good elems (exec_toaltstack m)" "elems m \<Longrightarrow> good elems (exec_fromaltstack m)"
  unfolding exec_toaltstack_def exec_fromaltstack_def
   apply (intro good_rules; auto simp: elems_def dest: in_set_takeD)
  apply (intro good_rules; auto simp: elems_def popstack_def push_def Suc_le_eq dest: in_set_butlastD)
  done

lemma good_stack: "elems m \<Longrightarrow> good elems (exec_stack env opcode m)"
  unfolding exec_stack_def dup_from_def
  by (intro good_rules)
    (auto intro!: elems_rules dest: in_set_takeD in_set_dropD in_set_erase_top elems_in)

end

lemma stack_push [simp]:
  "stack (push v m) = stack m @ [v]" "altstack (push v m) = altstack m" "vfExec (push v m) = vfExec m"
  "nOpCount (push v m) = nOpCount m" "pbegincodehash (push v m) = pbegincodehash m"
  by (simp_all add: push_def)

text \<open>The loop of \<open>OP_CHECKMULTISIG\<close> on the lists of signatures and keys it walks through.\<close>

definition tops :: "'a list \<Rightarrow> nat \<Rightarrow> nat \<Rightarrow> 'a list" where
  "tops st i n = map (\<lambda>j. st ! (length st - (i + j))) [0..<n]"

lemma length_tops [simp]: "length (tops st i n) = n"
  by (simp add: tops_def)

lemma tops_simps [simp]:
  "tops st i 0 = []" "tops st i (Suc n) = st ! (length st - i) # tops st (Suc i) n"
  by (simp_all add: tops_def upt_conv_Cons map_Suc_upt [symmetric] comp_def del: upt_Suc)

fun multisig_list ::
  "script_env \<Rightarrow> u32 \<Rightarrow> int \<Rightarrow> valtype \<Rightarrow> valtype list \<Rightarrow> valtype list \<Rightarrow> bool eval" where
  "multisig_list env flags h code [] keys = Inr True"
| "multisig_list env flags h code (s # ss) [] = Inr False"
| "multisig_list env flags h code (s # ss) (k # ks) =
     (if strict_fail flags s k then Inl Ret_false
      else let sigs = (if sig_ok env flags h code s k then ss else s # ss) in
        if length sigs > length ks then Inr False else multisig_list env flags h code sigs ks)"

lemma multisig_loop_list:
  "1 \<le> isig \<Longrightarrow> 1 \<le> ikey \<Longrightarrow> isig + ns \<le> Suc (length st) \<Longrightarrow> ikey + nk \<le> Suc (length st) \<Longrightarrow> ns \<le> nk
   \<Longrightarrow> multisig_loop env flags h code st isig ns ikey nk
      = multisig_list env flags h code (tops st isig ns) (tops st ikey nk)"
proof (induction nk arbitrary: isig ns ikey)
  case 0
  then show ?case by (simp add: multisig_loop.simps)
next
  case (Suc nk)
  show ?case
  proof (cases ns)
    case 0
    then show ?thesis by (simp add: multisig_loop.simps)
  next
    case (Suc ns')
    then show ?thesis using Suc.prems Suc.IH [of "isig + 1" "ikey + 1" ns'] Suc.IH [of isig "ikey + 1" ns]
      by (subst multisig_loop.simps) (auto simp: stacktop_def Let_def)
  qed
qed

lemma multisig_list_good: "good (\<lambda>_. True) (multisig_list env flags h code sigs keys)"
  by (induction env flags h code sigs keys rule: multisig_list.induct) (auto simp: Let_def)

lemma multisig_loop_safe:
  "1 \<le> isig \<Longrightarrow> 1 \<le> ikey \<Longrightarrow> isig + ns \<le> Suc (length st) \<Longrightarrow> ikey + nk \<le> Suc (length st) \<Longrightarrow> ns \<le> nk
   \<Longrightarrow> good (\<lambda>_. True) (multisig_loop env flags h code st isig ns ikey nk)"
  by (simp add: multisig_loop_list multisig_list_good)

lemma drop_signatures_safe:
  "1 \<le> i \<Longrightarrow> i + n \<le> Suc (length st) \<Longrightarrow> good (\<lambda>_. True) (drop_signatures st i n code)"
  by (induction n arbitrary: i code) (auto simp: stacktop_def)

context script_values
begin

lemma good_equal: "elems m \<Longrightarrow> good elems (exec_equal opcode m)"
  unfolding exec_equal_def by (intro good_rules) (auto intro!: elems_rules)

lemma good_numeric:
  "elems m \<Longrightarrow> good elems (exec_numeric1 env opcode m)"
  "elems m \<Longrightarrow> good elems (exec_numeric2 env opcode m)"
  "elems m \<Longrightarrow> good elems (exec_within env m)"
  unfolding exec_numeric1_def exec_numeric2_def exec_within_def
  subgoal by (intro good_rules) (auto intro!: elems_rules A_numeric1)
  subgoal by (intro good_rules) (auto intro!: elems_rules A_numeric2 dest: in_set_takeD)
  subgoal by (intro good_rules) (auto intro!: elems_rules)
  done

lemma good_hash: "elems m \<Longrightarrow> good elems (exec_hash env opcode m)"
  unfolding exec_hash_def Hash160_def Hash256_def
  by (intro good_rules) (auto intro!: elems_rules simp: A_hash)

lemma good_checksig: "elems m \<Longrightarrow> good elems (exec_checksig env flags h script opcode m)"
  unfolding exec_checksig_def by (intro good_rules) (auto intro!: elems_rules)

lemma good_checkmultisig: "elems m \<Longrightarrow> good elems (exec_checkmultisig env flags h script opcode m)"
  unfolding exec_checkmultisig_def
  by (intro good_rules good_ebind [OF multisig_loop_safe] good_ebind [OF drop_signatures_safe])
    (auto intro!: elems_rules simp: elems_def dest: in_set_takeD)

lemma good_exec_op: "elems m \<Longrightarrow> good elems (exec_op env flags h script pc fExec opcode m)"
  unfolding exec_op_def
  by (intro good_if good_push_value good_cltv good_if_op good_verify good_altstack good_stack good_equal
      good_numeric good_hash good_checksig good_checkmultisig)
    (auto simp: exec_nop_n_def exec_else_def exec_endif_def elems_def)

definition limits :: "mstate \<Rightarrow> bool" where
  "limits m \<longleftrightarrow> elems m \<and> length (stack m) + length (altstack m) \<le> 1000"

lemma good_exec_instr:
  assumes "limits m" and "length vch \<le> MAX_SCRIPT_ELEMENT_SIZE \<Longrightarrow> A vch"
  shows "good limits (exec_instr env flags h script pc opcode vch m)"
proof -
  have e: "elems m" and n: "\<not> nOpCount m + 1 > 201 \<Longrightarrow> elems (m\<lparr>nOpCount := nOpCount m + 1\<rparr>)"
    using assms by (auto simp: limits_def elems_def)
  show ?thesis
    unfolding exec_instr_def
    by (intro good_rules good_ebind [where R=elems])
      (auto intro!: good_rules good_exec_op elems_push e n assms(2) simp: limits_def split: if_splits)
qed

lemma good_eval_loop:
  assumes A: "\<And>v. length v \<le> MAX_SCRIPT_ELEMENT_SIZE \<Longrightarrow> A v"
  shows "limits m \<Longrightarrow> good limits (eval_loop env flags h script pc m)"
proof (induction "length script - pc" arbitrary: pc m rule: less_induct)
  case less
  obtain ok pc' opcode vch where g: "GetOp2 script pc = (ok, pc', opcode, vch)" by (cases "GetOp2 script pc") auto
  have "good limits (eval_loop env flags h script pc' m')"
    if "ok" "limits m'" for m'
    using less.hyps [OF GetOp2_measure] that g by simp
  then show ?case
    using g less.prems good_exec_instr [OF less.prems A]
    by (subst eval_loop.simps) (auto intro: good_ebind [where R=limits])
qed

end

interpretation any: script_values env "\<lambda>_. True" "\<lambda>_. True" for env
  by unfold_locales simp_all

context openssl_bn
begin

lemma length_getvch: "\<bar>n\<bar> < 256 ^ k \<Longrightarrow> k < 500 \<Longrightarrow> length (getvch lib n) \<le> Suc k"
  using length_mpi_body [of n k] by (simp add: getvch_body mpi_limit_def)

lemma setvch_getvch: "\<bar>n\<bar> < 256 ^ k \<Longrightarrow> k < 500 \<Longrightarrow> setvch lib (getvch lib n) = n"
  using length_mpi_body [of n k] by (simp add: getvch_body setvch_value mpi_limit_def)

lemma CastToBigNum_value:
  "length v \<le> k \<Longrightarrow> k \<le> 5 \<Longrightarrow> CastToBigNum lib v k = Inr (mpi_value (rev v))"
proof -
  assume "length v \<le> k" "k \<le> 5"
  then have "\<bar>mpi_value (rev v)\<bar> < 256 ^ length v" "length v < 500" "length v \<le> mpi_limit"
    using abs_mpi_value [of "rev v"] by (simp_all add: mpi_limit_def)
  then show ?thesis using \<open>length v \<le> k\<close>
    by (simp add: CastToBigNum_def setvch_value [of v] setvch_getvch)
qed

lemma CastToBigNum_bound: "CastToBigNum lib v 4 = Inr b \<Longrightarrow> \<bar>b\<bar> < 256 ^ 4"
proof -
  assume c: "CastToBigNum lib v 4 = Inr b"
  then have l: "length v \<le> 4" by (simp add: CastToBigNum_def split: if_splits)
  then have "b = mpi_value (rev v)" using c CastToBigNum_value [OF l] by simp
  moreover have "(256 :: int) ^ length v \<le> 256 ^ 4" using l by (intro power_increasing) auto
  ultimately show ?thesis using abs_mpi_value [of "rev v"] by simp
qed

end

lemma abs_if_le: "(c \<Longrightarrow> \<bar>x\<bar> \<le> k) \<Longrightarrow> (\<not> c \<Longrightarrow> \<bar>y\<bar> \<le> k) \<Longrightarrow> \<bar>if c then x else y\<bar> \<le> (k :: int)"
  by simp

lemma abs_of_bool_le: "0 \<le> k \<Longrightarrow> \<bar>of_bool c\<bar> \<le> k + (1 :: int)"
  by (cases c) auto

lemma abs_numeric2: "\<bar>numeric2 opcode b b'\<bar> \<le> \<bar>b\<bar> + \<bar>b'\<bar> + 1"
  unfolding numeric2_def by (intro abs_if_le abs_of_bool_le) simp_all

definition digest_sizes :: "script_env \<Rightarrow> bool" where
  "digest_sizes env \<longleftrightarrow> (\<forall>v. length (RIPEMD160_Once env v) = 20 \<and> length (SHA1_Once env v) = 20
     \<and> length (SHA256_Once env v) = 32)"

lemma script_values_sized:
  assumes "openssl_bn (bn env)" "digest_sizes env"
  shows "script_values env (\<lambda>v. length v \<le> MAX_SCRIPT_ELEMENT_SIZE) (\<lambda>b. \<bar>b\<bar> < 256 ^ 4)"
proof -
  have g: "length (getvch (bn env) n) \<le> MAX_SCRIPT_ELEMENT_SIZE" if "\<bar>n\<bar> < 256 ^ 8" for n
    using openssl_bn.length_getvch [OF assms(1) that] by simp
  show ?thesis
  proof
    fix opcode :: nat assume "opcode \<le> OP_16"
    then have "CBigNum_int (bn env) (int opcode - 80) = int opcode - 80" "\<bar>int opcode - 80\<bar> < 256 ^ 8"
      using openssl_bn.setint64_value [OF assms(1)] by (simp_all add: CBigNum_int_def)
    then show "length (getvch (bn env) (CBigNum_int (bn env) (int opcode - 80))) \<le> MAX_SCRIPT_ELEMENT_SIZE"
      using g by simp
  next
    fix n :: u64
    show "length (getvch (bn env) (setuint64 (bn env) n)) \<le> MAX_SCRIPT_ELEMENT_SIZE"
      using g [of "int (unat n)"] uint_bounded [of n] openssl_bn.setuint64_value [OF assms(1)]
      by simp
  next
    fix b opcode assume "\<bar>b\<bar> < (256 :: int) ^ 4"
    then show "length (getvch (bn env) (numeric1 opcode b)) \<le> MAX_SCRIPT_ELEMENT_SIZE"
      by (intro g) (auto simp: numeric1_def)
  next
    fix b b' opcode assume "\<bar>b\<bar> < (256 :: int) ^ 4" "\<bar>b'\<bar> < (256 :: int) ^ 4"
    then show "length (getvch (bn env) (numeric2 opcode b b')) \<le> MAX_SCRIPT_ELEMENT_SIZE"
      using abs_numeric2 [of opcode b b'] by (intro g) simp
  qed (use assms openssl_bn.CastToBigNum_bound [OF assms(1)] in \<open>auto simp: digest_sizes_def\<close>)
qed

lemma EvalScript_good:
  assumes "script_values env A B" "\<And>v. length v \<le> MAX_SCRIPT_ELEMENT_SIZE \<Longrightarrow> A v"
    and "length st \<le> 1000" "\<forall>v \<in> set st. A v"
  shows "good (\<lambda>s. length s \<le> 1000 \<and> (\<forall>v \<in> set s. A v)) (EvalScript env flags h st script)"
  unfolding EvalScript_def
  using script_values.good_eval_loop [OF assms(1,2), of "\<lparr>stack = st, altstack = [], vfExec = [],
      nOpCount = 0, pbegincodehash = 0\<rparr>" flags h script 0] assms(3,4)
  by (intro good_rules good_ebind) (auto simp: script_values.limits_def [OF assms(1)]
      script_values.elems_def [OF assms(1)])

text \<open>C30: Every stack an accepted script leaves behind stays within the limits of the machine, at most
  1000 values of at most 520 bytes each, when it started within them.\<close>

theorem EvalScript_limits:
  assumes "openssl_bn (bn env)" "digest_sizes env"
    and "length st \<le> 1000" "\<forall>v \<in> set st. length v \<le> MAX_SCRIPT_ELEMENT_SIZE"
    and "EvalScript env flags nHashType st script = Inr st'"
  shows "length st' \<le> 1000 \<and> (\<forall>v \<in> set st'. length v \<le> MAX_SCRIPT_ELEMENT_SIZE)"
  using EvalScript_good [OF script_values_sized [OF assms(1,2)] _ assms(3,4), of flags nHashType script]
    assms(5) by simp

text \<open>An environment with digests of the right sizes and a signature check that accepts all but the
  empty signature.\<close>

definition example_env :: script_env where
  "example_env = \<lparr>bn = documented_lib, RIPEMD160_Once = (\<lambda>v. take 20 (v @ replicate 20 0)),
     SHA1_Once = (\<lambda>v. take 20 (v @ replicate 20 0)), SHA256_Once = (\<lambda>v. take 32 (v @ replicate 32 0)),
     CheckSig = (\<lambda>vchSig _ _ _ _. vchSig \<noteq> []), tx_nLockTime = 0, txin_nSequence = 0\<rparr>"

lemma example_env_ok: "openssl_bn (bn example_env)" "digest_sizes example_env"
  using doc.openssl_bn_axioms by (simp_all add: example_env_def digest_sizes_def min_def)

theorem EvalScript_limits_witness:
  "EvalScript example_env 0 0 [] [0x51] = Inr [[1]]
   \<and> length [[1 :: byte]] \<le> 1000 \<and> length [1 :: byte] \<le> MAX_SCRIPT_ELEMENT_SIZE"
proof -
  have "getvch documented_lib 1 = [1]"
    by (simp add: getvch_def documented_lib_def mpi_body_def minimal_le.simps)
  then have "EvalScript example_env 0 0 [] [0x51] = Inr [[1]]"
    by (simp add: EvalScript_def eval_loop.simps GetOp2_def exec_instr_def disabled_opcode_def exec_op_def
        exec_push_value_def CBigNum_int_def example_env_def push_def)
  then show ?thesis using EvalScript_limits [OF example_env_ok, of "[]" 0 0 "[0x51]" "[[1]]"] by simp
qed

end
