(* ===== verification/Script_Solver.thy ===== *)
theory Script_Solver
  imports Script_Eval
begin

text \<open>
  Recognising scripts (src/src/script.cpp): \<open>Solver\<close> matches a script against the templates of standard
  outputs, \<open>IsStandard\<close> and \<open>ScriptSigArgsExpected\<close> build on it, \<open>GetScriptSigType\<close> classifies input
  scripts, and \<open>CScriptCompressor\<close> stores the common forms in fewer bytes. The validity check and the
  decompression of public keys (OpenSSL) are parameters.
\<close>

section \<open>Templates\<close>

datatype txnouttype = TX_NONSTANDARD | TX_PUBKEY | TX_PUBKEYHASH | TX_SCRIPTHASH | TX_MULTISIG | TX_NULL_DATA

definition ops_script :: "nat list \<Rightarrow> valtype" where
  "ops_script ops = map word_of_nat ops"

text \<open>The templates in the order of the multimap: by type, then by insertion.\<close>

definition mTemplates :: "(txnouttype \<times> valtype) list" where
  "mTemplates = [
     (TX_PUBKEY, ops_script [OP_PUBKEY, OP_CHECKSIG]),
     (TX_PUBKEYHASH, ops_script [OP_DUP, OP_HASH160, OP_PUBKEYHASH, OP_EQUALVERIFY, OP_CHECKSIG]),
     (TX_MULTISIG, ops_script [OP_SMALLINTEGER, OP_PUBKEYS, OP_SMALLINTEGER, OP_CHECKMULTISIG]),
     (TX_NULL_DATA, ops_script [OP_RETURN]),
     (TX_NULL_DATA, ops_script [OP_RETURN, OP_SMALLDATA]),
     (TX_NULL_DATA, ops_script [OP_RETURN, OP_SMALLDATA, OP_RETURN, OP_SMALLDATA])]"

text \<open>The inner loop on \<open>OP_PUBKEYS\<close>; it returns \<open>pc1\<close>, \<open>opcode1\<close>, \<open>vch1\<close> and the solutions.\<close>

function take_pubkeys ::
  "valtype \<Rightarrow> nat \<Rightarrow> nat \<Rightarrow> valtype \<Rightarrow> valtype list \<Rightarrow> nat \<times> nat \<times> valtype \<times> valtype list" where
  "take_pubkeys s1 pc1 opcode1 vch1 sols =
     (if length vch1 \<ge> 33 \<and> length vch1 \<le> 120
      then let (ok, pc1', opcode1', vch1') = GetOp2 s1 pc1 in
        if \<not> ok then (pc1', opcode1', vch1', sols @ [vch1])
        else take_pubkeys s1 pc1' opcode1' vch1' (sols @ [vch1])
      else (pc1, opcode1, vch1, sols))"
  by pat_completeness auto
termination by (relation "measure (\<lambda>(s, pc, op, v, sols). length s - pc)") (auto dest: GetOp2_measure)

declare take_pubkeys.simps [simp del]

text \<open>One template operation against one script operation: the solutions if they match.\<close>

definition match_op :: "nat \<Rightarrow> valtype \<Rightarrow> nat \<Rightarrow> valtype \<Rightarrow> valtype list \<Rightarrow> valtype list option" where
  "match_op opcode1 vch1 opcode2 vch2 sols =
     (if opcode2 = OP_PUBKEY
      then if length vch1 < 33 \<or> length vch1 > 120 then None else Some (sols @ [vch1])
      else if opcode2 = OP_PUBKEYHASH
      then if length vch1 \<noteq> 20 then None else Some (sols @ [vch1])
      else if opcode2 = OP_SMALLINTEGER
      then if opcode1 = OP_0 \<or> opcode1 \<ge> OP_1 \<and> opcode1 \<le> OP_16
        then case DecodeOP_N opcode1 of None \<Rightarrow> None | Some n \<Rightarrow> Some (sols @ [[word_of_nat n]])
        else None
      else if opcode2 = OP_SMALLDATA
      then if length vch1 > MAX_OP_RETURN_RELAY then None else Some sols
      else if opcode1 \<noteq> opcode2 \<or> vch1 \<noteq> vch2 then None
      else Some sols)"

function match_loop :: "valtype \<Rightarrow> nat \<Rightarrow> valtype \<Rightarrow> nat \<Rightarrow> valtype list \<Rightarrow> valtype list option" where
  "match_loop s1 pc1 s2 pc2 sols =
     (if pc1 = length s1 \<and> pc2 = length s2 then Some sols
      else let (ok1, pc1', opcode1, vch1) = GetOp2 s1 pc1 in
        if \<not> ok1 then None
        else let (ok2, pc2', opcode2, vch2) = GetOp2 s2 pc2 in
        if \<not> ok2 then None
        else if opcode2 = OP_PUBKEYS
        then let (pc1'', opcode1', vch1', sols') = take_pubkeys s1 pc1' opcode1 vch1 sols;
            (ok2', pc2'', opcode2', vch2') = GetOp2 s2 pc2' in
          if \<not> ok2' then None
          else case match_op opcode1' vch1' opcode2' vch2' sols' of
              None \<Rightarrow> None | Some sols'' \<Rightarrow> match_loop s1 pc1'' s2 pc2'' sols''
        else case match_op opcode1 vch1 opcode2 vch2 sols of
            None \<Rightarrow> None | Some sols' \<Rightarrow> match_loop s1 pc1' s2 pc2' sols')"
  by pat_completeness auto
termination
proof (relation "measure (\<lambda>(s1, pc1, s2, pc2, sols). length s2 - pc2)", goal_cases)
  case (2 s1 pc1 s2 pc2 sols r1 ok1 q1 pc1' t1 opcode1 vch1 r2 ok2 q2 pc2' t2 opcode2 vch2 r3 pc1'' q3
      opcode1' t3 vch1' sols' r4 ok2' q4 pc2'' t4 opcode2' vch2' sols'')
  then show ?case using GetOp2_measure [of pc2' opcode2 vch2 s2 pc2]
      GetOp2_measure [of pc2'' opcode2' vch2' s2 pc2'] by simp
next
  case (3 s1 pc1 s2 pc2 sols r1 ok1 q1 pc1' t1 opcode1 vch1 r2 ok2 q2 pc2' t2 opcode2 vch2 sols')
  then show ?case using GetOp2_measure [of pc2' opcode2 vch2 s2 pc2] by simp
qed simp

declare match_loop.simps [simp del]

text \<open>The scan of the templates: whether it succeeds, the type and the solutions.\<close>

fun scan_templates ::
  "valtype \<Rightarrow> (txnouttype \<times> valtype) list \<Rightarrow> bool \<times> txnouttype \<times> valtype list" where
  "scan_templates script1 [] = (False, TX_NONSTANDARD, [])"
| "scan_templates script1 ((t, script2) # ts) =
     (case match_loop script1 0 script2 0 [] of
        None \<Rightarrow> scan_templates script1 ts
      | Some sols \<Rightarrow>
          if t = TX_MULTISIG
          then let m = hd (hd sols); n = hd (last sols) in
            if m < 1 \<or> n < 1 \<or> m > n \<or> int (length sols) - 2 \<noteq> int (unat n)
            then (False, t, sols) else (True, t, sols)
          else (True, t, sols))"

definition Solver :: "valtype \<Rightarrow> bool \<times> txnouttype \<times> valtype list" where
  "Solver scriptPubKey =
     (if IsPayToScriptHash scriptPubKey then (True, TX_SCRIPTHASH, [take 20 (drop 2 scriptPubKey)])
      else scan_templates scriptPubKey mTemplates)"

definition ScriptSigArgsExpected :: "txnouttype \<Rightarrow> valtype list \<Rightarrow> int" where
  "ScriptSigArgsExpected t vSolutions = (case t of
     TX_NONSTANDARD \<Rightarrow> - 1 | TX_NULL_DATA \<Rightarrow> - 1 | TX_PUBKEY \<Rightarrow> 1 | TX_PUBKEYHASH \<Rightarrow> 2
   | TX_MULTISIG \<Rightarrow> if length vSolutions < 1 \<or> length (vSolutions ! 0) < 1 then - 1
       else uint (vSolutions ! 0 ! 0) + 1
   | TX_SCRIPTHASH \<Rightarrow> 1)"

definition IsStandard :: "valtype \<Rightarrow> bool \<times> txnouttype" where
  "IsStandard scriptPubKey = (let (ok, whichType, vSolutions) = Solver scriptPubKey in
     if \<not> ok then (False, whichType)
     else if whichType = TX_MULTISIG \<and>
       (let m = hd (hd vSolutions); n = hd (last vSolutions) in n < 1 \<or> n > 3 \<or> m < 1 \<or> m > n)
     then (False, whichType)
     else (whichType \<noteq> TX_NONSTANDARD, whichType))"

datatype ScriptSigType = UNKNOWN | P2PK | P2PKH

definition GetScriptSigType :: "valtype \<Rightarrow> ScriptSigType" where
  "GetScriptSigType scriptSig = (let (ok, pc, _, vchSig) = GetOp2 scriptSig 0 in
     if \<not> ok then UNKNOWN
     else if \<not> CheckSignatureEncoding vchSig 0 then UNKNOWN
     else if pc = length scriptSig then P2PK
     else let (ok, pc, _, vchPubKey) = GetOp2 scriptSig pc in
       if \<not> ok then UNKNOWN
       else if pc \<noteq> length scriptSig then UNKNOWN
       else if length vchPubKey = 33 \<or> length vchPubKey = 65 then P2PKH
       else UNKNOWN)"

section \<open>Standard scripts are recognised\<close>

lemma length_ops_script [simp]: "length (ops_script ops) = length ops"
  by (simp add: ops_script_def)

lemma GetOp2_ops_script:
  "i < length ops \<Longrightarrow> OP_PUSHDATA4 < ops ! i \<Longrightarrow> ops ! i < 256
     \<Longrightarrow> GetOp2 (ops_script ops) i = (True, Suc i, ops ! i, [])"
  by (simp add: GetOp2_def ops_script_def)

lemma GetOp2_at_end: "length s \<le> pc \<Longrightarrow> GetOp2 s pc = (False, pc, OP_INVALIDOPCODE, [])"
  by (simp add: GetOp2_def)

lemma take_pubkeys_all:
  assumes "drop pc s = PushAll ks @ word_of_nat opcode # rest" "OP_PUSHDATA4 < opcode" "opcode < 256"
    and "length s < 2 ^ 32" "\<forall>k \<in> set (v # ks). 33 \<le> length k \<and> length k \<le> 120"
  shows "take_pubkeys s pc opcode' v sols = (Suc (pc + length (PushAll ks)), opcode, [], sols @ v # ks)"
  using assms
proof (induction ks arbitrary: pc opcode' v sols)
  case Nil
  then have "GetOp2 s pc = (True, Suc pc, opcode, [])" by (auto intro: GetOp2_at_op)
  then show ?case using Nil by (simp add: take_pubkeys.simps)
next
  case (Cons k ks)
  then have d: "drop pc s = push_data [] k @ PushAll ks @ word_of_nat opcode # rest" by simp
  have g: "GetOp2 s pc = (True, pc + length (push_data [] k), push_opcode_of k, k)"
    by (rule GetOp2_at_push [OF d]) (use Cons in simp)
  have "drop (pc + length (push_data [] k)) s = PushAll ks @ word_of_nat opcode # rest"
    using split_at(3) [OF d] by simp
  then show ?case
    using Cons.IH [of "pc + length (push_data [] k)" k "push_opcode_of k" "sols @ [v]"] Cons.prems g
    by (subst take_pubkeys.simps) (simp add: add.assoc)
qed

lemma solver_p2pkh:
  assumes "length h = 20"
  shows "Solver (GetScriptForKeyID h) = (True, TX_PUBKEYHASH, [h])"
proof -
  define s where "s = GetScriptForKeyID h"
  have len: "length s = 25" and d: "drop 0 s = word_of_nat OP_DUP # drop 1 s"
    "drop (Suc 0) s = word_of_nat OP_HASH160 # drop 2 s"
    "drop (Suc (Suc 0)) s = push_data [] h @ drop 23 s"
    "drop 23 s = word_of_nat OP_EQUALVERIFY # drop 24 s" "drop 24 s = word_of_nat OP_CHECKSIG # []"
    and l: "length (push_data [] h) = 21"
    using assms by (simp_all add: s_def GetScriptForKeyID_def push_uint160_def push_data_def)
  note g = GetOp2_at_op [OF d(1)] GetOp2_at_op [OF d(2)] GetOp2_at_push [OF d(3)] GetOp2_at_op [OF d(4)]
    GetOp2_at_op [OF d(5)]
  have "match_loop s 0 (ops_script [OP_PUBKEY, OP_CHECKSIG]) 0 [] = None"
    by (subst match_loop.simps) (simp add: g len GetOp2_ops_script match_op_def)
  moreover have "match_loop s 0 (ops_script [OP_DUP, OP_HASH160, OP_PUBKEYHASH, OP_EQUALVERIFY, OP_CHECKSIG]) 0 []
      = Some [h]"
    by (simp add: match_loop.simps g len l GetOp2_ops_script match_op_def assms)
  ultimately show ?thesis
    unfolding Solver_def s_def [symmetric] mTemplates_def by (simp add: IsPayToScriptHash_def len)
qed

lemma solver_p2sh:
  assumes "length h = 20"
  shows "Solver (GetScriptForScriptID h) = (True, TX_SCRIPTHASH, [h])"
  using assms by (simp add: Solver_def IsPayToScriptHash_def GetScriptForScriptID_def push_uint160_def
      nth_append)

lemma solver_pubkey:
  assumes "33 \<le> length pub" "length pub \<le> 120"
  shows "Solver (GetScriptForRawPubKey pub) = (True, TX_PUBKEY, [pub])"
proof -
  define s where "s = GetScriptForRawPubKey pub"
  let ?n = "length (push_data [] pub)"
  have len: "length s = Suc ?n" and d: "drop 0 s = push_data [] pub @ [word_of_nat OP_CHECKSIG]"
    "drop ?n s = word_of_nat OP_CHECKSIG # []" by (simp_all add: s_def GetScriptForRawPubKey_def)
  have n: "33 < ?n" "?n \<le> 125" using assms length_push_data [of pub] by linarith+
  then have g: "GetOp2 s 0 = (True, ?n, push_opcode_of pub, pub)" "GetOp2 s ?n = (True, Suc ?n, OP_CHECKSIG, [])"
    using GetOp2_at_push [OF d(1)] GetOp2_at_op [OF d(2)] len by simp_all
  have "match_loop s 0 (ops_script [OP_PUBKEY, OP_CHECKSIG]) 0 [] = Some [pub]"
    using n assms by (simp add: match_loop.simps g len GetOp2_ops_script match_op_def)
  moreover have "\<not> IsPayToScriptHash s" using n len by (simp add: IsPayToScriptHash_def)
  ultimately show ?thesis
    unfolding Solver_def s_def [symmetric] mTemplates_def by simp
qed

lemma solver_multisig:
  assumes "1 \<le> m" "m \<le> length keys" "length keys \<le> 16" "\<forall>k \<in> set keys. 33 \<le> length k \<and> length k \<le> 120"
    and "GetScriptForMultisig (int m) keys = Some s"
  shows "Solver s = (True, TX_MULTISIG, [word_of_nat m] # keys @ [[word_of_nat (length keys)]])"
proof -
  obtain k ks where keys: "keys = k # ks" using assms by (cases keys) auto
  let ?n = "length keys" and ?p = "push_data [] k"
  have s: "s = word_of_nat (80 + m) # PushAll keys @ [word_of_nat (80 + ?n), word_of_nat OP_CHECKMULTISIG]"
    using multisig_script [of m keys] assms by simp
  have len: "length s = length (PushAll keys) + 3" by (simp add: s)
  have "length (PushAll keys) \<le> 16 * 125"
    using length_PushAll [of keys 120] assms(3,4) mult_le_mono1 [of ?n 16 125] by auto
  then have small: "length s < 2 ^ 32" using len by simp
  have d: "drop 0 s = word_of_nat (80 + m) # drop 1 s"
    "drop (Suc 0) s = ?p @ PushAll ks @ word_of_nat (80 + ?n) # [word_of_nat OP_CHECKMULTISIG]"
    "drop (Suc (length ?p)) s = PushAll ks @ word_of_nat (80 + ?n) # [word_of_nat OP_CHECKMULTISIG]"
    "drop (Suc (Suc (length (PushAll keys)))) s = word_of_nat OP_CHECKMULTISIG # []"
    by (simp_all add: s keys)
  have g: "GetOp2 s 0 = (True, Suc 0, 80 + m, [])"
    "GetOp2 s (Suc 0) = (True, Suc (length ?p), push_opcode_of k, k)"
    "GetOp2 s (Suc (Suc (length (PushAll keys)))) = (True, length s, OP_CHECKMULTISIG, [])"
    using GetOp2_at_op [OF d(1)] GetOp2_at_push [OF d(2) small] GetOp2_at_op [OF d(4)] assms(1-3)
    by (simp_all add: len)
  have t: "take_pubkeys s (Suc (length ?p)) opc k sols
      = (Suc (Suc (length (PushAll keys))), 80 + ?n, [], sols @ keys)" for opc sols
    using take_pubkeys_all [OF d(3) _ _ small, of k opc sols] assms(3,4) by (simp add: keys)
  have "match_loop s 0 (ops_script [OP_PUBKEY, OP_CHECKSIG]) 0 [] = None"
    "match_loop s 0 (ops_script [OP_DUP, OP_HASH160, OP_PUBKEYHASH, OP_EQUALVERIFY, OP_CHECKSIG]) 0 [] = None"
    using assms(1-3) by (simp_all add: match_loop.simps [of s 0] g len GetOp2_ops_script match_op_def)
  moreover have "match_loop s 0 (ops_script [OP_SMALLINTEGER, OP_PUBKEYS, OP_SMALLINTEGER, OP_CHECKMULTISIG]) 0 []
      = Some ([word_of_nat m] # keys @ [[word_of_nat ?n]])"
    using assms(1-3) by (simp add: match_loop.simps g t len GetOp2_ops_script match_op_def DecodeOP_N_def)
  moreover have "\<not> IsPayToScriptHash s"
    using assms(1-3) unat_byte [of "80 + m"] by (simp add: IsPayToScriptHash_def s)
  moreover have "(word_of_nat m :: byte) \<noteq> 0" "(word_of_nat ?n :: byte) \<noteq> 0"
    "\<not> (word_of_nat ?n :: byte) < word_of_nat m" "uint (word_of_nat ?n :: byte) = int ?n"
  proof -
    have u: "unat (word_of_nat m :: byte) = m" "unat (word_of_nat ?n :: byte) = ?n" using assms(2,3) by simp_all
    then show "(word_of_nat m :: byte) \<noteq> 0" "(word_of_nat ?n :: byte) \<noteq> 0" using assms(1,2) by force+
    show "\<not> (word_of_nat ?n :: byte) < word_of_nat m" using u assms(2) by (simp only: word_less_nat_alt not_less)
    show "uint (word_of_nat ?n :: byte) = int ?n" by (simp only: uint_nat u)
  qed
  ultimately show ?thesis
    unfolding Solver_def mTemplates_def by (simp add: Let_def)
qed

text \<open>C33: \<open>Solver\<close> recognises every script the client writes for a destination and returns what was put in:
  the key hash, the script hash, the public key, and for an \<open>m\<close>-of-\<open>n\<close> output \<open>m\<close>, the keys and \<open>n\<close>.\<close>

theorem solver_roundtrip:
  assumes "length h = 20" "33 \<le> length pub" "length pub \<le> 120"
    and "1 \<le> m" "m \<le> length keys" "length keys \<le> 16" "\<forall>k \<in> set keys. 33 \<le> length k \<and> length k \<le> 120"
  shows "Solver (GetScriptForKeyID h) = (True, TX_PUBKEYHASH, [h])
    \<and> Solver (GetScriptForScriptID h) = (True, TX_SCRIPTHASH, [h])
    \<and> Solver (GetScriptForRawPubKey pub) = (True, TX_PUBKEY, [pub])
    \<and> map_option Solver (GetScriptForMultisig (int m) keys)
       = Some (True, TX_MULTISIG, [word_of_nat m] # keys @ [[word_of_nat (length keys)]])"
  using solver_p2pkh [OF assms(1)] solver_p2sh [OF assms(1)] solver_pubkey [OF assms(2,3)]
    solver_multisig [OF assms(4-7)] multisig_script [of m keys] assms(4-6) by auto

theorem solver_roundtrip_witness:
  "map_option Solver (GetScriptForMultisig 1 [replicate 33 2, replicate 65 4])
    = Some (True, TX_MULTISIG, [[1], replicate 33 2, replicate 65 4, [2]])"
  using solver_roundtrip [of "replicate 20 0" "replicate 33 2" 1 "[replicate 33 2, replicate 65 4]"] by simp

text \<open>The template for data outputs accepts an operation without data, such as a signature check.\<close>

lemma null_data_accepts_operation: "Solver [0x6a, 0xac] = (True, TX_NULL_DATA, [])"
proof -
  have g: "GetOp2 [0x6a, 0xac] 0 = (True, Suc 0, OP_RETURN, [])"
    "GetOp2 [0x6a, 0xac] (Suc 0) = (True, 2, OP_CHECKSIG, [])" by (simp_all add: GetOp2_def)
  show ?thesis
    by (simp add: Solver_def mTemplates_def IsPayToScriptHash_def match_loop.simps g GetOp2_ops_script GetOp2_at_end
        match_op_def)
qed

end
