(* ===== verification/Serialize.thy ===== *)
theory Serialize
  imports Bignum "HOL-Library.Monad_Syntax"
begin

text \<open>
  Serialisation (src/src/serialize.h): sizes of vectors (\<open>CompactSize\<close>) and variable-length integers
  (\<open>VARINT\<close>). A stream is the list of bytes left to read; reading past its end throws, here None.
\<close>

section \<open>Reading from a stream\<close>

definition READDATA :: "nat \<Rightarrow> byte list \<Rightarrow> (byte list \<times> byte list) option" where
  "READDATA n is = (if length is < n then None else Some (take n is, drop n is))"

lemma READDATA_append [simp]: "n = length bs \<Longrightarrow> READDATA n (bs @ is) = Some (bs, is)"
  by (simp add: READDATA_def)

lemma READDATA_1: "READDATA (Suc 0) is = (case is of [] \<Rightarrow> None | b # bs \<Rightarrow> Some ([b], bs))"
  by (cases "is") (simp_all add: READDATA_def)

lemma READDATA_Some: "READDATA n is = Some (bs, is') \<longleftrightarrow> is = bs @ is' \<and> length bs = n"
  by (auto simp: READDATA_def)

section \<open>Compact sizes\<close>

definition MAX_SIZE :: nat where
  "MAX_SIZE = 0x02000000"

definition GetSizeOfCompactSize :: "nat \<Rightarrow> nat" where
  "GetSizeOfCompactSize nSize = (if nSize < 253 then 1 else if nSize \<le> 0xffff then 1 + 2
     else if nSize \<le> 0xffffffff then 1 + 4 else 1 + 8)"

definition WriteCompactSize :: "nat \<Rightarrow> byte list" where
  "WriteCompactSize nSize =
     (if nSize < 253 then [word_of_nat nSize]
      else if nSize \<le> 0xffff then 253 # le_bytes 2 nSize
      else if nSize \<le> 0xffffffff then 254 # le_bytes 4 nSize
      else 255 # le_bytes 8 nSize)"

definition ReadCompactSize :: "byte list \<Rightarrow> (nat \<times> byte list) option" where
  "ReadCompactSize is = do {
     (ch, is) \<leftarrow> READDATA 1 is;
     let chSize = unat (hd ch);
     (nSizeRet, is) \<leftarrow>
       (if chSize < 253 then Some (chSize, is)
        else if chSize = 253
        then do { (x, is) \<leftarrow> READDATA 2 is; if le_nat x < 253 then None else Some (le_nat x, is) }
        else if chSize = 254
        then do { (x, is) \<leftarrow> READDATA 4 is; if le_nat x < 0x10000 then None else Some (le_nat x, is) }
        else do { (x, is) \<leftarrow> READDATA 8 is; if le_nat x < 0x100000000 then None else Some (le_nat x, is) });
     if nSizeRet > MAX_SIZE then None else Some (nSizeRet, is) }"

lemma le_nat_bytes: "n < 256 ^ k \<Longrightarrow> le_nat (le_bytes k n) = n"
  by simp

lemma CompactSize_write_read:
  "n \<le> MAX_SIZE \<Longrightarrow> ReadCompactSize (WriteCompactSize n @ rest) = Some (n, rest)"
  by (auto simp: ReadCompactSize_def WriteCompactSize_def READDATA_1 MAX_SIZE_def)

lemma CompactSize_canonical:
  assumes "ReadCompactSize is = Some (n, rest)"
  shows "is = WriteCompactSize n @ rest" and "n \<le> MAX_SIZE"
proof -
  obtain b bs where "is": "is = b # bs" using assms by (cases "is") (auto simp: ReadCompactSize_def READDATA_1)
  have b: "word_of_nat (unat b) = b" by simp
  have le: "le_bytes k (le_nat x) = x" if "length x = k" for k x using le_bytes_le_nat [of x] that by simp
  have lt: "le_nat x \<le> 65535 \<and> le_nat x \<le> 4294967295" if "length x = 2" for x
    using le_nat_less [of x] that by simp
  have lt4: "le_nat x \<le> 4294967295" if "length x = 4" for x using le_nat_less [of x] that by simp
  consider "unat b < 253" | "unat b = 253" | "unat b = 254" | "unat b = 255" using unat_byte_less [of b] by linarith
  then have "is = WriteCompactSize n @ rest \<and> n \<le> MAX_SIZE"
  proof cases
    case 1
    then show ?thesis using assms "is"
      by (auto simp: ReadCompactSize_def READDATA_1 WriteCompactSize_def Let_def split: if_splits)
  next
    case 2
    then have "b = 253" using b by auto
    then show ?thesis using assms "is"
      by (auto simp: ReadCompactSize_def READDATA_1 READDATA_Some WriteCompactSize_def Let_def not_less le lt lt4
          split: if_splits bind_splits)
  next
    case 3
    then have "b = 254" using b by auto
    then show ?thesis using assms "is"
      by (auto simp: ReadCompactSize_def READDATA_1 READDATA_Some WriteCompactSize_def Let_def not_less le lt lt4
          split: if_splits bind_splits)
  next
    case 4
    then have "b = 255" using b by auto
    then show ?thesis using assms "is"
      by (auto simp: ReadCompactSize_def READDATA_1 READDATA_Some WriteCompactSize_def Let_def not_less le lt lt4
          split: if_splits bind_splits)
  qed
  then show "is = WriteCompactSize n @ rest" "n \<le> MAX_SIZE" by auto
qed

lemma length_WriteCompactSize: "length (WriteCompactSize n) = GetSizeOfCompactSize n"
  by (simp add: WriteCompactSize_def GetSizeOfCompactSize_def)

section \<open>Variable-length integers\<close>

text \<open>
  \<open>WriteVarInt\<close> for \<open>unsigned int\<close>: the digits are produced from the last to the first (the array
  \<open>tmp\<close>) and written in reverse; every digit but the last one written has its top bit set.
\<close>

function varint_digits :: "nat \<Rightarrow> bool \<Rightarrow> byte list" where
  "varint_digits n later =
     (let d = word_of_nat (n mod 128) OR (if later then 0x80 else 0x00) in
      if n \<le> 0x7f then [d] else d # varint_digits (n div 128 - 1) True)"
  by pat_completeness auto
termination by (relation "measure fst") auto

declare varint_digits.simps [simp del]

definition WriteVarInt :: "nat \<Rightarrow> byte list" where
  "WriteVarInt n = rev (varint_digits n False)"

fun read_varint :: "u32 \<Rightarrow> byte list \<Rightarrow> (u32 \<times> byte list) option" where
  "read_varint n [] = None"
| "read_varint n (chData # is) =
     (let n' = push_bit 7 n OR ucast (chData AND 0x7f) in
      if chData AND 0x80 \<noteq> 0 then read_varint (n' + 1) is else Some (n', is))"

definition ReadVarInt :: "byte list \<Rightarrow> (u32 \<times> byte list) option" where
  "ReadVarInt is = read_varint 0 is"

function GetSizeOfVarInt :: "nat \<Rightarrow> nat" where
  "GetSizeOfVarInt n = (if n \<le> 0x7f then 1 else 1 + GetSizeOfVarInt (n div 128 - 1))"
  by pat_completeness auto
termination by (relation "measure id") auto

declare GetSizeOfVarInt.simps [simp del]

lemma digit_parts:
  assumes "m < 128"
  shows "(word_of_nat m OR 0x80 :: byte) AND 0x80 \<noteq> 0" "(word_of_nat m OR 0x80 :: byte) AND 0x7f = word_of_nat m"
    "(word_of_nat m :: byte) AND 0x80 = 0" "(word_of_nat m :: byte) AND 0x7f = word_of_nat m"
proof -
  have b: "\<not> bit (word_of_nat m :: byte) 7"
    using assms by (simp add: bit_simps bit_iff_odd [of m])
  then show "(word_of_nat m OR 0x80 :: byte) AND 0x80 \<noteq> 0" "(word_of_nat m OR 0x80 :: byte) AND 0x7f = word_of_nat m"
    "(word_of_nat m :: byte) AND 0x80 = 0" "(word_of_nat m :: byte) AND 0x7f = word_of_nat m"
    using bit_byte_7 byte_or_128 [of "word_of_nat m"] byte_and_127(3) [of "word_of_nat m"] by blast+
qed

lemma accumulate:
  assumes "m < 128"
  shows "push_bit 7 (word_of_nat q :: u32) OR ucast (word_of_nat m :: byte) = word_of_nat (128 * q + m)"
proof -
  have hi: "\<not> bit m n" if "7 \<le> n" for n
    using assms power_increasing [OF that, of "2 :: nat"] by (simp add: bit_iff_odd)
  have "push_bit 7 q AND m = 0" using hi by (auto simp: bit_eq_iff bit_simps)
  then have "push_bit 7 q OR m = push_bit 7 q + m" by (simp add: disjunctive_add_eq_or)
  then have "word_of_nat (push_bit 7 q OR m) = (word_of_nat (128 * q + m) :: u32)"
    by (simp add: push_bit_eq_mult mult.commute)
  moreover have "ucast (word_of_nat m :: byte) = (word_of_nat m :: u32)"
    using hi by (intro bit_word_eqI) (auto simp: bit_simps linorder_not_le [symmetric])
  ultimately show ?thesis by (simp add: of_nat_or_eq of_nat_push_bit)
qed

text \<open>Reading the digits of \<open>n\<close> from the first one brings the accumulator to \<open>n\<close>.\<close>

lemma varint_cases:
  "n \<le> 0x7f \<Longrightarrow> varint_digits n later = [word_of_nat n OR (if later then 0x80 else 0)]"
  "0x7f < n \<Longrightarrow> varint_digits n later
     = (word_of_nat (n mod 128) OR (if later then 0x80 else 0)) # varint_digits (n div 128 - 1) True"
  by (simp_all add: varint_digits.simps [of n] Let_def)

lemma read_varint_digits:
  "n < 2 ^ 32 \<Longrightarrow> read_varint 0 (rev (varint_digits n later) @ rest)
    = (if later then read_varint (word_of_nat n + 1) rest else Some (word_of_nat n, rest))"
proof (induction n arbitrary: later rest rule: less_induct)
  case (less n)
  show ?case
  proof (cases "n \<le> 0x7f")
    case True
    then show ?thesis using accumulate [of n 0] digit_parts [of n] by (simp add: varint_cases Let_def)
  next
    case False
    let ?d = "word_of_nat (n mod 128) OR (if later then 0x80 else 0) :: byte" and ?q = "n div 128 - 1"
    have q: "?q < n" "?q < 2 ^ 32" using False less.prems by auto
    have n: "128 * (?q + 1) + n mod 128 = n" using False by simp
    have "read_varint 0 (rev (varint_digits n later) @ rest) = read_varint (word_of_nat (?q + 1)) (?d # rest)"
      using less.IH [OF q(1,2), of True "?d # rest"] False by (simp add: varint_cases)
    also have "push_bit 7 (word_of_nat (?q + 1) :: u32) OR ucast (?d AND 0x7f) = word_of_nat n"
    proof -
      have "?d AND 0x7f = word_of_nat (n mod 128)" using digit_parts [of "n mod 128"] by (cases later) simp_all
      then show ?thesis using accumulate [of "n mod 128" "?q + 1"] by (simp only: n)
    qed
    then have "read_varint (word_of_nat (?q + 1)) (?d # rest)
      = (if later then read_varint (word_of_nat n + 1) rest else Some (word_of_nat n, rest))"
      using digit_parts [of "n mod 128"] by (cases later) (simp_all only: read_varint.simps Let_def if_True if_False, simp_all)
    finally show ?thesis .
  qed
qed

lemma VarInt_write_read: "n < 2 ^ 32 \<Longrightarrow> ReadVarInt (WriteVarInt n @ rest) = Some (word_of_nat n, rest)"
  by (simp add: ReadVarInt_def WriteVarInt_def read_varint_digits)

lemma length_WriteVarInt: "length (WriteVarInt n) = GetSizeOfVarInt n"
proof -
  have "length (varint_digits n later) = GetSizeOfVarInt n" for later
  proof (induction n arbitrary: later rule: less_induct)
    case (less n)
    then show ?case by (cases "n \<le> 0x7f") (simp_all add: varint_cases GetSizeOfVarInt.simps [of n])
  qed
  then show ?thesis by (simp add: WriteVarInt_def)
qed

text \<open>C36: Sizes and variable-length integers are read back as they were written, whatever follows, in the
  number of bytes announced. For sizes this is the only encoding that is accepted: what
  \<open>ReadCompactSize\<close> reads is what \<open>WriteCompactSize\<close> writes.\<close>

theorem serialized_integers_roundtrip:
  "(\<forall>n \<le> MAX_SIZE. ReadCompactSize (WriteCompactSize n @ rest) = Some (n, rest)
      \<and> length (WriteCompactSize n) = GetSizeOfCompactSize n)
   \<and> (\<forall>is n. ReadCompactSize is = Some (n, rest) \<longrightarrow> is = WriteCompactSize n @ rest \<and> n \<le> MAX_SIZE)
   \<and> (\<forall>n < 2 ^ 32. ReadVarInt (WriteVarInt n @ rest) = Some (word_of_nat n, rest)
      \<and> length (WriteVarInt n) = GetSizeOfVarInt n)"
  using CompactSize_write_read [of _ rest] CompactSize_canonical [of _ _ rest] VarInt_write_read [of _ rest]
    length_WriteVarInt length_WriteCompactSize by blast

theorem serialized_integers_roundtrip_witness:
  "ReadCompactSize (WriteCompactSize 65535 @ [7]) = Some (65535, [7])
   \<and> ReadVarInt (WriteVarInt 65535 @ [7]) = Some (65535, [7])"
  using serialized_integers_roundtrip [of "[7]"] by (auto simp: MAX_SIZE_def)

text \<open>The comment above \<open>GetSizeOfVarInt\<close> lists the encoding of 65535 with a wrong second digit.\<close>

lemma varint_65535: "WriteVarInt 65535 = [0x82, 0xfe, 0x7f]" "[0x82, 0xfe, 0x7f] \<noteq> [0x82, 0xfd, 0x7f :: byte]"
  by (simp_all add: WriteVarInt_def varint_digits.simps)

end
