(* ===== verification/Script_Compress.thy ===== *)
theory Script_Compress
  imports Script Serialize
begin

text \<open>
  The compact form in which scripts are stored (\<open>CScriptCompressor\<close>, src/src/script.h and script.cpp): the
  three common forms of an output script take 21 or 33 bytes, every other script its length and
  its bytes. Whether a public key is a point of the curve, and its decompression, are OpenSSL's:
  the parameters \<open>IsFullyValid\<close> and \<open>DecompressKey\<close>.
\<close>

abbreviation nSpecialScripts :: nat where "nSpecialScripts \<equiv> 6"

definition IsToKeyID :: "valtype \<Rightarrow> valtype option" where
  "IsToKeyID script = (if length script = 25 \<and> unat (script ! 0) = OP_DUP \<and> unat (script ! 1) = OP_HASH160
       \<and> script ! 2 = 20 \<and> unat (script ! 23) = OP_EQUALVERIFY \<and> unat (script ! 24) = OP_CHECKSIG
     then Some (take 20 (drop 3 script)) else None)"

definition IsToScriptID :: "valtype \<Rightarrow> valtype option" where
  "IsToScriptID script = (if length script = 23 \<and> unat (script ! 0) = OP_HASH160 \<and> script ! 1 = 20
       \<and> unat (script ! 22) = OP_EQUAL
     then Some (take 20 (drop 2 script)) else None)"

definition IsToPubKey :: "(valtype \<Rightarrow> bool) \<Rightarrow> valtype \<Rightarrow> valtype option" where
  "IsToPubKey IsFullyValid script =
     (if length script = 35 \<and> script ! 0 = 33 \<and> unat (script ! 34) = OP_CHECKSIG
        \<and> (script ! 1 = 0x02 \<or> script ! 1 = 0x03)
      then Some (take 33 (drop 1 script))
      else if length script = 67 \<and> script ! 0 = 65 \<and> unat (script ! 66) = OP_CHECKSIG \<and> script ! 1 = 0x04
      then let pubkey = take 65 (drop 1 script) in if IsFullyValid pubkey then Some pubkey else None
      else None)"

definition Compress :: "(valtype \<Rightarrow> bool) \<Rightarrow> valtype \<Rightarrow> valtype option" where
  "Compress IsFullyValid script = (case IsToKeyID script of
     Some keyID \<Rightarrow> Some (0x00 # keyID)
   | None \<Rightarrow> (case IsToScriptID script of
       Some scriptID \<Rightarrow> Some (0x01 # scriptID)
     | None \<Rightarrow> (case IsToPubKey IsFullyValid script of
         Some pubkey \<Rightarrow>
           if pubkey ! 0 = 0x02 \<or> pubkey ! 0 = 0x03 then Some (pubkey ! 0 # take 32 (drop 1 pubkey))
           else if pubkey ! 0 = 0x04
           then Some ((0x04 OR (pubkey ! 64 AND 0x01)) # take 32 (drop 1 pubkey))
           else None
       | None \<Rightarrow> None)))"

definition GetSpecialSize :: "nat \<Rightarrow> nat" where
  "GetSpecialSize nSize = (if nSize = 0 \<or> nSize = 1 then 20
     else if nSize = 2 \<or> nSize = 3 \<or> nSize = 4 \<or> nSize = 5 then 32 else 0)"

text \<open>\<open>Decompress\<close> returns the script it sets; None stands for \<open>return false\<close>.\<close>

definition Decompress :: "(valtype \<Rightarrow> valtype option) \<Rightarrow> nat \<Rightarrow> valtype \<Rightarrow> valtype option" where
  "Decompress DecompressKey nSize inp =
     (if nSize = 0x00 then Some ([word_of_nat OP_DUP, word_of_nat OP_HASH160, 20] @ take 20 inp
        @ [word_of_nat OP_EQUALVERIFY, word_of_nat OP_CHECKSIG])
      else if nSize = 0x01 then Some ([word_of_nat OP_HASH160, 20] @ take 20 inp @ [word_of_nat OP_EQUAL])
      else if nSize = 0x02 \<or> nSize = 0x03
      then Some ([33, word_of_nat nSize] @ take 32 inp @ [word_of_nat OP_CHECKSIG])
      else if nSize = 0x04 \<or> nSize = 0x05
      then (case DecompressKey (word_of_nat (nSize - 2) # take 32 inp) of
          None \<Rightarrow> None
        | Some pubkey \<Rightarrow> Some ([65] @ take 65 pubkey @ [word_of_nat OP_CHECKSIG]))
      else None)"

definition compressor_Serialize :: "(valtype \<Rightarrow> bool) \<Rightarrow> valtype \<Rightarrow> byte list" where
  "compressor_Serialize IsFullyValid script = (case Compress IsFullyValid script of
     Some compr \<Rightarrow> compr
   | None \<Rightarrow> WriteVarInt ((length script + nSpecialScripts) mod 2 ^ 32) @ script)"

definition compressor_GetSerializeSize :: "(valtype \<Rightarrow> bool) \<Rightarrow> valtype \<Rightarrow> nat" where
  "compressor_GetSerializeSize IsFullyValid script = (case Compress IsFullyValid script of
     Some compr \<Rightarrow> length compr
   | None \<Rightarrow> length script + GetSizeOfVarInt ((length script + nSpecialScripts) mod 2 ^ 32))"

text \<open>The result of \<open>Decompress\<close> is ignored: on failure the script keeps its old value.\<close>

definition compressor_Unserialize ::
  "(valtype \<Rightarrow> valtype option) \<Rightarrow> valtype \<Rightarrow> byte list \<Rightarrow> (valtype \<times> byte list) option" where
  "compressor_Unserialize DecompressKey script is = do {
     (nSize, is) \<leftarrow> ReadVarInt is;
     if unat nSize < nSpecialScripts
     then do {
       (vch, is) \<leftarrow> READDATA (GetSpecialSize (unat nSize)) is;
       Some (case Decompress DecompressKey (unat nSize) vch of None \<Rightarrow> script | Some s \<Rightarrow> s, is) }
     else READDATA (unat nSize - nSpecialScripts) is }"

section \<open>The stored form is read back\<close>

definition curve_roundtrip :: "(valtype \<Rightarrow> bool) \<Rightarrow> (valtype \<Rightarrow> valtype option) \<Rightarrow> bool" where
  "curve_roundtrip IsFullyValid DecompressKey \<longleftrightarrow>
     (\<forall>K. length K = 65 \<and> K ! 0 = 0x04 \<and> IsFullyValid K
        \<longrightarrow> DecompressKey ((0x02 OR (K ! 64 AND 0x01)) # take 32 (drop 1 K)) = Some K)"

lemma byte_eq: "unat b = n \<Longrightarrow> n < 256 \<Longrightarrow> b = word_of_nat n" for b :: byte
  by auto

lemma drop_nth: "i < length s \<Longrightarrow> drop i s = s ! i # drop (Suc i) s"
  by (rule Cons_nth_drop_Suc [symmetric])

lemma drop_take: "drop i s = take k (drop i s) @ drop (i + k) s"
  by (metis add.commute append_take_drop_id drop_drop)

lemma IsToKeyID_form:
  assumes "IsToKeyID s = Some k"
  shows "length k = 20" "s = [word_of_nat OP_DUP, word_of_nat OP_HASH160, 20] @ k
    @ [word_of_nat OP_EQUALVERIFY, word_of_nat OP_CHECKSIG]"
proof -
  have l: "length s = 25" and k: "k = take 20 (drop 3 s)"
    and b: "s ! 0 = word_of_nat OP_DUP" "s ! 1 = word_of_nat OP_HASH160" "s ! 2 = 20"
      "s ! 23 = word_of_nat OP_EQUALVERIFY" "s ! 24 = word_of_nat OP_CHECKSIG"
    using assms by (auto simp: IsToKeyID_def dest!: byte_eq split: if_splits)
  show "length k = 20" using l k by simp
  have "s = s ! 0 # s ! 1 # s ! 2 # drop 3 s" "drop 23 s = [s ! 23, s ! 24]"
    using l drop_nth [of 0 s] drop_nth [of 1 s] drop_nth [of 2 s] drop_nth [of 23 s] drop_nth [of 24 s]
    by (simp_all add: numeral_2_eq_2 numeral_3_eq_3)
  then show "s = [word_of_nat OP_DUP, word_of_nat OP_HASH160, 20] @ k
    @ [word_of_nat OP_EQUALVERIFY, word_of_nat OP_CHECKSIG]"
    using drop_take [of 3 s 20] unfolding b k by simp
qed

lemma IsToScriptID_form:
  assumes "IsToScriptID s = Some k"
  shows "length k = 20" "s = [word_of_nat OP_HASH160, 20] @ k @ [word_of_nat OP_EQUAL]"
proof -
  have l: "length s = 23" and k: "k = take 20 (drop 2 s)"
    and b: "s ! 0 = word_of_nat OP_HASH160" "s ! 1 = 20" "s ! 22 = word_of_nat OP_EQUAL"
    using assms by (auto simp: IsToScriptID_def dest!: byte_eq split: if_splits)
  show "length k = 20" using l k by simp
  have "s = s ! 0 # s ! 1 # drop 2 s" "drop 22 s = [s ! 22]"
    using l drop_nth [of 0 s] drop_nth [of 1 s] drop_nth [of 22 s] by (simp_all add: numeral_2_eq_2)
  then show "s = [word_of_nat OP_HASH160, 20] @ k @ [word_of_nat OP_EQUAL]"
    using drop_take [of 2 s 20] unfolding b k by simp
qed

lemma IsToPubKey_form:
  assumes "IsToPubKey valid s = Some k"
  shows "s = word_of_nat (length k) # k @ [word_of_nat OP_CHECKSIG]"
    and "length k = 33 \<and> (k ! 0 = 2 \<or> k ! 0 = 3) \<or> length k = 65 \<and> k ! 0 = 4 \<and> valid k"
proof -
  have k: "k = take (length k) (drop 1 s)" and l: "length s = length k + 2"
    and b: "s ! 0 = word_of_nat (length k)" "s ! (length k + 1) = word_of_nat OP_CHECKSIG"
    and c: "length k = 33 \<and> (k ! 0 = 2 \<or> k ! 0 = 3) \<or> length k = 65 \<and> k ! 0 = 4 \<and> valid k"
    using assms by (auto simp: IsToPubKey_def Let_def dest!: byte_eq split: if_splits)
  show "length k = 33 \<and> (k ! 0 = 2 \<or> k ! 0 = 3) \<or> length k = 65 \<and> k ! 0 = 4 \<and> valid k" by (rule c)
  have "s = s ! 0 # drop 1 s" "drop (length k + 1) s = [s ! (length k + 1)]"
    using l drop_nth [of 0 s] drop_nth [of "length k + 1" s] by simp_all
  moreover have "drop 1 s = k @ drop (length k + 1) s" using drop_take [of 1 s "length k"] k by simp
  ultimately show "s = word_of_nat (length k) # k @ [word_of_nat OP_CHECKSIG]" unfolding b by metis
qed

lemma ReadVarInt_small: "b < 0x80 \<Longrightarrow> ReadVarInt (b # is) = Some (ucast b, is)"
proof -
  assume "b < 0x80"
  then have "unat b < 128" by (simp add: word_less_nat_alt)
  then show ?thesis using digit_parts [of "unat b"] by (simp add: ReadVarInt_def Let_def)
qed

lemma Compress_Decompress:
  assumes "Compress valid s = Some out" "curve_roundtrip valid dec"
  shows "\<exists>b rest. out = b # rest \<and> b < 6 \<and> length rest = GetSpecialSize (unat b)
    \<and> Decompress dec (unat b) rest = Some s"
proof -
  consider (key) k where "IsToKeyID s = Some k" "out = 0 # k"
    | (script) k where "IsToScriptID s = Some k" "out = 1 # k"
    | (pub) k where "IsToPubKey valid s = Some k" "k ! 0 = 2 \<or> k ! 0 = 3" "out = k ! 0 # take 32 (drop 1 k)"
    | (full) k where "IsToPubKey valid s = Some k" "k ! 0 = 4"
        "out = (0x04 OR (k ! 64 AND 0x01)) # take 32 (drop 1 k)"
    using assms(1) by (auto simp: Compress_def split: option.splits if_splits)
  then show ?thesis
  proof cases
    case key
    then show ?thesis using IsToKeyID_form [OF key(1)]
      by (intro exI [of _ 0] exI [of _ k]) (simp add: GetSpecialSize_def Decompress_def)
  next
    case script
    then show ?thesis using IsToScriptID_form [OF script(1)]
      by (intro exI [of _ 1] exI [of _ k]) (simp add: GetSpecialSize_def Decompress_def)
  next
    case pub
    note f = IsToPubKey_form [OF pub(1)]
    have l: "length k = 33" using f(2) pub(2) by auto
    then have "k = k ! 0 # drop 1 k" "length (drop 1 k) = 32" using drop_nth [of 0 k] by simp_all
    then show ?thesis using pub f(1) l
      by (intro exI [of _ "k ! 0"] exI [of _ "take 32 (drop 1 k)"])
        (auto simp: GetSpecialSize_def Decompress_def)
  next
    case full
    note f = IsToPubKey_form [OF full(1)]
    have l: "length k = 65" "valid k" using f(2) full(2) by auto
    let ?p = "k ! 64 AND 0x01"
    have "?p = 0 \<or> ?p = 1" by (simp add: and_one_eq mod_2_eq_odd)
    then have p: "unat (0x04 OR ?p) \<in> {4, 5}" "word_of_nat (unat (0x04 OR ?p) - 2) = 0x02 OR ?p" "0x04 OR ?p < 6"
      by auto
    have "dec ((0x02 OR ?p) # take 32 (drop 1 k)) = Some k"
      using assms(2) l full(2) by (simp add: curve_roundtrip_def)
    then show ?thesis using full(3) f(1) l p
      by (intro exI [of _ "0x04 OR ?p"] exI [of _ "take 32 (drop 1 k)"])
        (auto simp: GetSpecialSize_def Decompress_def)
  qed
qed

text \<open>C34: A stored script is read back: unserialising what \<open>CScriptCompressor\<close> writes for a script, with
  anything after it, gives the script and leaves the rest, in the number of bytes announced.
  Decompressing a valid public key is assumed to give it back.\<close>

theorem compressed_script_roundtrip:
  assumes "curve_roundtrip IsFullyValid DecompressKey" and "length script + 6 < 2 ^ 32"
  shows "compressor_Unserialize DecompressKey old (compressor_Serialize IsFullyValid script @ rest) = Some (script, rest)
    \<and> length (compressor_Serialize IsFullyValid script) = compressor_GetSerializeSize IsFullyValid script"
proof (cases "Compress IsFullyValid script")
  case None
  have u: "unat (word_of_nat (length script + 6) :: u32) = length script + 6"
    using assms(2) by (simp add: unat_of_nat del: of_nat_add)
  then show ?thesis
    using None assms(2) VarInt_write_read [OF assms(2), of "script @ rest"]
    by (simp add: compressor_Serialize_def compressor_Unserialize_def compressor_GetSerializeSize_def
        length_WriteVarInt)
next
  case (Some out)
  then obtain b vch where o: "out = b # vch" "b < 6" "length vch = GetSpecialSize (unat b)"
    "Decompress DecompressKey (unat b) vch = Some script"
    using Compress_Decompress [OF Some assms(1)] by blast
  have "b < 0x80" using o(2) by (rule less_trans) simp
  moreover have "unat b < 6" using o(2) by (simp add: word_less_nat_alt)
  moreover have "unat (ucast b :: u32) = unat b"
    using less_trans [OF unat_byte_less [of b], of "2 ^ 32"]
    by (simp add: unsigned_ucast_eq take_bit_eq_mod)
  ultimately show ?thesis
    using Some o ReadVarInt_small [of b "vch @ rest"]
    by (simp add: compressor_Serialize_def compressor_Unserialize_def compressor_GetSerializeSize_def)
qed

theorem compressed_script_roundtrip_witness:
  "compressor_Unserialize (\<lambda>_. Some (4 # replicate 64 0)) []
     (compressor_Serialize (\<lambda>K. K = 4 # replicate 64 0) (65 # 4 # replicate 64 0 @ [0xac]) @ [9])
   = Some (65 # 4 # replicate 64 0 @ [0xac], [9])"
  using compressed_script_roundtrip [of "\<lambda>K. K = 4 # replicate 64 0" "\<lambda>_. Some (4 # replicate 64 0)"
      "65 # 4 # replicate 64 0 @ [0xac]" "[]" "[9]"]
  by (simp add: curve_roundtrip_def)

end
