(* ===== verification/Script_Verify.thy ===== *)
theory Script_Verify
  imports Script_Eval List_Prelude
begin

text \<open>
  What the interpreter decides (src/src/script.cpp): the run of a script composed from the runs of its
  parts, and from it what it takes to spend the standard outputs, pay-to-key-hash and
  multi-signature. \<open>VerifyScript\<close> never reads past a stack.
\<close>

section \<open>Runs over parts of a script\<close>

lemma eval_op:
  assumes "OP_PUSHDATA4 < opcode" "opcode < 256"
  shows "eval_loop env flags h (pre @ word_of_nat opcode # post) (length pre) m
    = ebind (exec_instr env flags h (pre @ word_of_nat opcode # post) (length pre + 1) opcode [] m)
        (eval_loop env flags h (pre @ word_of_nat opcode # post) (length pre + 1))"
  using assms by (subst eval_loop.simps) (simp add: GetOp2_op)

lemma eval_push:
  assumes "length (pre @ push_data [] v @ post) \<le> 10000" "length v \<le> MAX_SCRIPT_ELEMENT_SIZE"
    and "False \<notin> set (vfExec m)" "length (stack m) + length (altstack m) < 1000"
  shows "eval_loop env flags h (pre @ push_data [] v @ post) (length pre) m
    = eval_loop env flags h (pre @ push_data [] v @ post) (length (pre @ push_data [] v)) (push v m)"
proof -
  have "GetOp2 (pre @ push_data [] v @ post) (length pre)
      = (True, length pre + length (push_data [] v), push_opcode_of v, v)"
    by (rule GetOp2_push) (use assms(1) in simp)
  then show ?thesis using assms push_opcode_of_le [of v]
    by (subst eval_loop.simps) (simp add: exec_instr_def disabled_opcode_def)
qed

lemma eval_push_all:
  assumes "length (pre @ PushAll vs @ post) \<le> 10000" "\<forall>v \<in> set vs. length v \<le> MAX_SCRIPT_ELEMENT_SIZE"
    and "False \<notin> set (vfExec m)" "length (stack m) + length (altstack m) + length vs \<le> 1000"
  shows "eval_loop env flags h (pre @ PushAll vs @ post) (length pre) m
    = eval_loop env flags h (pre @ PushAll vs @ post) (length (pre @ PushAll vs))
        (m\<lparr>stack := stack m @ vs\<rparr>)"
  using assms
proof (induction vs arbitrary: pre m)
  case (Cons v vs)
  show ?case
    using Cons.IH [of "pre @ push_data [] v" "push v m"] Cons.prems
      eval_push [of pre v "PushAll vs @ post" m env flags h]
    by (simp add: push_def)
qed simp

lemma eval_end: "eval_loop env flags h script (length script) m = Inr m"
  by (simp add: eval_loop.simps)

lemma EvalScript_push_all:
  assumes "length (PushAll vs) \<le> 10000" "\<forall>v \<in> set vs. length v \<le> MAX_SCRIPT_ELEMENT_SIZE"
    and "length st + length vs \<le> 1000"
  shows "EvalScript env flags h st (PushAll vs) = Inr (st @ vs)"
  using assms eval_push_all [of "[]" vs "[]" "\<lparr>stack = st, altstack = [], vfExec = [], nOpCount = 0,
      pbegincodehash = 0\<rparr>" env flags h]
  by (simp add: EvalScript_def eval_end)

lemma exec_instr_op:
  assumes "OP_16 < opcode" "\<not> disabled_opcode opcode" "False \<notin> set (vfExec m)" "nOpCount m < 201"
  shows "exec_instr env flags h script pc opcode [] m =
    ebind (exec_op env flags h script pc True opcode (m\<lparr>nOpCount := nOpCount m + 1\<rparr>))
      (\<lambda>m. if length (stack m) + length (altstack m) > 1000 then Inl Ret_false else Inr m)"
  using assms by (simp add: exec_instr_def)

section \<open>Paying to a key hash\<close>

lemma FindAndDelete_longer: "length s < length b \<Longrightarrow> FindAndDelete s b = (s, 0)"
proof -
  assume l: "length s < length b"
  have e: "erase_at b s pc n = (s, n)" for pc n using l by (subst erase_at.simps) auto
  have "find_and_delete b s pc n = (s, n)" for pc n
  proof (induction "length s - pc" arbitrary: pc n rule: less_induct)
    case less
    then show ?case using GetOp2_measure [of _ _ _ s pc]
      by (subst find_and_delete.simps) (auto simp: e split: prod.split)
  qed
  then show ?thesis by (simp add: FindAndDelete_def)
qed

abbreviation start :: "valtype list \<Rightarrow> mstate" where
  "start st \<equiv> \<lparr>stack = st, altstack = [], vfExec = [], nOpCount = 0, pbegincodehash = 0\<rparr>"

lemma eval_op_at:
  assumes "drop pc script = word_of_nat opcode # rest" "OP_PUSHDATA4 < opcode" "opcode < 256"
  shows "eval_loop env flags h script pc m = ebind (exec_instr env flags h script (pc + 1) opcode [] m)
        (eval_loop env flags h script (pc + 1))"
  using eval_op [OF assms(2,3), of env flags h "take pc script" rest m]
    split_at [of pc script "[word_of_nat opcode]" rest] assms(1) by simp

lemma eval_push_at:
  assumes "drop pc script = push_data [] v @ rest" "length script \<le> 10000" "length v \<le> MAX_SCRIPT_ELEMENT_SIZE"
    and "False \<notin> set (vfExec m)" "length (stack m) + length (altstack m) < 1000"
  shows "eval_loop env flags h script pc m
    = eval_loop env flags h script (pc + length (push_data [] v)) (push v m)"
  using eval_push [of "take pc script" v rest m env flags h] split_at [OF assms(1)] assms(2-) by simp

lemma p2pkh_run:
  assumes "length h = 20"
  shows "EvalScript env flags ht [sig, pub] (GetScriptForKeyID h) =
    (if Hash160 env pub = h \<and> \<not> strict_fail flags sig pub
     then Inr [if sig_ok env flags ht (fst (FindAndDelete (GetScriptForKeyID h) (push_data [] sig))) sig pub
       then vchTrue else vchFalse] else Inl Ret_false)"
proof -
  define s where "s = GetScriptForKeyID h"
  have len: "length s = 25" and d: "drop 0 s = word_of_nat OP_DUP # drop 1 s"
    "drop (Suc 0) s = word_of_nat OP_HASH160 # drop 2 s"
    "drop (Suc (Suc 0)) s = push_data [] h @ drop 23 s"
    "drop 23 s = word_of_nat OP_EQUALVERIFY # drop 24 s" "drop 24 s = word_of_nat OP_CHECKSIG # []"
    using assms by (simp_all add: s_def GetScriptForKeyID_def push_uint160_def push_data_def)
  have l: "length (push_data [] h) = 21" using assms by (simp add: push_data_def)
  note step = eval_op_at [OF d(1)] eval_op_at [OF d(2)] eval_push_at [OF d(3)] eval_op_at [OF d(4)]
    eval_op_at [OF d(5)]
  show ?thesis
    unfolding EvalScript_def s_def [symmetric]
    using len assms
    by (simp add: step l exec_instr_op disabled_opcode_def exec_op_def exec_stack_def dup_from_def require_def
      stacktop_def push_def exec_hash_def pop_take exec_equal_def push_result_def exec_checksig_def eval_end eval_loop.simps [of _ _ _ s 25])
qed

lemma CastToBool_bool [simp]: "CastToBool (if c then vchTrue else vchFalse) = c"
  by simp

text \<open>An output that pays to a key hash is spent by a signature and a public key exactly when the
  key hashes to the one of the output and the signature is well encoded and verifies for the key
  over the output's script.\<close>

lemma p2pkh_decides:
  assumes "length h = 20" and "25 \<le> length sig" "length sig \<le> MAX_SCRIPT_ELEMENT_SIZE"
    and "length pub \<le> MAX_SCRIPT_ELEMENT_SIZE"
  shows "VerifyScript env flags nHashType (PushAll [sig, pub]) (GetScriptForKeyID h)
    = Inr (Hash160 env pub = h \<and> sig_ok env flags nHashType (GetScriptForKeyID h) sig pub)"
proof -
  have len: "length (GetScriptForKeyID h) = 25"
    using assms(1) by (simp add: GetScriptForKeyID_def push_uint160_def)
  have "FindAndDelete (GetScriptForKeyID h) (push_data [] sig) = (GetScriptForKeyID h, 0)"
    using length_push_data(1) [of sig] assms(2) by (intro FindAndDelete_longer) (simp add: len)
  moreover have "EvalScript env flags nHashType [] (PushAll [sig, pub]) = Inr [sig, pub]"
    using EvalScript_push_all [of "[sig, pub]" "[]" env flags nHashType] assms
      length_push_data(2) [of sig] length_push_data(2) [of pub] by simp
  ultimately show ?thesis
    by (auto simp: VerifyScript_def p2pkh_run [OF assms(1)] IsPayToScriptHash_def len sig_ok_def strict_fail_def)
qed

section \<open>Paying to a script hash\<close>

lemma exec_hash160:
  "exec_op env flags ht script pc True OP_HASH160 m = exec_hash env OP_HASH160 m"
  by (simp add: exec_op_def)

lemma p2sh_bytes:
  assumes "IsPayToScriptHash s"
  shows "drop 0 s = word_of_nat OP_HASH160 # drop (Suc 0) s" "length s = 23"
proof -
  from assms have l: "length s = 23" and b: "unat (s ! 0) = OP_HASH160" by (auto simp: IsPayToScriptHash_def)
  then have "s ! 0 = word_of_nat OP_HASH160" by (metis of_nat_unat ucast_id)
  then show "drop 0 s = word_of_nat OP_HASH160 # drop (Suc 0) s"
    using l Cons_nth_drop_Suc [of 0 s] by simp
qed (use assms in \<open>simp add: IsPayToScriptHash_def\<close>)

lemma p2sh_empty: "IsPayToScriptHash s \<Longrightarrow> EvalScript env flags ht [] s = Inl Ret_false"
  using eval_op_at [OF p2sh_bytes(1), of s env flags ht "start []"] p2sh_bytes(2) [of s]
  by (simp add: EvalScript_def exec_instr_op disabled_opcode_def exec_hash160 exec_hash_def require_def)

lemma EvalScript_exceptions:
  "EvalScript env flags ht [] script \<in> range Inr \<union> {Inl Ret_false, Inl (Throws Bignum_overflow)}"
proof -
  have "good (\<lambda>_. True) (EvalScript env flags ht [] script)"
    using EvalScript_good [OF any.script_values_axioms, of "[]" env flags ht script]
    by (cases "EvalScript env flags ht [] script") (auto elim: good.elims)
  then show ?thesis by (cases "(\<lambda>_ :: valtype list. True, EvalScript env flags ht [] script)" rule: good.cases) auto
qed

text \<open>C31: The interpreter always decides. A run of \<open>EvalScript\<close> ends with a stack, with false, or with the
  overflow of a number, never with an access past a stack; and \<open>VerifyScript\<close> returns on every pair of
  scripts, also in its pay-to-script-hash branch, which takes the top of a copied stack unchecked.\<close>

theorem VerifyScript_decides:
  "EvalScript env flags nHashType [] scriptSig \<in> range Inr \<union> {Inl Ret_false, Inl (Throws Bignum_overflow)}
   \<and> (\<exists>result. VerifyScript env flags nHashType scriptSig scriptPubKey = Inr result)"
proof (intro conjI EvalScript_exceptions, cases "EvalScript env flags nHashType [] scriptSig")
  case (Inr st)
  show "\<exists>result. VerifyScript env flags nHashType scriptSig scriptPubKey = Inr result"
  proof (cases "st = []")
    case True
    then show ?thesis using Inr p2sh_empty [of scriptPubKey env flags nHashType]
      by (cases "IsPayToScriptHash scriptPubKey") (auto simp: VerifyScript_def split: sum.split)
  next
    case False
    then have "stacktop st 1 = Inr (last st)" "popstack st = Inr (butlast st)"
      by (simp_all add: stacktop_def popstack_def last_conv_nth Suc_le_eq)
    then show ?thesis using Inr by (auto simp: VerifyScript_def split: sum.split)
  qed
qed (simp add: VerifyScript_def, blast)

section \<open>Multi-signature outputs\<close>

text \<open>Signatures match keys when, in the order of the keys, each verifies for a key of its own.\<close>

definition matches :: "('a \<Rightarrow> 'b \<Rightarrow> bool) \<Rightarrow> 'a list \<Rightarrow> 'b list \<Rightarrow> bool" where
  "matches P sigs keys \<longleftrightarrow> (\<exists>ks. subseq ks keys \<and> list_all2 P sigs ks)"

lemma matches_Nil [simp]: "matches P [] keys"
  unfolding matches_def by (rule exI [of _ "[]"]) simp

lemma matches_length: "matches P sigs keys \<Longrightarrow> length sigs \<le> length keys"
  by (auto simp: matches_def dest: list_emb_length) (auto dest!: list_all2_lengthD list_emb_length)

lemma matches_Cons:
  "matches P (s # ss) (k # ks) = matches P (if P s k then ss else s # ss) ks"
proof
  assume "matches P (s # ss) (k # ks)"
  then obtain k' ks' where m: "subseq (k' # ks') (k # ks)" "P s k'" "list_all2 P ss ks'"
    by (auto simp: matches_def list_all2_Cons1)
  have "subseq ks' ks" using m(1) by (auto simp: subseq_Cons2_iff split: if_splits dest: subseq_Cons')
  then show "matches P (if P s k then ss else s # ss) ks"
    using m by (auto simp: matches_def list_all2_Cons1 subseq_Cons2_iff split: if_splits)
next
  assume "matches P (if P s k then ss else s # ss) ks"
  then show "matches P (s # ss) (k # ks)"
    unfolding matches_def by (auto simp: list_all2_Cons1 split: if_splits intro: exI [of _ "k # _"])
qed

lemma matches_rev: "matches P (rev sigs) (rev keys) = matches P sigs keys"
proof -
  have "matches P xs ys \<Longrightarrow> matches P (rev xs) (rev ys)" for xs :: "'a list" and ys :: "'b list"
    unfolding matches_def by (metis list_all2_rev1 subseq_rev rev_rev_ident)
  from this [of sigs keys] this [of "rev sigs" "rev keys"] show ?thesis by auto
qed

lemma multisig_list_matches:
  assumes "\<forall>s \<in> set sigs. \<forall>k \<in> set keys. \<not> strict_fail flags s k"
  shows "multisig_list env flags h code sigs keys = Inr (matches (sig_ok env flags h code) sigs keys)"
  using assms
proof (induction env flags h code sigs keys rule: multisig_list.induct)
  case (2 env flags h code s ss)
  then show ?case using matches_length [of _ "s # ss" "[]"] by auto
next
  case (3 env flags h code s ss k ks)
  then show ?case
    using matches_length [of "sig_ok env flags h code" "if sig_ok env flags h code s k then ss else s # ss" ks]
    by (auto simp: Let_def matches_Cons)
qed simp

lemma tops_append: "tops (a @ xs @ b) (Suc (length b)) (length xs) = rev xs"
  by (rule nth_equalityI) (auto simp: tops_def nth_append rev_nth)

lemma drop_signatures_foldl:
  "1 \<le> i \<Longrightarrow> i + n \<le> Suc (length st) \<Longrightarrow> drop_signatures st i n code
    = Inr (foldl (\<lambda>c s. fst (FindAndDelete c (push_data [] s))) code (tops st i n))"
  by (induction n arbitrary: i code) (auto simp: stacktop_def)

context openssl_bn
begin

lemma small_number:
  assumes "0 \<le> k" "k \<le> 16"
  shows "CastToBigNum lib (getvch lib (CBigNum_int lib k)) 4 = Inr k" "getint lib k = k"
proof -
  have "\<bar>k\<bar> < 256 ^ 1" using assms by simp
  then have "length (getvch lib k) \<le> 4" "setvch lib (getvch lib k) = k"
    using length_getvch [of k 1] setvch_getvch [of k 1] by simp_all
  then show "CastToBigNum lib (getvch lib (CBigNum_int lib k)) 4 = Inr k"
    using assms by (simp add: CastToBigNum_def CBigNum_int_def)
  show "getint lib k = k" using assms by (simp add: getint_def get_word Let_def)
qed

end

lemma exec_checkmultisig_run:
  assumes "openssl_bn (bn env)" "1 \<le> length sigs" "length sigs \<le> length keys" "length keys \<le> 16"
    and "\<forall>s \<in> set sigs. \<forall>k \<in> set keys. \<not> strict_fail flags s k"
    and st: "stack m = [[]] @ sigs @ [getvch (bn env) (CBigNum_int (bn env) (int (length sigs)))]
      @ keys @ [getvch (bn env) (CBigNum_int (bn env) (int (length keys)))]"
    and "nOpCount m \<le> 100" "pbegincodehash m = 0"
  shows "exec_checkmultisig env flags ht script OP_CHECKMULTISIG m =
    Inr (m\<lparr>nOpCount := nOpCount m + int (length keys),
      stack := [if matches (sig_ok env flags ht
          (foldl (\<lambda>c s. fst (FindAndDelete c (push_data [] s))) script (rev sigs))) sigs keys
        then vchTrue else vchFalse]\<rparr>)"
proof -
  let ?vm = "getvch (bn env) (CBigNum_int (bn env) (int (length sigs)))"
    and ?vn = "getvch (bn env) (CBigNum_int (bn env) (int (length keys)))"
  let ?st = "stack m" and ?n = "length keys" and ?m = "length sigs"
  have num: "CastToBigNum (bn env) ?vm 4 = Inr (int ?m)" "CastToBigNum (bn env) ?vn 4 = Inr (int ?n)"
    "getint (bn env) (int ?m) = int ?m" "getint (bn env) (int ?n) = int ?n"
    using openssl_bn.small_number [OF assms(1)] assms(2-4) by simp_all
  have len: "length ?st = ?n + ?m + 3" using st by simp
  have top1: "stacktop ?st (Suc 0) = Inr ?vn" and top2: "stacktop ?st (Suc (Suc ?n)) = Inr ?vm"
    by (simp_all add: stacktop_def len) (simp_all add: st nth_append)
  have top3: "stacktop [[] :: valtype] (Suc 0) = Inr []" by (simp add: stacktop_def)
  have tops: "tops ?st (Suc (Suc (Suc ?n))) ?m = rev sigs" "tops ?st 2 ?n = rev keys"
    using tops_append [of "[[]]" sigs "[?vm] @ keys @ [?vn]"]
      tops_append [of "[[]] @ sigs @ [?vm]" keys "[?vn]"] st
    by (simp_all add: numeral_2_eq_2)
  have "\<forall>s \<in> set (rev sigs). \<forall>k \<in> set (rev keys). \<not> strict_fail flags s k" using assms(5) by simp
  note ms = multisig_list_matches [OF this, of env ht]
  have take1: "take (Suc 0) ?st = [[]]" using st by simp
  show ?thesis
    unfolding exec_checkmultisig_def
    using assms(2-4,7,8)
    by (simp add: require_def len top1 top2 top3 num Let_def drop_signatures_foldl multisig_loop_list tops ms
        matches_rev pop_take take1 push_result_def push_def)
qed

lemma exec_instr_small:
  assumes "1 \<le> k" "k \<le> 16" "False \<notin> set (vfExec m)" "length (stack m) + length (altstack m) < 1000"
  shows "exec_instr env flags h script pc (80 + k) [] m
    = Inr (push (getvch (bn env) (CBigNum_int (bn env) (int k))) m)"
  using assms by (simp add: exec_instr_def disabled_opcode_def exec_op_def exec_push_value_def)

text \<open>The run of the script of an \<open>m\<close>-of-\<open>n\<close> output on the signatures.\<close>

lemma multisig_run:
  assumes "openssl_bn (bn env)" "1 \<le> length sigs" "length sigs \<le> length keys" "length keys \<le> 16"
    and "\<forall>v \<in> set keys. length v \<le> MAX_SCRIPT_ELEMENT_SIZE"
    and "\<forall>s \<in> set sigs. \<forall>k \<in> set keys. \<not> strict_fail flags s k"
    and len: "length script \<le> 10000"
    and script: "script = word_of_nat (80 + length sigs) # PushAll keys
      @ [word_of_nat (80 + length keys), word_of_nat OP_CHECKMULTISIG]"
  shows "EvalScript env flags nHashType ([] # sigs) script
    = Inr [if matches (sig_ok env flags nHashType
      (foldl (\<lambda>c s. fst (FindAndDelete c (push_data [] s))) script (rev sigs))) sigs keys
      then vchTrue else vchFalse]"
proof -
  let ?m = "length sigs" and ?n = "length keys" and ?P = "length (PushAll keys)"
  have d: "drop 0 script = word_of_nat (80 + ?m) # drop 1 script"
    "drop (Suc ?P) script = word_of_nat (80 + ?n) # [word_of_nat OP_CHECKMULTISIG]"
    "drop (Suc (Suc ?P)) script = word_of_nat OP_CHECKMULTISIG # []"
    by (simp_all add: script)
  have all: "eval_loop env flags nHashType script (Suc 0) ms = eval_loop env flags nHashType script (Suc ?P)
      (ms\<lparr>stack := stack ms @ keys\<rparr>)" if "vfExec ms = []" "length (stack ms) + length (altstack ms) \<le> 900" for ms
    using eval_push_all [of "[word_of_nat (80 + ?m)]" keys
        "[word_of_nat (80 + ?n), word_of_nat OP_CHECKMULTISIG]" ms env flags nHashType] len assms(4,5) that
    by (simp add: script)
  let ?v = "\<lambda>k. getvch (bn env) (CBigNum_int (bn env) (int k))"
  let ?r = "[if matches (sig_ok env flags nHashType
      (foldl (\<lambda>c s. fst (FindAndDelete c (push_data [] s))) script (rev sigs))) sigs keys
      then vchTrue else vchFalse]"
  let ?m3 = "start ([[]] @ sigs @ [?v ?m] @ keys @ [?v ?n])"
  have "eval_loop env flags nHashType script 0 (start ([] # sigs))
      = eval_loop env flags nHashType script (Suc ?P) (start ([[]] @ sigs @ [?v ?m] @ keys))"
    using eval_op_at [OF d(1), of env flags nHashType] assms(2-4) all
    by (simp add: exec_instr_small push_def)
  also have "\<dots> = eval_loop env flags nHashType script (Suc (Suc ?P)) ?m3"
    using eval_op_at [OF d(2), of env flags nHashType] assms(2-4)
    by (simp add: exec_instr_small push_def)
  also have "\<dots> = Inr (?m3\<lparr>nOpCount := 1 + int ?n, stack := ?r\<rparr>)"
    using eval_op_at [OF d(3), of env flags nHashType] eval_end [of env flags nHashType script]
      exec_checkmultisig_run [OF assms(1-4,6), of "?m3\<lparr>nOpCount := 1\<rparr>" nHashType script] assms(2-4)
    by (simp add: exec_instr_op disabled_opcode_def exec_op_def script)
  finally show ?thesis using len by (simp add: EvalScript_def)
qed



section \<open>Signature encodings\<close>

text \<open>The grammar the comment in \<open>IsDERSignature\<close> gives.\<close>

definition der_int :: "byte list \<Rightarrow> bool" where
  "der_int n \<longleftrightarrow> n \<noteq> [] \<and> \<not> bit (n ! 0) 7 \<and> (length n > 1 \<and> n ! 0 = 0 \<longrightarrow> bit (n ! 1) 7)"

definition der_signature :: "byte list \<Rightarrow> byte list \<Rightarrow> byte \<Rightarrow> valtype" where
  "der_signature R S hashtype = [0x30, word_of_nat (4 + length R + length S), 0x02, word_of_nat (length R)] @ R
     @ [0x02, word_of_nat (length S)] @ S @ [hashtype]"

lemma IsDERSignature_der:
  assumes "der_int R" "der_int S" "length R + length S \<le> 66"
  shows "IsDERSignature (der_signature R S hashtype) True"
proof -
  let ?s = "der_signature R S hashtype"
  let ?a = "[0x30, word_of_nat (4 + length R + length S), 0x02, word_of_nat (length R)] :: byte list"
  let ?b = "[0x02, word_of_nat (length S)] :: byte list"
  have split: "?s = ?a @ R @ ?b @ S @ [hashtype]" by (simp add: der_signature_def)
  have len: "length R < 256" "length S < 256" "4 + length R + length S < 256" using assms(3) by simp_all
  have n: "length ?s = length R + length S + 7" by (simp add: der_signature_def)
  have ne: "R \<noteq> []" "S \<noteq> []" using assms by (auto simp: der_int_def)
  have R: "1 \<le> length R" and S: "1 \<le> length S" using assms by (auto simp: der_int_def Suc_le_eq)
  have b: "?s ! 0 = 0x30" "unat (?s ! Suc 0) = 4 + length R + length S" "?s ! 2 = 0x02" "unat (?s ! 3) = length R"
    "?s ! 4 = R ! 0" "length R > 1 \<Longrightarrow> ?s ! 5 = R ! 1" "?s ! (4 + length R) = 0x02"
    "unat (?s ! (5 + length R)) = length S" "?s ! (6 + length R) = S ! 0"
    "length S > 1 \<Longrightarrow> ?s ! (7 + length R) = S ! 1"
    using len ne unat_byte [of "4 + length R + length S"] nth_append_length_plus [of "?a" "R @ ?b @ S @ [hashtype]"]
      nth_append_length_plus [of "?a @ R" "?b @ S @ [hashtype]"]
      nth_append_length_plus [of "?a @ R @ ?b" "S @ [hashtype]"] R S
    by (simp_all add: split nth_append)
  have c: "\<not> bit (R ! 0) 7" "length R > 1 \<and> R ! 0 = 0 \<longrightarrow> bit (R ! 1) 7"
    "\<not> bit (S ! 0) 7" "length S > 1 \<and> S ! 0 = 0 \<longrightarrow> bit (S ! 1) 7"
    using assms by (simp_all add: der_int_def)
  have pR: "\<not> (length R > 1 \<and> ?s ! 4 = 0 \<and> ?s ! 5 AND 0x80 = 0)"
    and pS: "\<not> (length S > 1 \<and> ?s ! (6 + length R) = 0 \<and> ?s ! (7 + length R) AND 0x80 = 0)"
    using b c bit_byte_7 by auto
  have lR: "length R \<noteq> 0" and lS: "length S \<noteq> 0" using ne by simp_all
  have "\<not> length ?s < 9" "\<not> length ?s > 73" "unat (?s ! 1) = length ?s - 3" "\<not> 5 + length R \<ge> length ?s"
    "length R + length S + 7 = length ?s" "\<not> (?s ! 4 AND 0x80 \<noteq> 0)" "\<not> (?s ! (6 + length R) AND 0x80 \<noteq> 0)"
    using n b R S assms(3) c bit_byte_7 by auto
  then show ?thesis
    unfolding IsDERSignature_def Let_def b(4) b(8)
    using pR pS b(1,3,7) lR lS by (simp only: if_True if_False simp_thms)
qed

lemma take_drop_2: "k + 2 \<le> length s \<Longrightarrow> take 2 (drop k s) = [s ! k, s ! Suc k]"
  by (simp add: numeral_2_eq_2 take_Suc_conv_app_nth)

lemma drop_split: "drop j s = take k (drop j s) @ drop (j + k) s"
  by (metis add.commute append_take_drop_id drop_drop)

lemma IsDERSignature_form:
  assumes "IsDERSignature s True"
  obtains R S hashtype where "s = der_signature R S hashtype" "der_int R" "der_int S" "length R + length S \<le> 66"
    "S = take (unat (s ! (5 + unat (s ! 3)))) (drop (6 + unat (s ! 3)) s)"
proof -
  define nR nS where "nR = unat (s ! 3)" and "nS = unat (s ! (5 + nR))"
  have g: "length s = nR + nS + 7" "length s \<le> 73" "s ! 0 = 0x30" "unat (s ! 1) = length s - 3" "s ! 2 = 0x02"
    "nR \<noteq> 0" "\<not> bit (s ! 4) 7" "nR > 1 \<and> s ! 4 = 0 \<longrightarrow> bit (s ! 5) 7" "s ! (4 + nR) = 0x02" "nS \<noteq> 0"
    "\<not> bit (s ! (6 + nR)) 7" "nS > 1 \<and> s ! (6 + nR) = 0 \<longrightarrow> bit (s ! (7 + nR)) 7"
    using assms by (auto simp: IsDERSignature_def Let_def nR_def nS_def bit_byte_7 split: if_splits)
  let ?R = "take nR (drop 4 s)" and ?S = "take nS (drop (6 + nR) s)"
  have "take 2 s = [s ! 0, s ! 1]" "take 2 (drop 2 s) = [s ! 2, s ! 3]"
    "take 2 (drop (4 + nR) s) = [s ! (4 + nR), s ! (5 + nR)]" "drop (6 + nR + nS) s = [s ! (6 + nR + nS)]"
    using g(1) take_drop_2 [of 0 s] take_drop_2 [of 2 s] take_drop_2 [of "4 + nR" s]
      Cons_nth_drop_Suc [of "6 + nR + nS" s] by (simp_all add: numeral_eq_Suc)
  moreover have "s = take 2 s @ take 2 (drop 2 s) @ ?R @ take 2 (drop (4 + nR) s) @ ?S @ drop (6 + nR + nS) s"
    using drop_split [of 0 s 2] drop_split [of 2 s 2] drop_split [of 4 s nR] drop_split [of "4 + nR" s 2]
      drop_split [of "6 + nR" s nS] by simp
  moreover have "s ! 1 = word_of_nat (4 + nR + nS)" "s ! 3 = word_of_nat nR" "s ! (5 + nR) = word_of_nat nS"
    using arg_cong [OF g(4), of "word_of_nat :: nat \<Rightarrow> byte"] g(1) by (simp_all add: nR_def nS_def algebra_simps)
  ultimately have "s = der_signature ?R ?S (s ! (6 + nR + nS))"
    using g by (simp add: der_signature_def)
  moreover have "der_int ?R" "der_int ?S" using g by (auto simp: der_int_def)
  ultimately show thesis using that g nR_def nS_def by auto
qed

lemma be_nat_Cons_less: "a < (b :: byte) \<Longrightarrow> length xs = length ys \<Longrightarrow> be_nat (a # xs) < be_nat (b # ys)"
proof -
  assume "a < b" and l: "length xs = length ys"
  then have "unat a + 1 \<le> unat b" by (simp add: word_less_nat_alt)
  then have "(unat a + 1) * 256 ^ length ys \<le> unat b * 256 ^ length ys" by (rule mult_le_mono1)
  then show ?thesis using be_nat_less [of xs] l by simp
qed

lemma compare_same_sgn:
  "length c1 = length c2 \<Longrightarrow> compare_same c1 c2 = sgn (int (be_nat c1) - int (be_nat c2))"
proof (induction c1 c2 rule: list_induct2)
  case (Cons a as b bs)
  consider "a < b" | "b < a" | "a = b" by force
  then show ?case
  proof cases
    case 1
    then show ?thesis using be_nat_Cons_less [OF 1, of as bs] Cons.hyps
      by (simp add: not_less_iff_gr_or_eq sgn_if del: be_nat_simps)
  next
    case 2
    then show ?thesis using be_nat_Cons_less [OF 2, of bs as] Cons.hyps
      by (simp add: sgn_if del: be_nat_simps)
  qed (use Cons in simp)
qed simp

lemma be_nat_ge: "c \<noteq> [] \<Longrightarrow> hd c \<noteq> 0 \<Longrightarrow> length d < length c \<Longrightarrow> be_nat d < be_nat c"
proof -
  assume c: "c \<noteq> []" "hd c \<noteq> 0" and l: "length d < length c"
  then obtain b bs where b: "c = b # bs" "b \<noteq> 0" by (cases c) auto
  have "(256 :: nat) ^ length d \<le> 256 ^ length bs" using l b by (intro power_increasing) auto
  also have "\<dots> \<le> unat b * 256 ^ length bs" using b by (simp add: Suc_le_eq unat_gt_0)
  finally show ?thesis using be_nat_less [of d] b by simp
qed

lemma CompareBigEndian_sgn: "CompareBigEndian c1 c2 = sgn (int (be_nat c1) - int (be_nat c2))"
proof (induction c1 c2 rule: CompareBigEndian.induct)
  case (1 c1 c2)
  have tl: "be_nat (tl c) = be_nat c" if "c \<noteq> []" "hd c = 0" for c using that by (cases c) auto
  consider "length c1 > length c2" | "length c2 > length c1" | "length c1 = length c2" by linarith
  then show ?case
  proof cases
    case 1
    then have "c1 \<noteq> []" by auto
    with 1 show ?thesis using "1.IH"(1) tl [of c1] be_nat_ge [of c1 c2]
      by (subst CompareBigEndian.simps) (auto simp: sgn_if)
  next
    case 2
    then have "c2 \<noteq> []" by auto
    with 2 show ?thesis using "1.IH"(2) tl [of c2] be_nat_ge [of c2 c1]
      by (subst CompareBigEndian.simps) (auto simp: sgn_if)
  qed (subst CompareBigEndian.simps, simp add: compare_same_sgn)
qed

lemma der_signature_parts:
  assumes "length R + length S \<le> 66"
  shows "unat (der_signature R S hashtype ! 3) = length R"
    "unat (der_signature R S hashtype ! (5 + length R)) = length S"
    "drop (6 + length R) (der_signature R S hashtype) = S @ [hashtype]"
proof -
  let ?a = "[0x30, word_of_nat (4 + length R + length S), 0x02, word_of_nat (length R)] @ R"
    and ?b = "[0x02, word_of_nat (length S)] :: valtype"
  have s: "der_signature R S hashtype = ?a @ ?b @ S @ [hashtype]" by (simp add: der_signature_def)
  show "unat (der_signature R S hashtype ! 3) = length R"
    "unat (der_signature R S hashtype ! (5 + length R)) = length S"
    using assms nth_append_length_plus [of ?a "?b @ S @ [hashtype]" 1] by (simp_all add: s)
  have d: "n = length xs \<Longrightarrow> drop n (xs @ ys) = ys" for n and xs ys :: valtype by simp
  show "drop (6 + length R) (der_signature R S hashtype) = S @ [hashtype]"
    using d [of "6 + length R" "?a @ ?b" "S @ [hashtype]"] unfolding s append_assoc by simp
qed

text \<open>Half of the order of the curve's generator.\<close>

definition secp256k1_order :: nat where
  "secp256k1_order = 0xFFFFFFFFFFFFFFFFFFFFFFFFFFFFFFFEBAAEDCE6AF48A03BBFD25E8CD0364141"

lemma half_order: "be_nat vchMaxModHalfOrder = secp256k1_order div 2"
  by (simp add: vchMaxModHalfOrder_def secp256k1_order_def)


end
