(* ===== verification/Colors.thy ===== *)
theory Colors
  imports Script_Eval
begin

text \<open>
  The currencies of the client (src/src/colors.cpp, colors.h): the constant tables indexed by a
  currency number (a color), the forks, and the checks on colors and amounts. What can go wrong in
  the code that uses them is a value: a rejection with its misbehaviour score, an uncaught
  exception, or undefined behaviour (an access out of a table's range, signed overflow).
\<close>

datatype fault = Reject nat | Runtime_error | Undefined

type_synonym 'a checked = "fault + 'a"

text \<open>Access of an array, and addition of two \<open>int64_t\<close>.\<close>

definition at :: "'a list \<Rightarrow> int \<Rightarrow> 'a checked" where
  "at t i = (if 0 \<le> i \<and> i < int (length t) then Inr (t ! nat i) else Inl Undefined)"

definition int64 :: "int \<Rightarrow> int checked" where
  "int64 n = (if - (2 ^ 63) \<le> n \<and> n < 2 ^ 63 then Inr n else Inl Undefined)"

section \<open>Tables\<close>

definition N_COLORS :: int where
  "N_COLORS = 58"

definition BASE_COIN :: int where
  "BASE_COIN = 100000000"

definition BASE_CENT :: int where
  "BASE_CENT = 1000000"

abbreviation BREAKOUT_COLOR_NONE :: int where "BREAKOUT_COLOR_NONE \<equiv> 0"
abbreviation BREAKOUT_COLOR_BRX :: int where "BREAKOUT_COLOR_BRX \<equiv> 1"
abbreviation BREAKOUT_COLOR_BRK :: int where "BREAKOUT_COLOR_BRK \<equiv> 2"
abbreviation BREAKOUT_COLOR_BAM :: int where "BREAKOUT_COLOR_BAM \<equiv> 3"
abbreviation JOKER :: int where "JOKER \<equiv> 4"
abbreviation KING_OF_HEARTS :: int where "KING_OF_HEARTS \<equiv> 56"
abbreviation BREAKOUT_COLOR_SIS :: int where "BREAKOUT_COLOR_SIS \<equiv> 57"

definition COIN :: "int list" where
  "COIN =
    [0, BASE_COIN, BASE_COIN, 1, 1, 1, 1, 1, 1, 1, 1, 1, 1, 1, 1, 1, 1, 1, 1, 1, 1, 1, 1, 1,
     1, 1, 1, 1, 1, 1, 1, 1, 1, 1, 1, 1, 1, 1, 1, 1, 1, 1, 1, 1, 1, 1, 1, 1, 1, 1, 1, 1, 1,
     1, 1, 1, 1, BASE_COIN]"

definition CENT :: "int list" where
  "CENT =
    [0, BASE_CENT, BASE_CENT, 1, 1, 1, 1, 1, 1, 1, 1, 1, 1, 1, 1, 1, 1, 1, 1, 1, 1, 1, 1, 1,
     1, 1, 1, 1, 1, 1, 1, 1, 1, 1, 1, 1, 1, 1, 1, 1, 1, 1, 1, 1, 1, 1, 1, 1, 1, 1, 1, 1, 1,
     1, 1, 1, 1, BASE_CENT]"

definition MAX_MONEY :: "int list" where
  "MAX_MONEY =
    [0, BASE_COIN * 12500000, BASE_COIN * 1000000000, BASE_COIN * 100, 1, 1, 1, 1, 1, 1, 1,
     1, 1, 1, 1, 1, 1, 1, 1, 1, 1, 1, 1, 1, 1, 1, 1, 1, 1, 1, 1, 1, 1, 1, 1, 1, 1, 1, 1, 1,
     1, 1, 1, 1, 1, 1, 1, 1, 1, 1, 1, 1, 1, 1, 1, 1, 1, BASE_COIN * 21000000]"

definition FEE_COLOR :: "int list" where
  "FEE_COLOR =
    [BREAKOUT_COLOR_NONE, BREAKOUT_COLOR_BRX, BREAKOUT_COLOR_BRK, BREAKOUT_COLOR_BAM,
     BREAKOUT_COLOR_SIS, BREAKOUT_COLOR_SIS, BREAKOUT_COLOR_SIS, BREAKOUT_COLOR_SIS,
     BREAKOUT_COLOR_SIS, BREAKOUT_COLOR_SIS, BREAKOUT_COLOR_SIS, BREAKOUT_COLOR_SIS,
     BREAKOUT_COLOR_SIS, BREAKOUT_COLOR_SIS, BREAKOUT_COLOR_SIS, BREAKOUT_COLOR_SIS,
     BREAKOUT_COLOR_SIS, BREAKOUT_COLOR_SIS, BREAKOUT_COLOR_SIS, BREAKOUT_COLOR_SIS,
     BREAKOUT_COLOR_SIS, BREAKOUT_COLOR_SIS, BREAKOUT_COLOR_SIS, BREAKOUT_COLOR_SIS,
     BREAKOUT_COLOR_SIS, BREAKOUT_COLOR_SIS, BREAKOUT_COLOR_SIS, BREAKOUT_COLOR_SIS,
     BREAKOUT_COLOR_SIS, BREAKOUT_COLOR_SIS, BREAKOUT_COLOR_SIS, BREAKOUT_COLOR_SIS,
     BREAKOUT_COLOR_SIS, BREAKOUT_COLOR_SIS, BREAKOUT_COLOR_SIS, BREAKOUT_COLOR_SIS,
     BREAKOUT_COLOR_SIS, BREAKOUT_COLOR_SIS, BREAKOUT_COLOR_SIS, BREAKOUT_COLOR_SIS,
     BREAKOUT_COLOR_SIS, BREAKOUT_COLOR_SIS, BREAKOUT_COLOR_SIS, BREAKOUT_COLOR_SIS,
     BREAKOUT_COLOR_SIS, BREAKOUT_COLOR_SIS, BREAKOUT_COLOR_SIS, BREAKOUT_COLOR_SIS,
     BREAKOUT_COLOR_SIS, BREAKOUT_COLOR_SIS, BREAKOUT_COLOR_SIS, BREAKOUT_COLOR_SIS,
     BREAKOUT_COLOR_SIS, BREAKOUT_COLOR_SIS, BREAKOUT_COLOR_SIS, BREAKOUT_COLOR_SIS,
     BREAKOUT_COLOR_SIS, BREAKOUT_COLOR_SIS]"

definition MIN_TX_FEE :: "int list" where
  "MIN_TX_FEE =
    [0, BASE_CENT * 15 div 10, BASE_CENT, 1, BASE_CENT, BASE_CENT, BASE_CENT, BASE_CENT,
     BASE_CENT, BASE_CENT, BASE_CENT, BASE_CENT, BASE_CENT, BASE_CENT, BASE_CENT, BASE_CENT,
     BASE_CENT, BASE_CENT, BASE_CENT, BASE_CENT, BASE_CENT, BASE_CENT, BASE_CENT, BASE_CENT,
     BASE_CENT, BASE_CENT, BASE_CENT, BASE_CENT, BASE_CENT, BASE_CENT, BASE_CENT, BASE_CENT,
     BASE_CENT, BASE_CENT, BASE_CENT, BASE_CENT, BASE_CENT, BASE_CENT, BASE_CENT, BASE_CENT,
     BASE_CENT, BASE_CENT, BASE_CENT, BASE_CENT, BASE_CENT, BASE_CENT, BASE_CENT, BASE_CENT,
     BASE_CENT, BASE_CENT, BASE_CENT, BASE_CENT, BASE_CENT, BASE_CENT, BASE_CENT, BASE_CENT,
     BASE_CENT, BASE_CENT]"

definition MIN_RELAY_TX_FEE :: "int list" where
  "MIN_RELAY_TX_FEE =
    [0, BASE_CENT * 15 div 10, BASE_CENT, 1, BASE_CENT, BASE_CENT, BASE_CENT, BASE_CENT,
     BASE_CENT, BASE_CENT, BASE_CENT, BASE_CENT, BASE_CENT, BASE_CENT, BASE_CENT, BASE_CENT,
     BASE_CENT, BASE_CENT, BASE_CENT, BASE_CENT, BASE_CENT, BASE_CENT, BASE_CENT, BASE_CENT,
     BASE_CENT, BASE_CENT, BASE_CENT, BASE_CENT, BASE_CENT, BASE_CENT, BASE_CENT, BASE_CENT,
     BASE_CENT, BASE_CENT, BASE_CENT, BASE_CENT, BASE_CENT, BASE_CENT, BASE_CENT, BASE_CENT,
     BASE_CENT, BASE_CENT, BASE_CENT, BASE_CENT, BASE_CENT, BASE_CENT, BASE_CENT, BASE_CENT,
     BASE_CENT, BASE_CENT, BASE_CENT, BASE_CENT, BASE_CENT, BASE_CENT, BASE_CENT, BASE_CENT,
     BASE_CENT, BASE_CENT]"

definition COMMENT_FEE_PER_CHAR :: "int list" where
  "COMMENT_FEE_PER_CHAR =
    [0, BASE_CENT * 15 div 100, BASE_CENT * 10 div 100, 1, BASE_CENT * 10 div 100,
     BASE_CENT * 10 div 100, BASE_CENT * 10 div 100, BASE_CENT * 10 div 100,
     BASE_CENT * 10 div 100, BASE_CENT * 10 div 100, BASE_CENT * 10 div 100,
     BASE_CENT * 10 div 100, BASE_CENT * 10 div 100, BASE_CENT * 10 div 100,
     BASE_CENT * 10 div 100, BASE_CENT * 10 div 100, BASE_CENT * 10 div 100,
     BASE_CENT * 10 div 100, BASE_CENT * 10 div 100, BASE_CENT * 10 div 100,
     BASE_CENT * 10 div 100, BASE_CENT * 10 div 100, BASE_CENT * 10 div 100,
     BASE_CENT * 10 div 100, BASE_CENT * 10 div 100, BASE_CENT * 10 div 100,
     BASE_CENT * 10 div 100, BASE_CENT * 10 div 100, BASE_CENT * 10 div 100,
     BASE_CENT * 10 div 100, BASE_CENT * 10 div 100, BASE_CENT * 10 div 100,
     BASE_CENT * 10 div 100, BASE_CENT * 10 div 100, BASE_CENT * 10 div 100,
     BASE_CENT * 10 div 100, BASE_CENT * 10 div 100, BASE_CENT * 10 div 100,
     BASE_CENT * 10 div 100, BASE_CENT * 10 div 100, BASE_CENT * 10 div 100,
     BASE_CENT * 10 div 100, BASE_CENT * 10 div 100, BASE_CENT * 10 div 100,
     BASE_CENT * 10 div 100, BASE_CENT * 10 div 100, BASE_CENT * 10 div 100,
     BASE_CENT * 10 div 100, BASE_CENT * 10 div 100, BASE_CENT * 10 div 100,
     BASE_CENT * 10 div 100, BASE_CENT * 10 div 100, BASE_CENT * 10 div 100,
     BASE_CENT * 10 div 100, BASE_CENT * 10 div 100, BASE_CENT * 10 div 100,
     BASE_CENT * 10 div 100, BASE_CENT * 10 div 100]"

definition OP_RET_FEE_PER_CHAR :: "int list" where
  "OP_RET_FEE_PER_CHAR =
    [0, BASE_CENT * 23 div 100, BASE_CENT * 15 div 100, 2, BASE_CENT * 15 div 100,
     BASE_CENT * 15 div 100, BASE_CENT * 15 div 100, BASE_CENT * 15 div 100,
     BASE_CENT * 15 div 100, BASE_CENT * 15 div 100, BASE_CENT * 15 div 100,
     BASE_CENT * 15 div 100, BASE_CENT * 15 div 100, BASE_CENT * 15 div 100,
     BASE_CENT * 15 div 100, BASE_CENT * 15 div 100, BASE_CENT * 15 div 100,
     BASE_CENT * 15 div 100, BASE_CENT * 15 div 100, BASE_CENT * 15 div 100,
     BASE_CENT * 15 div 100, BASE_CENT * 15 div 100, BASE_CENT * 15 div 100,
     BASE_CENT * 15 div 100, BASE_CENT * 15 div 100, BASE_CENT * 15 div 100,
     BASE_CENT * 15 div 100, BASE_CENT * 15 div 100, BASE_CENT * 15 div 100,
     BASE_CENT * 15 div 100, BASE_CENT * 15 div 100, BASE_CENT * 15 div 100,
     BASE_CENT * 15 div 100, BASE_CENT * 15 div 100, BASE_CENT * 15 div 100,
     BASE_CENT * 15 div 100, BASE_CENT * 15 div 100, BASE_CENT * 15 div 100,
     BASE_CENT * 15 div 100, BASE_CENT * 15 div 100, BASE_CENT * 15 div 100,
     BASE_CENT * 15 div 100, BASE_CENT * 15 div 100, BASE_CENT * 15 div 100,
     BASE_CENT * 15 div 100, BASE_CENT * 15 div 100, BASE_CENT * 15 div 100,
     BASE_CENT * 15 div 100, BASE_CENT * 15 div 100, BASE_CENT * 15 div 100,
     BASE_CENT * 15 div 100, BASE_CENT * 15 div 100, BASE_CENT * 15 div 100,
     BASE_CENT * 15 div 100, BASE_CENT * 15 div 100, BASE_CENT * 15 div 100,
     BASE_CENT * 15 div 100, BASE_CENT * 15 div 100]"

definition MINT_COLOR :: "int list" where
  "MINT_COLOR =
    [BREAKOUT_COLOR_NONE, BREAKOUT_COLOR_BRK, BREAKOUT_COLOR_NONE, BREAKOUT_COLOR_NONE,
     BREAKOUT_COLOR_SIS, BREAKOUT_COLOR_SIS, BREAKOUT_COLOR_SIS, BREAKOUT_COLOR_SIS,
     BREAKOUT_COLOR_SIS, BREAKOUT_COLOR_SIS, BREAKOUT_COLOR_SIS, BREAKOUT_COLOR_SIS,
     BREAKOUT_COLOR_SIS, BREAKOUT_COLOR_SIS, BREAKOUT_COLOR_SIS, BREAKOUT_COLOR_SIS,
     BREAKOUT_COLOR_SIS, BREAKOUT_COLOR_SIS, BREAKOUT_COLOR_SIS, BREAKOUT_COLOR_SIS,
     BREAKOUT_COLOR_SIS, BREAKOUT_COLOR_SIS, BREAKOUT_COLOR_SIS, BREAKOUT_COLOR_SIS,
     BREAKOUT_COLOR_SIS, BREAKOUT_COLOR_SIS, BREAKOUT_COLOR_SIS, BREAKOUT_COLOR_SIS,
     BREAKOUT_COLOR_SIS, BREAKOUT_COLOR_SIS, BREAKOUT_COLOR_SIS, BREAKOUT_COLOR_SIS,
     BREAKOUT_COLOR_SIS, BREAKOUT_COLOR_SIS, BREAKOUT_COLOR_SIS, BREAKOUT_COLOR_SIS,
     BREAKOUT_COLOR_SIS, BREAKOUT_COLOR_SIS, BREAKOUT_COLOR_SIS, BREAKOUT_COLOR_SIS,
     BREAKOUT_COLOR_SIS, BREAKOUT_COLOR_SIS, BREAKOUT_COLOR_SIS, BREAKOUT_COLOR_SIS,
     BREAKOUT_COLOR_SIS, BREAKOUT_COLOR_SIS, BREAKOUT_COLOR_SIS, BREAKOUT_COLOR_SIS,
     BREAKOUT_COLOR_SIS, BREAKOUT_COLOR_SIS, BREAKOUT_COLOR_SIS, BREAKOUT_COLOR_SIS,
     BREAKOUT_COLOR_SIS, BREAKOUT_COLOR_SIS, BREAKOUT_COLOR_SIS, BREAKOUT_COLOR_SIS,
     BREAKOUT_COLOR_SIS, BREAKOUT_COLOR_NONE]"

definition BASE_POS_REWARD :: "int list" where
  "BASE_POS_REWARD =
    [0, BASE_COIN * 10, 0, 0, 14, 14, 2, 3, 4, 5, 6, 7, 8, 9, 10, 11, 12, 13, 14, 2, 3, 4, 5,
     6, 7, 8, 9, 10, 11, 12, 13, 14, 2, 3, 4, 5, 6, 7, 8, 9, 10, 11, 12, 13, 14, 2, 3, 4, 5,
     6, 7, 8, 9, 10, 11, 12, 13, 0]"

definition POW_SUBSIDY :: "int list" where
  "POW_SUBSIDY =
    [0, 12500000 * BASE_COIN, 19500000 * BASE_COIN, 100 * BASE_COIN, 1, 1, 1, 1, 1, 1, 1, 1,
     1, 1, 1, 1, 1, 1, 1, 1, 1, 1, 1, 1, 1, 1, 1, 1, 1, 1, 1, 1, 1, 1, 1, 1, 1, 1, 1, 1, 1,
     1, 1, 1, 1, 1, 1, 1, 1, 1, 1, 1, 1, 1, 1, 1, 1, 0]"

lemmas color_tables = COIN_def CENT_def MAX_MONEY_def FEE_COLOR_def MIN_TX_FEE_def
  MIN_RELAY_TX_FEE_def COMMENT_FEE_PER_CHAR_def OP_RET_FEE_PER_CHAR_def MINT_COLOR_def
  BASE_POS_REWARD_def POW_SUBSIDY_def BASE_COIN_def BASE_CENT_def

lemma length_color_tables [simp]:
  "length COIN = 58" "length CENT = 58" "length MAX_MONEY = 58" "length FEE_COLOR = 58"
  "length MIN_TX_FEE = 58" "length MIN_RELAY_TX_FEE = 58" "length COMMENT_FEE_PER_CHAR = 58"
  "length OP_RET_FEE_PER_CHAR = 58" "length MINT_COLOR = 58" "length BASE_POS_REWARD = 58"
  "length POW_SUBSIDY = 58"
  by (simp_all add: color_tables)

section \<open>Forks\<close>

definition FORK_TIMES :: "int list" where
  "FORK_TIMES = [1468998000, 1480320000, 1502434800, 1503417600, 1524632400, 1526619600, 1777836782]"

text \<open>The loop of \<open>GetFork\<close>: fork \<open>i\<close> is active from its time on.\<close>

fun fork_loop :: "int \<Rightarrow> nat \<Rightarrow> int list \<Rightarrow> nat" where
  "fork_loop nTime nFork [] = nFork"
| "fork_loop nTime nFork (t # ts) = (if t > nTime then nFork else fork_loop nTime (nFork + 1) ts)"

definition GetFork :: "int \<Rightarrow> nat" where
  "GetFork nTime = fork_loop nTime 0 FORK_TIMES"

lemma fork_loop_filter: "sorted ts \<Longrightarrow> fork_loop nTime n ts = n + length (filter (\<lambda>t. t \<le> nTime) ts)"
  by (induction ts arbitrary: n) (auto simp: filter_empty_conv)

lemma GetFork_mono: "a \<le> b \<Longrightarrow> GetFork a \<le> GetFork b"
proof -
  assume "a \<le> b"
  then have "length (filter (\<lambda>t. t \<le> a) ts) \<le> length (filter (\<lambda>t. t \<le> b) ts)" for ts :: "int list"
    by (induction ts) auto
  moreover have "sorted FORK_TIMES" by (simp add: FORK_TIMES_def)
  ultimately show ?thesis by (simp add: GetFork_def fork_loop_filter)
qed

section \<open>Colors and amounts\<close>

definition CheckColor :: "int \<Rightarrow> bool" where
  "CheckColor nColor \<longleftrightarrow> nColor \<ge> 1 \<and> nColor < N_COLORS"

definition CanStake :: "int \<Rightarrow> bool checked" where
  "CanStake nColor = (if \<not> CheckColor nColor then Inr False
     else ebind (at MINT_COLOR nColor) (\<lambda>m. Inr (m \<noteq> BREAKOUT_COLOR_NONE)))"

definition IsDeck :: "int \<Rightarrow> bool" where
  "IsDeck nColor \<longleftrightarrow> nColor \<ge> JOKER \<and> nColor \<le> KING_OF_HEARTS"

definition MoneyRange :: "int \<Rightarrow> int \<Rightarrow> bool checked" where
  "MoneyRange nValue nColor = (if nValue \<ge> 0 then ebind (at MAX_MONEY nColor) (\<lambda>m. Inr (nValue \<le> m))
     else Inr False)"

abbreviation color_ok :: "int \<Rightarrow> bool" where
  "color_ok c \<equiv> 0 \<le> c \<and> c < N_COLORS"

lemma at_color: "length t = 58 \<Longrightarrow> at t c = (if color_ok c then Inr (t ! nat c) else Inl Undefined)"
  by (simp add: at_def N_COLORS_def)

definition max_money :: "int \<Rightarrow> int" where
  "max_money c = MAX_MONEY ! nat c"

lemma MoneyRange_color: "color_ok c \<Longrightarrow> MoneyRange v c = Inr (0 \<le> v \<and> v \<le> max_money c)"
  by (simp add: MoneyRange_def at_color max_money_def)

lemma all_colors: "(\<forall>c. color_ok c \<longrightarrow> P (nat c)) \<longleftrightarrow> list_all P [0..<58]"
  by (auto simp: list_all_iff N_COLORS_def) (metis int_eq_iff nat_int of_nat_0_le_iff of_nat_less_iff of_nat_numeral)

lemma max_money_bounds: "color_ok c \<Longrightarrow> 0 \<le> max_money c \<and> max_money c \<le> 100000000000000000"
proof -
  have "list_all (\<lambda>i. 0 \<le> MAX_MONEY ! i \<and> MAX_MONEY ! i \<le> 100000000000000000) [0..<58]"
    by (simp add: MAX_MONEY_def BASE_COIN_def upt_rec)
  then show "color_ok c \<Longrightarrow> ?thesis" unfolding all_colors [symmetric] by (simp add: max_money_def)
qed

lemma fee_color_ok: "color_ok c \<Longrightarrow> color_ok (FEE_COLOR ! nat c)"
proof -
  have "list_all (\<lambda>i. color_ok (FEE_COLOR ! i)) [0..<58]"
    by (simp add: FEE_COLOR_def N_COLORS_def upt_rec)
  then show "color_ok c \<Longrightarrow> ?thesis" unfolding all_colors [symmetric] by blast
qed

end
