(* ===== verification/Transaction.thy ===== *)
theory Transaction
  imports Colors Serialize
begin

text \<open>
  Transactions (src/src/main.h): inputs, outputs and transactions with their serialisation
  (\<open>IMPLEMENT_SERIALIZE\<close> over src/src/serialize.h) and identifiers. The fields keep their width: a value
  is a 64-bit word read as signed, a color a 32-bit word read as signed, an identifier a 256-bit word
  whose bytes in memory are little endian.
\<close>

type_synonym uint256 = "256 word"

section \<open>Data\<close>

record COutPoint =
  prev_hash :: uint256
  prev_n :: u32

record CTxIn =
  prevout :: COutPoint
  scriptSig :: valtype
  nSequence :: u32

record CTxOut =
  nValue :: u64
  nColor :: u32
  scriptPubKey :: valtype

record CTransaction =
  nVersion :: u32
  nTime :: u32
  vin :: "CTxIn list"
  vout :: "CTxOut list"
  nLockTime :: u32
  strTxComment :: "byte list"
  nServiceTypeID :: u32

definition outpoint_IsNull :: "COutPoint \<Rightarrow> bool" where
  "outpoint_IsNull p \<longleftrightarrow> prev_hash p = 0 \<and> prev_n p = - 1"

definition txin_IsFinal :: "CTxIn \<Rightarrow> bool" where
  "txin_IsFinal txin \<longleftrightarrow> nSequence txin = - 1"

definition null_txout :: CTxOut where
  "null_txout = \<lparr>nValue = - 1, nColor = 0, scriptPubKey = []\<rparr>"

definition txout_IsEmpty :: "CTxOut \<Rightarrow> bool" where
  "txout_IsEmpty txout \<longleftrightarrow> nValue txout = 0 \<and> scriptPubKey txout = []"

definition IsOpReturn :: "CTxOut \<Rightarrow> bool" where
  "IsOpReturn txout = (case GetOp2 (scriptPubKey txout) 0 of (ok, _, opcode, _) \<Rightarrow> ok \<and> opcode = OP_RETURN)"

definition IsCoinBase :: "CTransaction \<Rightarrow> bool" where
  "IsCoinBase tx \<longleftrightarrow> length (vin tx) = 1 \<and> outpoint_IsNull (prevout (vin tx ! 0)) \<and> length (vout tx) \<ge> 1"

definition IsCoinStake :: "CTransaction \<Rightarrow> bool" where
  "IsCoinStake tx \<longleftrightarrow> length (vin tx) > 0 \<and> \<not> outpoint_IsNull (prevout (vin tx ! 0))
     \<and> length (vout tx) \<ge> 2 \<and> txout_IsEmpty (vout tx ! 0)"

definition DoesMature :: "CTransaction \<Rightarrow> bool" where
  "DoesMature tx \<longleftrightarrow> IsCoinBase tx \<or> IsCoinStake tx"

abbreviation color_of :: "CTxOut \<Rightarrow> int" where
  "color_of txout \<equiv> sint (nColor txout)"

abbreviation value_of :: "CTxOut \<Rightarrow> int" where
  "value_of txout \<equiv> sint (nValue txout)"

definition GetColor :: "CTransaction \<Rightarrow> int" where
  "GetColor tx = (if length (vout tx) = 0 then BREAKOUT_COLOR_NONE else color_of (vout tx ! 0))"

definition IsFinal :: "CTransaction \<Rightarrow> int \<Rightarrow> int \<Rightarrow> int \<Rightarrow> int \<Rightarrow> bool" where
  "IsFinal tx nBestHeight adjusted_time nBlockHeight nBlockTime =
     (if nLockTime tx = 0 then True
      else let nBlockHeight = (if nBlockHeight = 0 then nBestHeight else nBlockHeight);
          nBlockTime = (if nBlockTime = 0 then adjusted_time else nBlockTime) in
        if uint (nLockTime tx) < (if uint (nLockTime tx) < LOCKTIME_THRESHOLD then nBlockHeight else nBlockTime)
        then True
        else list_all txin_IsFinal (vin tx))"

section \<open>Serialisation\<close>

definition ser_word :: "'w::len word \<Rightarrow> byte list" where
  "ser_word w = le_bytes (LENGTH('w) div 8) (unat w)"

definition unser_word :: "byte list \<Rightarrow> ('w::len word \<times> byte list) option" where
  "unser_word is = do { (b, is) \<leftarrow> READDATA (LENGTH('w) div 8) is; Some (word_of_nat (le_nat b), is) }"

definition ser_bytes :: "byte list \<Rightarrow> byte list" where
  "ser_bytes v = WriteCompactSize (length v) @ v"

definition ser_vector :: "('a \<Rightarrow> byte list) \<Rightarrow> 'a list \<Rightarrow> byte list" where
  "ser_vector ser v = WriteCompactSize (length v) @ concat (map ser v)"

text \<open>A vector of bytes is read in blocks of at most 5000000 (here \<open>1 + 4999999 / sizeof(T)\<close>), so that a
  wrong size does not exhaust the memory.\<close>

function read_blocks :: "nat \<Rightarrow> byte list \<Rightarrow> byte list \<Rightarrow> (byte list \<times> byte list) option" where
  "read_blocks left v is = (if left > 0 then let blk = min left 5000000 in
     do { (b, is) \<leftarrow> READDATA blk is; read_blocks (left - blk) (v @ b) is } else Some (v, is))"
  by pat_completeness auto
termination by (relation "measure (\<lambda>(left, v, is). left)") auto

declare read_blocks.simps [simp del]

definition unser_bytes :: "byte list \<Rightarrow> (byte list \<times> byte list) option" where
  "unser_bytes is = do { (nSize, is) \<leftarrow> ReadCompactSize is; read_blocks nSize [] is }"

definition unser_string :: "byte list \<Rightarrow> (byte list \<times> byte list) option" where
  "unser_string is = do { (nSize, is) \<leftarrow> ReadCompactSize is; READDATA nSize is }"

text \<open>A vector of objects: the inner loop reads up to \<open>nMid\<close>, the outer one raises \<open>nMid\<close> by
  \<open>5000000 / sizeof(T)\<close>, which is the argument \<open>chunk\<close>; with 0 the loop would not end, which is None.\<close>

fun read_items :: "(byte list \<Rightarrow> ('a \<times> byte list) option) \<Rightarrow> nat \<Rightarrow> 'a list \<Rightarrow> byte list \<Rightarrow> ('a list \<times> byte list) option" where
  "read_items unser 0 v is = Some (v, is)"
| "read_items unser (Suc n) v is = do { (x, is) \<leftarrow> unser is; read_items unser n (v @ [x]) is }"

function read_chunks ::
  "nat \<Rightarrow> (byte list \<Rightarrow> ('a \<times> byte list) option) \<Rightarrow> nat \<Rightarrow> 'a list \<Rightarrow> byte list \<Rightarrow> ('a list \<times> byte list) option" where
  "read_chunks chunk unser left v is =
     (if left > 0
      then if chunk = 0 then None
        else let k = min left chunk in
          do { (v, is) \<leftarrow> read_items unser k v is; read_chunks chunk unser (left - k) v is }
      else Some (v, is))"
  by pat_completeness auto
termination by (relation "measure (\<lambda>(c, u, left, v, is). left)") auto

declare read_chunks.simps [simp del]

definition unser_vector :: "nat \<Rightarrow> (byte list \<Rightarrow> ('a \<times> byte list) option) \<Rightarrow> byte list \<Rightarrow> ('a list \<times> byte list) option" where
  "unser_vector size_of unser is =
     do { (nSize, is) \<leftarrow> ReadCompactSize is; read_chunks (5000000 div size_of) unser nSize [] is }"

definition ser_outpoint :: "COutPoint \<Rightarrow> byte list" where
  "ser_outpoint p = ser_word (prev_hash p) @ ser_word (prev_n p)"

definition unser_outpoint :: "byte list \<Rightarrow> (COutPoint \<times> byte list) option" where
  "unser_outpoint is = do { (h, is) \<leftarrow> unser_word is; (k, is) \<leftarrow> unser_word is;
     Some (\<lparr>prev_hash = h, prev_n = k\<rparr>, is) }"

definition ser_txin :: "CTxIn \<Rightarrow> byte list" where
  "ser_txin txin = ser_outpoint (prevout txin) @ ser_bytes (scriptSig txin) @ ser_word (nSequence txin)"

definition unser_txin :: "byte list \<Rightarrow> (CTxIn \<times> byte list) option" where
  "unser_txin is = do { (p, is) \<leftarrow> unser_outpoint is; (s, is) \<leftarrow> unser_bytes is; (q, is) \<leftarrow> unser_word is;
     Some (\<lparr>prevout = p, scriptSig = s, nSequence = q\<rparr>, is) }"

definition ser_txout :: "CTxOut \<Rightarrow> byte list" where
  "ser_txout txout = ser_word (nValue txout) @ ser_word (nColor txout) @ ser_bytes (scriptPubKey txout)"

definition unser_txout :: "byte list \<Rightarrow> (CTxOut \<times> byte list) option" where
  "unser_txout is = do { (v, is) \<leftarrow> unser_word is; (c, is) \<leftarrow> unser_word is; (s, is) \<leftarrow> unser_bytes is;
     Some (\<lparr>nValue = v, nColor = c, scriptPubKey = s\<rparr>, is) }"

definition ser_tx :: "CTransaction \<Rightarrow> byte list" where
  "ser_tx tx = ser_word (nVersion tx) @ ser_word (nTime tx) @ ser_vector ser_txin (vin tx)
     @ ser_vector ser_txout (vout tx) @ ser_word (nLockTime tx) @ ser_bytes (strTxComment tx)
     @ ser_word (nServiceTypeID tx)"

text \<open>\<open>sizeof(CTxIn)\<close> and \<open>sizeof(CTxOut)\<close> are the compiler's; they only set the size of a block of reads.\<close>

definition unser_tx :: "nat \<Rightarrow> nat \<Rightarrow> byte list \<Rightarrow> (CTransaction \<times> byte list) option" where
  "unser_tx sizeof_in sizeof_out is = do {
     (ver, is) \<leftarrow> unser_word is; (t, is) \<leftarrow> unser_word is;
     (ins, is) \<leftarrow> unser_vector sizeof_in unser_txin is;
     (outs, is) \<leftarrow> unser_vector sizeof_out unser_txout is;
     (lock, is) \<leftarrow> unser_word is; (comment, is) \<leftarrow> unser_string is; (svc, is) \<leftarrow> unser_word is;
     Some (\<lparr>nVersion = ver, nTime = t, vin = ins, vout = outs, nLockTime = lock,
       strTxComment = comment, nServiceTypeID = svc\<rparr>, is) }"

definition size_bytes :: "byte list \<Rightarrow> nat" where
  "size_bytes v = GetSizeOfCompactSize (length v) + length v"

definition size_txin :: "CTxIn \<Rightarrow> nat" where
  "size_txin txin = 36 + size_bytes (scriptSig txin) + 4"

definition size_txout :: "CTxOut \<Rightarrow> nat" where
  "size_txout txout = 8 + 4 + size_bytes (scriptPubKey txout)"

definition GetSerializeSize_tx :: "CTransaction \<Rightarrow> nat" where
  "GetSerializeSize_tx tx = 4 + 4
     + (GetSizeOfCompactSize (length (vin tx)) + sum_list (map size_txin (vin tx)))
     + (GetSizeOfCompactSize (length (vout tx)) + sum_list (map size_txout (vout tx)))
     + 4 + size_bytes (strTxComment tx) + 4"

section \<open>Writers and readers\<close>

text \<open>
  The contract between a writer and its reader: what was written is read back, whatever follows.
  Vectors inherit it, and it makes the writer injective with any continuation.
\<close>

locale codec =
  fixes ser :: "'a \<Rightarrow> byte list" and unser :: "byte list \<Rightarrow> ('a \<times> byte list) option" and ok :: "'a \<Rightarrow> bool"
  assumes unser_ser: "ok x \<Longrightarrow> unser (ser x @ rest) = Some (x, rest)"
begin

lemma ser_inject: "ok x \<Longrightarrow> ok y \<Longrightarrow> ser x @ r = ser y @ s \<Longrightarrow> x = y \<and> r = s"
  by (metis unser_ser option.inject prod.inject)

lemma read_items_ser:
  "list_all ok xs \<Longrightarrow> read_items unser (length xs) v (concat (map ser xs) @ rest) = Some (v @ xs, rest)"
  by (induction xs arbitrary: v) (simp_all add: unser_ser)

lemma read_chunks_ser:
  "chunk > 0 \<Longrightarrow> list_all ok xs
     \<Longrightarrow> read_chunks chunk unser (length xs) v (concat (map ser xs) @ rest) = Some (v @ xs, rest)"
proof (induction "length xs" arbitrary: xs v rule: less_induct)
  case less
  show ?case
  proof (cases "xs = []")
    case False
    let ?k = "min (length xs) chunk"
    have "read_items unser (length (take ?k xs)) v (concat (map ser (take ?k xs)) @ concat (map ser (drop ?k xs)) @ rest)
        = Some (v @ take ?k xs, concat (map ser (drop ?k xs)) @ rest)"
      using less.prems by (intro read_items_ser) (auto simp: list_all_iff dest: in_set_takeD)
    moreover have "concat (map ser (take ?k xs)) @ concat (map ser (drop ?k xs)) = concat (map ser xs)"
      by (simp flip: concat_append map_append)
    ultimately have "read_items unser ?k v (concat (map ser xs) @ rest)
        = Some (v @ take ?k xs, concat (map ser (drop ?k xs)) @ rest)"
      by (metis append.assoc length_take min.cobounded1 min_absorb2)
    moreover have "read_chunks chunk unser (length (drop ?k xs)) (v @ take ?k xs) (concat (map ser (drop ?k xs)) @ rest)
        = Some ((v @ take ?k xs) @ drop ?k xs, rest)"
      using less.prems False by (intro less.hyps) (auto simp: list_all_iff dest: in_set_dropD)
    ultimately show ?thesis using False less.prems
      by (simp add: read_chunks.simps [of _ _ "length xs"] Let_def)
  qed (simp add: read_chunks.simps)
qed

lemma unser_vector_ser:
  "0 < size_of \<Longrightarrow> size_of \<le> 5000000 \<Longrightarrow> list_all ok xs \<Longrightarrow> length xs \<le> MAX_SIZE
     \<Longrightarrow> unser_vector size_of unser (ser_vector ser xs @ rest) = Some (xs, rest)"
  by (simp add: unser_vector_def ser_vector_def CompactSize_write_read read_chunks_ser div_greater_zero_iff)

end

lemma word_bytes: "8 dvd LENGTH('w) \<Longrightarrow> (256 :: nat) ^ (LENGTH('w::len) div 8) = 2 ^ LENGTH('w)"
proof -
  assume "8 dvd LENGTH('w)"
  then show ?thesis using power_mult [of "2 :: nat" 8 "LENGTH('w) div 8"] by simp
qed

lemma unser_word_ser: "8 dvd LENGTH('w) \<Longrightarrow> unser_word (ser_word (w :: 'w::len word) @ rest) = Some (w, rest)"
  using unat_less_exp [of w] by (simp add: unser_word_def ser_word_def word_bytes)

lemma length_ser_word: "length (ser_word (w :: 'w::len word)) = LENGTH('w) div 8"
  by (simp add: ser_word_def)

lemma unser_words [simp]:
  "unser_word (ser_word (h :: uint256) @ rest) = Some (h, rest)"
  "unser_word (ser_word (a :: u32) @ rest) = Some (a, rest)"
  "unser_word (ser_word (b :: u64) @ rest) = Some (b, rest)"
  by (simp_all add: unser_word_ser)

lemma read_blocks_all: "length bs = left \<Longrightarrow> read_blocks left v (bs @ rest) = Some (v @ bs, rest)"
proof (induction left arbitrary: bs v rule: less_induct)
  case (less left)
  show ?case
  proof (cases "left = 0")
    case False
    let ?k = "min left 5000000"
    have "READDATA ?k (take ?k bs @ drop ?k bs @ rest) = Some (take ?k bs, drop ?k bs @ rest)"
      using less.prems by (intro READDATA_append) simp
    then have "READDATA ?k (bs @ rest) = Some (take ?k bs, drop ?k bs @ rest)"
      by (simp flip: append.assoc)
    moreover have "read_blocks (left - ?k) (v @ take ?k bs) (drop ?k bs @ rest) = Some ((v @ take ?k bs) @ drop ?k bs, rest)"
      using less.prems False by (intro less.IH) auto
    ultimately show ?thesis using False by (simp add: read_blocks.simps [of left] Let_def)
  qed (use less.prems in \<open>simp add: read_blocks.simps\<close>)
qed

definition small :: "byte list \<Rightarrow> bool" where
  "small v \<longleftrightarrow> length v \<le> MAX_SIZE"

lemma unser_bytes_ser [simp]: "small v \<Longrightarrow> unser_bytes (ser_bytes v @ rest) = Some (v, rest)"
  by (simp add: small_def unser_bytes_def ser_bytes_def CompactSize_write_read read_blocks_all)

lemma unser_string_ser [simp]: "small v \<Longrightarrow> unser_string (ser_bytes v @ rest) = Some (v, rest)"
  by (simp add: small_def unser_string_def ser_bytes_def CompactSize_write_read)

abbreviation ok_txin :: "CTxIn \<Rightarrow> bool" where
  "ok_txin txin \<equiv> small (scriptSig txin)"

abbreviation ok_txout :: "CTxOut \<Rightarrow> bool" where
  "ok_txout txout \<equiv> small (scriptPubKey txout)"

definition ok_tx :: "CTransaction \<Rightarrow> bool" where
  "ok_tx tx \<longleftrightarrow> length (vin tx) \<le> MAX_SIZE \<and> list_all ok_txin (vin tx)
     \<and> length (vout tx) \<le> MAX_SIZE \<and> list_all ok_txout (vout tx) \<and> small (strTxComment tx)"

interpretation outpoint: codec ser_outpoint unser_outpoint "\<lambda>_. True"
  by unfold_locales (simp add: ser_outpoint_def unser_outpoint_def)

interpretation txin: codec ser_txin unser_txin ok_txin
  by unfold_locales (simp add: ser_txin_def unser_txin_def outpoint.unser_ser)

interpretation txout: codec ser_txout unser_txout ok_txout
  by unfold_locales (simp add: ser_txout_def unser_txout_def)

abbreviation block_size :: "nat \<Rightarrow> bool" where
  "block_size k \<equiv> 0 < k \<and> k \<le> 5000000"

lemma unser_tx_ser:
  "block_size sin \<Longrightarrow> block_size sout \<Longrightarrow> ok_tx tx \<Longrightarrow> unser_tx sin sout (ser_tx tx @ rest) = Some (tx, rest)"
  by (simp add: ok_tx_def ser_tx_def unser_tx_def txin.unser_vector_ser txout.unser_vector_ser)

interpretation tx: codec ser_tx "unser_tx 72 40" ok_tx
  by unfold_locales (simp add: unser_tx_ser)

lemma length_ser_vector:
  "(\<And>x. x \<in> set xs \<Longrightarrow> length (ser x) = sz x)
     \<Longrightarrow> length (ser_vector ser xs) = GetSizeOfCompactSize (length xs) + sum_list (map sz xs)"
  by (simp add: ser_vector_def length_WriteCompactSize length_concat o_def cong: map_cong)

lemma length_ser_bytes: "length (ser_bytes v) = size_bytes v"
  by (simp add: ser_bytes_def size_bytes_def length_WriteCompactSize)

lemma length_ser_txin: "length (ser_txin i) = size_txin i"
  by (simp add: ser_txin_def ser_outpoint_def length_ser_word length_ser_bytes size_txin_def)

lemma length_ser_txout: "length (ser_txout t) = size_txout t"
  by (simp add: ser_txout_def length_ser_word length_ser_bytes size_txout_def)


definition sample_tx :: CTransaction where
  "sample_tx = \<lparr>nVersion = 1, nTime = 1465544400,
     vin = [\<lparr>prevout = \<lparr>prev_hash = 7, prev_n = 0\<rparr>, scriptSig = [1, 2], nSequence = - 1\<rparr>],
     vout = [\<lparr>nValue = 5000, nColor = 2, scriptPubKey = [0x51]\<rparr>],
     nLockTime = 0, strTxComment = [], nServiceTypeID = 0\<rparr>"


end
