(* ===== verification/Signature.thy ===== *)
theory Signature
  imports Transaction "HOL-Library.Product_Lexorder" "HOL-Library.List_Lexorder"
begin

text \<open>
  What a signature signs and how it is checked: transaction identifiers (\<open>CTransaction::GetHash\<close>),
  \<open>SignatureHash\<close>, \<open>CheckSig\<close> with its cache of valid signatures (src/src/script.cpp), the public key
  wrapper and the clean-up of signatures before OpenSSL sees them (src/src/key.h, key.cpp). SHA-256 and
  the other digests, the curve and the DER codec are OpenSSL's and parameters. \<open>tx_env\<close> puts the
  check into the environment of the script interpreter.
\<close>

record crypto =
  bn_ops :: bn_lib
  sha256 :: "valtype \<Rightarrow> valtype"
  sha1 :: "valtype \<Rightarrow> valtype"
  ripemd160 :: "valtype \<Rightarrow> valtype"
  build_public_key :: "valtype \<Rightarrow> bool"
  normal_der :: "valtype \<Rightarrow> valtype option"
  evp_verify :: "valtype \<Rightarrow> valtype \<Rightarrow> valtype \<Rightarrow> bool"

section \<open>Identifiers\<close>

definition Hash_c :: "crypto \<Rightarrow> valtype \<Rightarrow> uint256" where
  "Hash_c c b = word_of_nat (le_nat (sha256 c (sha256 c b)))"

definition blank_sigs :: "CTransaction \<Rightarrow> CTransaction" where
  "blank_sigs tx = tx\<lparr>vin := map (\<lambda>txin. txin\<lparr>scriptSig := []\<rparr>) (vin tx)\<rparr>"

definition GetHash :: "crypto \<Rightarrow> CTransaction \<Rightarrow> uint256" where
  "GetHash c tx = (if IsCoinBase tx \<and> GetFork (uint (nTime tx)) \<ge> 3 then Hash_c c (ser_tx tx)
     else Hash_c c (ser_tx (blank_sigs tx)))"

section \<open>What is signed\<close>

abbreviation SIGHASH_NONE :: u32 where "SIGHASH_NONE \<equiv> 2"
abbreviation SIGHASH_SINGLE :: u32 where "SIGHASH_SINGLE \<equiv> 3"
abbreviation SIGHASH_ANYONECANPAY :: u32 where "SIGHASH_ANYONECANPAY \<equiv> 0x80"

text \<open>\<open>Let the others update at will\<close>\<close>

definition free_sequences :: "nat \<Rightarrow> CTransaction \<Rightarrow> CTransaction" where
  "free_sequences nIn tx = tx\<lparr>vin := map (\<lambda>i. if i \<noteq> nIn then (vin tx ! i)\<lparr>nSequence := 0\<rparr> else vin tx ! i)
     [0..<length (vin tx)]\<rparr>"

definition sighash_outputs :: "nat \<Rightarrow> u32 \<Rightarrow> CTransaction \<Rightarrow> CTransaction option" where
  "sighash_outputs nIn nHashType txTmp =
     (if nHashType AND 0x1f = SIGHASH_NONE then Some (free_sequences nIn (txTmp\<lparr>vout := []\<rparr>))
      else if nHashType AND 0x1f = SIGHASH_SINGLE
      then if nIn \<ge> length (vout txTmp) then None
        else Some (free_sequences nIn (txTmp\<lparr>vout := replicate nIn null_txout @ [vout txTmp ! nIn]\<rparr>))
      else Some txTmp)"

text \<open>The stream that is hashed, None where the source returns the number 1 instead.\<close>

definition sighash_stream :: "crypto \<Rightarrow> valtype \<Rightarrow> CTransaction \<Rightarrow> nat \<Rightarrow> int \<Rightarrow> valtype option" where
  "sighash_stream c scriptCode txTo nIn nHashType =
     (let ht = word_of_int nHashType :: u32 in
      if nIn \<ge> length (vin txTo) then None
      else let scriptCode = fst (FindAndDelete scriptCode [word_of_nat OP_CODESEPARATOR]);
          txTmp = blank_sigs txTo;
          txTmp = txTmp\<lparr>vin := (vin txTmp)[nIn := (vin txTmp ! nIn)\<lparr>scriptSig := scriptCode\<rparr>]\<rparr> in
        do { txTmp \<leftarrow> sighash_outputs nIn ht txTmp;
          let txTmp = (if ht AND SIGHASH_ANYONECANPAY \<noteq> 0 then txTmp\<lparr>vin := [vin txTmp ! nIn]\<rparr> else txTmp);
            txid = (if GetFork (uint (nTime txTo)) < 7 \<or> \<not> IsCoinBase txTo then ser_word (GetHash c txTo) else []) in
          Some (txid @ ser_tx txTmp @ ser_word ht) })"

definition SignatureHash :: "crypto \<Rightarrow> valtype \<Rightarrow> CTransaction \<Rightarrow> nat \<Rightarrow> int \<Rightarrow> uint256" where
  "SignatureHash c scriptCode txTo nIn nHashType =
     (case sighash_stream c scriptCode txTo nIn nHashType of None \<Rightarrow> 1 | Some ss \<Rightarrow> Hash_c c ss)"

section \<open>Keys and signatures\<close>

definition GetLen :: "byte \<Rightarrow> nat" where
  "GetLen chHeader = (if chHeader = 2 \<or> chHeader = 3 then 33
     else if chHeader = 4 \<or> chHeader = 6 \<or> chHeader = 7 then 65 else 0)"

text \<open>A public key from bytes; None is an invalid key.\<close>

definition CPubKey :: "valtype \<Rightarrow> valtype option" where
  "CPubKey vch = (let len = (if vch = [] then 0 else GetLen (hd vch)) in
     if len \<noteq> 0 \<and> len = length vch then Some vch else None)"

definition strip_length_bytes :: "valtype \<Rightarrow> valtype option" where
  "strip_length_bytes vchSig =
     (if length vchSig > 1 \<and> vchSig ! 1 AND 0x80 \<noteq> 0
      then let nLengthBytes = unat (vchSig ! 1 AND 0x7f) in
        if length vchSig < 2 + nLengthBytes then None
        else if nLengthBytes > 4
        then let nExtraBytes = nLengthBytes - 4 in
          if list_ex (\<lambda>i. vchSig ! (2 + i) \<noteq> 0) [0..<nExtraBytes] then None
          else Some ((take 2 vchSig @ drop (2 + nExtraBytes) vchSig)
            [1 := 0x80 OR word_of_nat (nLengthBytes - nExtraBytes)])
        else Some vchSig
      else Some vchSig)"

definition pubkey_Verify :: "crypto \<Rightarrow> valtype \<Rightarrow> uint256 \<Rightarrow> valtype \<Rightarrow> bool" where
  "pubkey_Verify c pubkey hash vchSig =
     (build_public_key c pubkey \<and>
      (case strip_length_bytes vchSig of None \<Rightarrow> False
       | Some vchSig \<Rightarrow> vchSig \<noteq> [] \<and>
           (case normal_der c vchSig of None \<Rightarrow> False
            | Some der \<Rightarrow> evp_verify c pubkey der (ser_word hash))))"

section \<open>The cache\<close>

type_synonym sigdata = "uint256 \<times> valtype \<times> valtype"

text \<open>\<open>set<sigdata_type>\<close>: the entries in increasing order.\<close>

type_synonym sigcache = "sigdata list"

definition cache_Get :: "sigcache \<Rightarrow> uint256 \<Rightarrow> valtype \<Rightarrow> valtype \<Rightarrow> bool" where
  "cache_Get setValid hash vchSig pubKey \<longleftrightarrow> (hash, vchSig, pubKey) \<in> set setValid"

text \<open>One eviction: the first entry not below the key of a random hash, the first entry if there is none.
  An invalid public key has the first byte \<open>0xff\<close>.\<close>

definition evict :: "uint256 \<Rightarrow> sigcache \<Rightarrow> sigcache" where
  "evict randomHash setValid = (case dropWhile (\<lambda>k. k < (randomHash, [], [0xff])) setValid of
     [] \<Rightarrow> remove1 (hd setValid) setValid | k # _ \<Rightarrow> remove1 k setValid)"

lemma length_evict: "setValid \<noteq> [] \<Longrightarrow> length (evict r setValid) = length setValid - 1"
  using set_dropWhileD [of _ "\<lambda>k. k < (r, [], [0xff])" setValid]
  by (auto simp: evict_def length_remove1 split: list.split)

text \<open>The random hashes drawn are an argument.\<close>

function evict_loop :: "(nat \<Rightarrow> uint256) \<Rightarrow> nat \<Rightarrow> int \<Rightarrow> sigcache \<Rightarrow> sigcache" where
  "evict_loop GetRandHash k nMaxCacheSize setValid =
     (if int (length setValid) > nMaxCacheSize \<and> setValid \<noteq> []
      then evict_loop GetRandHash (k + 1) nMaxCacheSize (evict (GetRandHash k) setValid) else setValid)"
  by pat_completeness auto
termination
  by (relation "measure (\<lambda>(r, k, m, s). length s)") (auto simp: length_evict)

declare evict_loop.simps [simp del]

definition cache_Set :: "(nat \<Rightarrow> uint256) \<Rightarrow> int \<Rightarrow> sigcache \<Rightarrow> uint256 \<Rightarrow> valtype \<Rightarrow> valtype \<Rightarrow> sigcache" where
  "cache_Set GetRandHash nMaxCacheSize setValid hash vchSig pubKey =
     (if nMaxCacheSize \<le> 0 then setValid
      else insort_insert (hash, vchSig, pubKey) (evict_loop GetRandHash 0 nMaxCacheSize setValid))"

text \<open>\<open>CheckSig\<close> with the cache before and after the call.\<close>

definition CheckSig_cached :: "crypto \<Rightarrow> (nat \<Rightarrow> uint256) \<Rightarrow> int \<Rightarrow> CTransaction \<Rightarrow> nat
    \<Rightarrow> valtype \<Rightarrow> valtype \<Rightarrow> valtype \<Rightarrow> int \<Rightarrow> u32 \<Rightarrow> sigcache \<Rightarrow> bool \<times> sigcache" where
  "CheckSig_cached c GetRandHash nMaxCacheSize txTo nIn vchSig vchPubKey scriptCode nHashType flags cache =
     (case CPubKey vchPubKey of None \<Rightarrow> (False, cache)
      | Some pubkey \<Rightarrow>
        if vchSig = [] then (False, cache)
        else let back = int (unat (last vchSig)) in
          if nHashType \<noteq> 0 \<and> nHashType \<noteq> back then (False, cache)
          else let vchSig = butlast vchSig; sighash = SignatureHash c scriptCode txTo nIn back in
            if cache_Get cache sighash vchSig pubkey then (True, cache)
            else if \<not> pubkey_Verify c pubkey sighash vchSig then (False, cache)
            else (True, if flags AND SCRIPT_VERIFY_NOCACHE = 0
              then cache_Set GetRandHash nMaxCacheSize cache sighash vchSig pubkey else cache))"

text \<open>The same check without a cache, for the environment of the interpreter.\<close>

definition CheckSig_plain :: "crypto \<Rightarrow> CTransaction \<Rightarrow> nat \<Rightarrow> valtype \<Rightarrow> valtype \<Rightarrow> valtype \<Rightarrow> int \<Rightarrow> u32 \<Rightarrow> bool" where
  "CheckSig_plain c txTo nIn vchSig vchPubKey scriptCode nHashType flags =
     (case CPubKey vchPubKey of None \<Rightarrow> False
      | Some pubkey \<Rightarrow> vchSig \<noteq> [] \<and> (nHashType = 0 \<or> nHashType = int (unat (last vchSig)))
          \<and> pubkey_Verify c pubkey (SignatureHash c scriptCode txTo nIn (int (unat (last vchSig)))) (butlast vchSig))"

definition tx_env :: "crypto \<Rightarrow> CTransaction \<Rightarrow> nat \<Rightarrow> script_env" where
  "tx_env c txTo nIn = \<lparr>bn = bn_ops c, RIPEMD160_Once = ripemd160 c, SHA1_Once = sha1 c, SHA256_Once = sha256 c,
     CheckSig = CheckSig_plain c txTo nIn, tx_nLockTime = nLockTime txTo,
     txin_nSequence = nSequence (vin txTo ! nIn)\<rparr>"

definition VerifySignature :: "crypto \<Rightarrow> CTransaction \<Rightarrow> CTransaction \<Rightarrow> nat \<Rightarrow> u32 \<Rightarrow> int \<Rightarrow> bool checked" where
  "VerifySignature c txFrom txTo nIn flags nHashType =
     (if nIn \<ge> length (vin txTo) then Inl Undefined
      else let txin = vin txTo ! nIn; n = unat (prev_n (prevout txin)) in
        if n \<ge> length (vout txFrom) then Inr False
        else if prev_hash (prevout txin) \<noteq> GetHash c txFrom then Inr False
        else case VerifyScript (tx_env c txTo nIn) flags nHashType (scriptSig txin) (scriptPubKey (vout txFrom ! n)) of
            Inl _ \<Rightarrow> Inl Runtime_error | Inr r \<Rightarrow> Inr r)"

section \<open>The cache is transparent\<close>

lemma set_evict: "set (evict r setValid) \<subseteq> set setValid"
  by (auto simp: evict_def split: list.splits dest: set_remove1_subset [THEN subsetD])

lemma set_evict_loop: "set (evict_loop rnd k m setValid) \<subseteq> set setValid"
proof (induction rnd k m setValid rule: evict_loop.induct)
  case (1 rnd k m s)
  then show ?case using set_evict [of "rnd k" s]
    by (subst evict_loop.simps) (auto dest: subsetD)
qed

lemma length_evict_loop: "0 \<le> m \<Longrightarrow> int (length (evict_loop rnd k m setValid)) \<le> m"
proof (induction rnd k m setValid rule: evict_loop.induct)
  case (1 rnd k m s)
  then show ?case by (subst evict_loop.simps) auto
qed

definition cache_valid :: "crypto \<Rightarrow> int \<Rightarrow> sigcache \<Rightarrow> bool" where
  "cache_valid c nMaxCacheSize cache \<longleftrightarrow>
     list_all (\<lambda>(hash, vchSig, pubkey). pubkey_Verify c pubkey hash vchSig) cache
     \<and> int (length cache) \<le> max 0 nMaxCacheSize + 1"

lemma cache_valid_Set:
  assumes "cache_valid c m cache" "pubkey_Verify c pubkey hash vchSig"
  shows "cache_valid c m (cache_Set rnd m cache hash vchSig pubkey)"
proof (cases "m \<le> 0")
  case False
  then show ?thesis
    using assms set_evict_loop [of rnd 0 m cache] length_evict_loop [of m rnd 0 cache]
    by (auto simp: cache_valid_def cache_Set_def insort_insert_key_def list_all_iff set_insort_key)
qed (use assms in \<open>simp add: cache_Set_def\<close>)

lemma CheckSig_cached_step:
  assumes "cache_valid c m cache"
  shows "fst (CheckSig_cached c rnd m tx nIn sig pub code ht flags cache) = CheckSig_plain c tx nIn sig pub code ht flags
    \<and> cache_valid c m (snd (CheckSig_cached c rnd m tx nIn sig pub code ht flags cache))"
  using assms cache_valid_Set [OF assms]
  by (auto simp: CheckSig_cached_def CheckSig_plain_def cache_Get_def Let_def split: option.split)
    (auto simp: cache_valid_def list_all_iff)

text \<open>A sequence of calls of \<open>CheckSig\<close> over the life of the process, each with the random hashes it draws.\<close>

record sig_call =
  call_rand :: "nat \<Rightarrow> uint256"
  call_tx :: CTransaction
  call_nIn :: nat
  call_sig :: valtype
  call_pub :: valtype
  call_code :: valtype
  call_hashtype :: int
  call_flags :: u32

fun check_calls :: "crypto \<Rightarrow> int \<Rightarrow> sig_call list \<Rightarrow> sigcache \<Rightarrow> bool list \<times> sigcache" where
  "check_calls c m [] cache = ([], cache)"
| "check_calls c m (k # ks) cache =
     (let (r, cache') = CheckSig_cached c (call_rand k) m (call_tx k) (call_nIn k) (call_sig k) (call_pub k)
            (call_code k) (call_hashtype k) (call_flags k) cache;
          (rs, cache'') = check_calls c m ks cache' in
      (r # rs, cache''))"

definition plain_call :: "crypto \<Rightarrow> sig_call \<Rightarrow> bool" where
  "plain_call c k = CheckSig_plain c (call_tx k) (call_nIn k) (call_sig k) (call_pub k) (call_code k)
     (call_hashtype k) (call_flags k)"

lemma check_calls_valid:
  "cache_valid c m cache \<Longrightarrow> fst (check_calls c m ks cache) = map (plain_call c) ks
     \<and> cache_valid c m (snd (check_calls c m ks cache))"
proof (induction ks arbitrary: cache)
  case (Cons k ks)
  obtain r cache' where s: "CheckSig_cached c (call_rand k) m (call_tx k) (call_nIn k) (call_sig k) (call_pub k)
      (call_code k) (call_hashtype k) (call_flags k) cache = (r, cache')" by fastforce
  then have "r = plain_call c k" "cache_valid c m cache'"
    using CheckSig_cached_step [OF Cons.prems, of "call_rand k" "call_tx k" "call_nIn k" "call_sig k" "call_pub k"
        "call_code k" "call_hashtype k" "call_flags k"] by (simp_all add: plain_call_def)
  then show ?case using Cons.IH [of cache'] by (simp add: s split_beta)
qed simp

text \<open>C5: The signature cache changes no verdict: over the life of the process, whatever the order of the
  checks, the entries evicted at random and the size chosen, every call of \<open>CheckSig\<close> answers as a check
  without a cache would, and the cache stays within one entry of its limit.\<close>

theorem signature_cache_transparent:
  "fst (check_calls c nMaxCacheSize calls []) = map (plain_call c) calls
   \<and> int (length (snd (check_calls c nMaxCacheSize calls []))) \<le> max 0 nMaxCacheSize + 1"
  using check_calls_valid [of c nMaxCacheSize "[]" calls] by (simp add: cache_valid_def)

section \<open>What a signature commits to\<close>

lemma find_and_delete_length: "length (fst (find_and_delete b s pc k)) \<le> length s"
proof (induction b s pc k rule: find_and_delete.induct)
  case (1 b s pc k)
  obtain s' k' ok pc' t where e: "erase_at b s pc k = (s', k')" "GetOp2 s' pc = (ok, pc', t)"
    by (metis prod.collapse)
  then have "length s' \<le> length s" using erase_at_length [of b s pc k] by simp
  moreover have "ok \<Longrightarrow> length (fst (find_and_delete b s' pc' k')) \<le> length s'"
    using 1 [OF e(1) [symmetric] refl e(2) [symmetric]] by (cases t) simp
  ultimately show ?case by (cases ok) (simp_all add: find_and_delete.simps [of b s] e)
qed

lemma FindAndDelete_small: "small s \<Longrightarrow> small (fst (FindAndDelete s b))"
  using find_and_delete_length [of b s 0 0] by (simp add: FindAndDelete_def small_def)

text \<open>The script that is signed, and a hash type that signs all inputs and outputs.\<close>

definition signed_code :: "valtype \<Rightarrow> valtype" where
  "signed_code scriptCode = fst (FindAndDelete scriptCode [word_of_nat OP_CODESEPARATOR])"

definition signs_all :: "int \<Rightarrow> bool" where
  "signs_all nHashType \<longleftrightarrow> (let ht = word_of_int nHashType :: u32 in
     ht AND 0x1f \<noteq> SIGHASH_NONE \<and> ht AND 0x1f \<noteq> SIGHASH_SINGLE \<and> ht AND SIGHASH_ANYONECANPAY = 0)"

definition with_code :: "nat \<Rightarrow> valtype \<Rightarrow> CTransaction \<Rightarrow> CTransaction" where
  "with_code nIn code tx = (let t = blank_sigs tx in
     t\<lparr>vin := (vin t)[nIn := (vin t ! nIn)\<lparr>scriptSig := code\<rparr>]\<rparr>)"

lemma sighash_stream_all:
  "signs_all ht \<Longrightarrow> \<not> IsCoinBase tx \<Longrightarrow> nIn < length (vin tx)
     \<Longrightarrow> sighash_stream c code tx nIn ht
       = Some (ser_word (GetHash c tx) @ ser_tx (with_code nIn (signed_code code) tx) @ ser_word (word_of_int ht :: u32))"
  by (simp add: sighash_stream_def signs_all_def sighash_outputs_def with_code_def signed_code_def Let_def)

lemma blank_with_code: "blank_sigs (with_code nIn code tx) = blank_sigs tx"
proof (cases "nIn < length (vin tx)")
  case True
  then have "map (\<lambda>i. i\<lparr>scriptSig := []\<rparr>) (vin (with_code nIn code tx)) = map (\<lambda>i. i\<lparr>scriptSig := []\<rparr>) (vin tx)"
    by (intro nth_equalityI) (simp_all add: with_code_def blank_sigs_def Let_def nth_list_update)
  then show ?thesis by (simp add: with_code_def blank_sigs_def Let_def)
qed (simp add: with_code_def blank_sigs_def Let_def o_def list_update_beyond)

lemma ok_with_code: "ok_tx tx \<Longrightarrow> small code \<Longrightarrow> ok_tx (with_code nIn code tx)"
  by (auto simp: ok_tx_def with_code_def blank_sigs_def Let_def list_all_iff small_def
      dest!: set_update_subset_insert [THEN subsetD])

lemma scriptSig_with_code:
  "i < length (vin tx) \<Longrightarrow> scriptSig (vin (with_code nIn code tx) ! i) = (if i = nIn then code else [])"
  by (simp add: with_code_def blank_sigs_def Let_def nth_list_update)

text \<open>C6: A signature with the default hash type commits to the whole transaction: two transactions (not
  coinbases) for which the hashed streams are equal have the same inputs, outputs, time, lock time,
  comment and version, up to their signature scripts, the same hash type, and the same script at the
  same input.\<close>

theorem sighash_all_commits:
  assumes "sighash_stream c code tx nIn nHashType = Some ss" "sighash_stream c code' tx' nIn' nHashType' = Some ss"
    and "signs_all nHashType" "signs_all nHashType'" "\<not> IsCoinBase tx" "\<not> IsCoinBase tx'"
    and "ok_tx tx" "ok_tx tx'" "small code" "small code'"
  shows "blank_sigs tx = blank_sigs tx' \<and> (word_of_int nHashType :: u32) = word_of_int nHashType'
    \<and> (signed_code code \<noteq> [] \<longrightarrow> nIn = nIn' \<and> signed_code code = signed_code code')"
proof -
  let ?t = "with_code nIn (signed_code code) tx" and ?t' = "with_code nIn' (signed_code code') tx'"
  have n: "nIn < length (vin tx)" "nIn' < length (vin tx')"
    using assms(1,2) by (auto simp: sighash_stream_def Let_def split: if_splits)
  have ok: "ok_tx ?t" "ok_tx ?t'"
    using assms(7-10) by (auto simp: signed_code_def intro: ok_with_code FindAndDelete_small)
  have "ser_word (GetHash c tx) @ ser_tx ?t @ ser_word (word_of_int nHashType :: u32)
      = ser_word (GetHash c tx') @ ser_tx ?t' @ ser_word (word_of_int nHashType' :: u32)"
    using assms(1-6) n by (simp add: sighash_stream_all)
  then have "ser_tx ?t @ ser_word (word_of_int nHashType :: u32) = ser_tx ?t' @ ser_word (word_of_int nHashType' :: u32)"
    by (simp add: append_eq_append_conv length_ser_word)
  then have t: "?t = ?t'" and "ser_word (word_of_int nHashType :: u32) @ [] = ser_word (word_of_int nHashType' :: u32) @ []"
    using tx.ser_inject [OF ok] by auto
  then have "(word_of_int nHashType :: u32) = word_of_int nHashType'"
    by (metis unser_words(2) option.inject prod.inject)
  moreover have "blank_sigs tx = blank_sigs tx'" using t by (metis blank_with_code)
  moreover have "length (vin tx) = length (vin tx')"
    using arg_cong [OF calculation(2), of "length \<circ> vin"] by (simp add: blank_sigs_def)
  then have "signed_code code = (if nIn = nIn' then signed_code code' else [])"
    using scriptSig_with_code [of nIn tx nIn "signed_code code"] n(1)
      scriptSig_with_code [of nIn tx' nIn' "signed_code code'"] t by simp
  ultimately show ?thesis by auto
qed

lemma sample_tx_ok: "ok_tx sample_tx" "\<not> IsCoinBase sample_tx" "signs_all 1"
  by (simp_all add: ok_tx_def small_def sample_tx_def MAX_SIZE_def IsCoinBase_def outpoint_IsNull_def signs_all_def)

definition sample_crypto :: crypto where
  "sample_crypto = \<lparr>bn_ops = documented_lib, sha256 = (\<lambda>v. take 32 (v @ replicate 32 0)), sha1 = id, ripemd160 = id,
    build_public_key = (\<lambda>_. True), normal_der = Some, evp_verify = (\<lambda>_ _ _. True)\<rparr>"

theorem sighash_all_commits_witness:
  "blank_sigs sample_tx = blank_sigs (sample_tx\<lparr>vin := map (\<lambda>i. i\<lparr>scriptSig := [3]\<rparr>) (vin sample_tx)\<rparr>)"
proof -
  let ?tx = "sample_tx\<lparr>vin := map (\<lambda>i. i\<lparr>scriptSig := [3]\<rparr>) (vin sample_tx)\<rparr>"
  have b: "blank_sigs ?tx = blank_sigs sample_tx" "\<not> IsCoinBase ?tx" "ok_tx ?tx"
    by (simp_all add: blank_sigs_def sample_tx_def IsCoinBase_def outpoint_IsNull_def ok_tx_def small_def MAX_SIZE_def)
  have n: "0 < length (vin sample_tx)" "0 < length (vin ?tx)" by (simp_all add: sample_tx_def)
  let ?ss = "ser_word (GetHash sample_crypto sample_tx) @ ser_tx (with_code 0 (signed_code [0x51]) sample_tx)
    @ ser_word (word_of_int 1 :: u32)"
  have "GetHash sample_crypto ?tx = GetHash sample_crypto sample_tx"
    "with_code 0 (signed_code [0x51]) ?tx = with_code 0 (signed_code [0x51]) sample_tx"
    using b sample_tx_ok(2) by (simp_all add: GetHash_def with_code_def)
  then have "sighash_stream sample_crypto [0x51] ?tx 0 1 = Some ?ss"
    "sighash_stream sample_crypto [0x51] sample_tx 0 1 = Some ?ss"
    using sighash_stream_all [OF sample_tx_ok(3) b(2) n(2)] sighash_stream_all [OF sample_tx_ok(3,2) n(1)] by simp_all
  then show ?thesis
    using sighash_all_commits [of sample_crypto "[0x51]" sample_tx 0 1 ?ss "[0x51]" ?tx 0 1] sample_tx_ok b
    by (simp add: small_def MAX_SIZE_def)
qed



end
