(* ===== verification/Tx_Check.thy ===== *)
theory Tx_Check
  imports Signature
begin

text \<open>
  The checks of a transaction that need no context, and its fees (src/src/main.cpp):
  \<open>CTransaction::CheckTransaction\<close>, \<open>GetValueOut\<close>, \<open>GetMinFee\<close> with the service and \<open>OP_RETURN\<close>
  fees. A rejection carries the misbehaviour score of the peer.
\<close>

definition MAX_BLOCK_SIZE :: nat where
  "MAX_BLOCK_SIZE = 1000000"

definition MAX_BLOCK_SIZE_GEN :: nat where
  "MAX_BLOCK_SIZE_GEN = MAX_BLOCK_SIZE div 2"

abbreviation MAX_TX_COMMENT_LEN :: nat where "MAX_TX_COMMENT_LEN \<equiv> 512"
abbreviation MAX_OP_RET_LEN :: nat where "MAX_OP_RET_LEN \<equiv> 80"

definition FutureDrift :: "bool \<Rightarrow> int \<Rightarrow> int" where
  "FutureDrift fTestNet t = (if fTestNet then t + 7 else t + 17)"

section \<open>CheckTransaction\<close>

definition check_colors :: "CTransaction \<Rightarrow> unit checked" where
  "check_colors tx = (if IsCoinBase tx then Inr ()
     else ebind (at FEE_COLOR (GetColor tx)) (\<lambda>nFeeColor.
       if list_ex (\<lambda>txout. color_of txout \<noteq> GetColor tx \<and> color_of txout \<noteq> nFeeColor) (drop 1 (vout tx))
       then Inl (Reject 100) else Inr ()))"

text \<open>The loop over the outputs, with the running totals \<open>vValueOut\<close>.\<close>

fun check_values :: "bool \<Rightarrow> CTxOut list \<Rightarrow> int list \<Rightarrow> unit checked" where
  "check_values mature [] vValueOut = Inr ()"
| "check_values mature (txout # txouts) vValueOut =
     (if txout_IsEmpty txout \<and> \<not> mature then Inl (Reject 100)
      else if value_of txout < 0 then Inl (Reject 100)
      else ebind (at MAX_MONEY (color_of txout)) (\<lambda>m.
        if value_of txout > m then Inl (Reject 100)
        else ebind (at vValueOut (color_of txout)) (\<lambda>total.
          ebind (int64 (total + value_of txout)) (\<lambda>total.
            ebind (MoneyRange total (color_of txout)) (\<lambda>r.
              if \<not> r then Inl (Reject 100)
              else check_values mature txouts (vValueOut[nat (color_of txout) := total]))))))"

fun check_duplicates :: "CTxIn list \<Rightarrow> COutPoint list \<Rightarrow> unit checked" where
  "check_duplicates [] vInOutPoints = Inr ()"
| "check_duplicates (txin # txins) vInOutPoints =
     (if prevout txin \<in> set vInOutPoints then Inl (Reject 0)
      else check_duplicates txins (prevout txin # vInOutPoints))"

definition check_inputs :: "CTransaction \<Rightarrow> unit checked" where
  "check_inputs tx =
     (if IsCoinBase tx
      then let n = length (scriptSig (vin tx ! 0)) in
        if n < 2 \<or> n > 100 then Inl (Reject 100) else Inr ()
      else if list_ex (\<lambda>txin. outpoint_IsNull (prevout txin)) (vin tx) then Inl (Reject 10) else Inr ())"

definition CheckTransaction :: "bool \<Rightarrow> int \<Rightarrow> CTransaction \<Rightarrow> unit checked" where
  "CheckTransaction fTestNet adjusted_time tx =
     (if vin tx = [] then Inl (Reject 10)
      else if vout tx = [] then Inl (Reject 10)
      else if uint (nTime tx) > FutureDrift fTestNet adjusted_time then Inl (Reject 10)
      else if GetSerializeSize_tx tx > MAX_BLOCK_SIZE then Inl (Reject 100)
      else ebind (check_colors tx) (\<lambda>_.
        ebind (check_values (DoesMature tx) (vout tx) (replicate 58 0)) (\<lambda>_.
        ebind (check_duplicates (vin tx) []) (\<lambda>_.
        ebind (check_inputs tx) (\<lambda>_.
          if length (strTxComment tx) > MAX_TX_COMMENT_LEN then Inl (Reject 10) else Inr ())))))"

section \<open>Values and fees\<close>

fun value_out_loop :: "int \<Rightarrow> CTxOut list \<Rightarrow> int \<Rightarrow> int checked" where
  "value_out_loop color [] nValueOut = Inr nValueOut"
| "value_out_loop color (txout # txouts) nValueOut =
     (if color_of txout \<noteq> color then value_out_loop color txouts nValueOut
      else ebind (int64 (nValueOut + value_of txout)) (\<lambda>nValueOut.
        ebind (MoneyRange (value_of txout) color) (\<lambda>r1.
          ebind (if \<not> r1 then Inr False else MoneyRange nValueOut color) (\<lambda>r2.
            if \<not> r1 \<or> \<not> r2 then Inl Runtime_error else value_out_loop color txouts nValueOut))))"

definition GetValueOut :: "CTransaction \<Rightarrow> int \<Rightarrow> int checked" where
  "GetValueOut tx color = (if IsCoinBase tx then Inl Runtime_error
     else if \<not> CheckColor color then Inl Runtime_error
     else value_out_loop color (vout tx) 0)"

definition GetServiceFee :: "CTransaction \<Rightarrow> int checked" where
  "GetServiceFee tx = ebind (at FEE_COLOR (GetColor tx)) (\<lambda>nFeeColor.
     ebind (at COMMENT_FEE_PER_CHAR nFeeColor) (\<lambda>f. int64 (f * int (length (strTxComment tx)))))"

text \<open>Conversion of an \<open>int64_t\<close> to \<open>int\<close>.\<close>

definition to_int :: "int \<Rightarrow> int" where
  "to_int n = sint (word_of_int n :: u32)"

definition op_ret_fee :: "int \<Rightarrow> CTxOut \<Rightarrow> int checked" where
  "op_ret_fee nFeeColor txout =
     (if length (scriptPubKey txout) > MAX_OP_RET_LEN
      then ebind (at MAX_MONEY nFeeColor) (\<lambda>m. int64 (m + 1))
      else ebind (at OP_RET_FEE_PER_CHAR nFeeColor) (\<lambda>f. int64 (f * int (length (scriptPubKey txout)))))"

fun op_ret_fees :: "int \<Rightarrow> CTxOut list \<Rightarrow> int list checked" where
  "op_ret_fees nFeeColor [] = Inr []"
| "op_ret_fees nFeeColor (txout # txouts) =
     (if IsOpReturn txout
      then ebind (op_ret_fee nFeeColor txout) (\<lambda>f. ebind (op_ret_fees nFeeColor txouts) (\<lambda>fs. Inr (f # fs)))
      else op_ret_fees nFeeColor txouts)"

text \<open>The fees are sorted as \<open>int\<close>, largest first, and added up in an \<open>int\<close>.\<close>

definition GetOpRetFee :: "CTransaction \<Rightarrow> int checked" where
  "GetOpRetFee tx = ebind (at FEE_COLOR (GetColor tx)) (\<lambda>nFeeColor.
     let nFreeSSecrets = length (filter (\<lambda>txout. \<not> IsOpReturn txout) (vout tx)) in
     ebind (op_ret_fees nFeeColor (vout tx)) (\<lambda>vOpRetFees.
       let vOpRetFees = sort_key (\<lambda>f. - to_int f) vOpRetFees in
       Inr (if length vOpRetFees > nFreeSSecrets
         then foldl (\<lambda>nOpRetFee f. to_int (nOpRetFee + f)) 0 (take (length vOpRetFees - nFreeSSecrets) vOpRetFees)
         else 0)))"

datatype GetMinFee_mode = GMF_BLOCK | GMF_RELAY | GMF_SEND

definition extra_fees :: "CTransaction \<Rightarrow> int \<Rightarrow> int checked" where
  "extra_fees tx nMinFee = (if GetFork (uint (nTime tx)) \<ge> 3
     then ebind (GetServiceFee tx) (\<lambda>s. ebind (int64 (nMinFee + s)) (\<lambda>f.
       ebind (GetOpRetFee tx) (\<lambda>r. int64 (f + r))))
     else Inr nMinFee)"

definition GetMinFee :: "CTransaction \<Rightarrow> u32 \<Rightarrow> GetMinFee_mode \<Rightarrow> u32 \<Rightarrow> int checked" where
  "GetMinFee tx nBlockSize mode nBytes =
     (if DoesMature tx then Inr 0
      else ebind (at FEE_COLOR (GetColor tx)) (\<lambda>nFeeColor.
        ebind (at (if mode = GMF_RELAY then MIN_RELAY_TX_FEE else MIN_TX_FEE) nFeeColor) (\<lambda>nBaseFee.
        ebind (at CENT (GetColor tx)) (\<lambda>cent.
        ebind (at MAX_MONEY nFeeColor) (\<lambda>max.
        let nNewBlockSize = unat (nBlockSize + nBytes);
            nMinFee = (1 + uint nBytes div 1000) * nBaseFee;
            nMinFee = (if nMinFee < nBaseFee \<and> list_ex (\<lambda>txout. value_of txout < cent) (vout tx)
              then nBaseFee else nMinFee) in
        if nBlockSize \<noteq> 1 \<and> nNewBlockSize \<ge> MAX_BLOCK_SIZE_GEN div 2 \<and> nNewBlockSize \<ge> MAX_BLOCK_SIZE_GEN
        then Inr max
        else ebind (if nBlockSize \<noteq> 1 \<and> nNewBlockSize \<ge> MAX_BLOCK_SIZE_GEN div 2
            then int64 (nMinFee * int (MAX_BLOCK_SIZE_GEN div (MAX_BLOCK_SIZE_GEN - nNewBlockSize)))
            else Inr nMinFee) (\<lambda>nMinFee.
          ebind (extra_fees tx nMinFee) (\<lambda>nMinFee.
          ebind (MoneyRange nMinFee nFeeColor) (\<lambda>r. Inr (if r then nMinFee else max)))))))))"

section \<open>Correctness of the checks\<close>

text \<open>The amount of one currency in a list of outputs.\<close>

definition color_total :: "int \<Rightarrow> CTxOut list \<Rightarrow> int" where
  "color_total color txouts = sum_list (map value_of (filter (\<lambda>txout. color_of txout = color) txouts))"

lemma color_total_simps [simp]:
  "color_total color [] = 0"
  "color_total color (t # ts) = (if color_of t = color then value_of t + color_total color ts else color_total color ts)"
  by (simp_all add: color_total_def)

lemma color_total_nonneg: "list_all (\<lambda>t. 0 \<le> value_of t) ts \<Longrightarrow> 0 \<le> color_total color ts"
  by (induction ts) auto

lemma int64_ok: "- (2 ^ 63) \<le> n \<Longrightarrow> n < 2 ^ 63 \<Longrightarrow> int64 n = Inr n"
  by (simp add: int64_def)

lemma int64_sum:
  "color_ok c \<Longrightarrow> 0 \<le> a \<Longrightarrow> a \<le> max_money c \<Longrightarrow> 0 \<le> b \<Longrightarrow> b \<le> max_money c \<Longrightarrow> int64 (a + b) = Inr (a + b)"
  using max_money_bounds [of c] by (intro int64_ok) auto

abbreviation colors_ok :: "CTxOut list \<Rightarrow> bool" where
  "colors_ok txouts \<equiv> list_all (\<lambda>txout. color_ok (color_of txout)) txouts"

definition totals_ok :: "int list \<Rightarrow> bool" where
  "totals_ok v \<longleftrightarrow> length v = 58 \<and> (\<forall>c. color_ok c \<longrightarrow> 0 \<le> v ! nat c \<and> v ! nat c \<le> max_money c)"

lemma nth_totals_update:
  "totals_ok v \<Longrightarrow> color_ok c \<Longrightarrow> color_ok d \<Longrightarrow> v[nat c := t] ! nat d = (if d = c then t else v ! nat d)"
  by (cases "d = c") (auto simp: totals_ok_def nth_list_update N_COLORS_def nat_eq_iff)

lemma totals_ok_update:
  assumes "totals_ok v" "color_ok c" "0 \<le> t" "t \<le> max_money c"
  shows "totals_ok (v[nat c := t])"
  using assms nth_totals_update [OF assms(1,2)] unfolding totals_ok_def by simp

lemma totals_ok_zero: "totals_ok (replicate 58 0)"
proof -
  have "replicate 58 0 ! nat c = (0 :: int)" if "color_ok c" for c
    using that by (intro nth_replicate) (simp add: N_COLORS_def nat_less_iff)
  then show ?thesis using max_money_bounds by (simp add: totals_ok_def)
qed

lemma check_values_Cons:
  assumes "totals_ok v" "color_ok (color_of t)" "0 \<le> value_of t" "value_of t \<le> max_money (color_of t)"
    and "txout_IsEmpty t \<Longrightarrow> mature"
  shows "check_values mature (t # ts) v =
    (if v ! nat (color_of t) + value_of t \<le> max_money (color_of t)
     then check_values mature ts (v[nat (color_of t) := v ! nat (color_of t) + value_of t]) else Inl (Reject 100))"
proof -
  have "at v (color_of t) = Inr (v ! nat (color_of t))" "0 \<le> v ! nat (color_of t)"
    "v ! nat (color_of t) \<le> max_money (color_of t)"
    using assms(1,2) by (auto simp: totals_ok_def at_color)
  moreover have "at MAX_MONEY (color_of t) = Inr (max_money (color_of t))"
    using assms(2) by (simp add: at_color max_money_def)
  ultimately show ?thesis
    using assms(2-5) int64_sum [OF assms(2), of "v ! nat (color_of t)" "value_of t"]
    by (auto simp: MoneyRange_color)
qed

lemma check_values_correct:
  assumes "totals_ok v" "colors_ok ts"
  shows "check_values mature ts v = (if list_all (\<lambda>t. (txout_IsEmpty t \<longrightarrow> mature) \<and> 0 \<le> value_of t) ts
      \<and> (\<forall>c. color_ok c \<longrightarrow> v ! nat c + color_total c ts \<le> max_money c) then Inr () else Inl (Reject 100))"
  using assms
proof (induction ts arbitrary: v)
  case Nil
  then show ?case by (auto simp: totals_ok_def)
next
  case (Cons t ts)
  let ?c = "color_of t"
  have c: "color_ok ?c" and cs: "colors_ok ts" using Cons.prems by auto
  have m: "at MAX_MONEY ?c = Inr (max_money ?c)" using c by (simp add: at_color max_money_def)
  have v: "0 \<le> v ! nat ?c" using Cons.prems(1) c by (simp add: totals_ok_def)
  consider "txout_IsEmpty t \<and> \<not> mature \<or> value_of t < 0"
    | (high) "\<not> (txout_IsEmpty t \<and> \<not> mature)" "0 \<le> value_of t" "max_money ?c < value_of t"
    | (ok) "\<not> (txout_IsEmpty t \<and> \<not> mature)" "0 \<le> value_of t" "value_of t \<le> max_money ?c" by linarith
  then show ?case
  proof cases
    case 1
    then show ?thesis by auto
  next
    case high
    have "\<not> v ! nat ?c + color_total ?c (t # ts) \<le> max_money ?c" if "list_all (\<lambda>t. 0 \<le> value_of t) ts"
      using color_total_nonneg [OF that, of ?c] high v by simp
    then show ?thesis using high m c by (auto simp: list_all_iff)
  next
    case ok
    let ?t = "v ! nat ?c + value_of t"
    have e: "check_values mature (t # ts) v =
        (if ?t \<le> max_money ?c then check_values mature ts (v[nat ?c := ?t]) else Inl (Reject 100))"
      using ok by (intro check_values_Cons Cons.prems(1) c) auto
    show ?thesis
    proof (cases "?t \<le> max_money ?c")
      case True
      then have u: "totals_ok (v[nat ?c := ?t])" using Cons.prems(1) c v ok by (intro totals_ok_update) auto
      have "(\<forall>d. color_ok d \<longrightarrow> v[nat ?c := ?t] ! nat d + color_total d ts \<le> max_money d)
          = (\<forall>d. color_ok d \<longrightarrow> v ! nat d + color_total d (t # ts) \<le> max_money d)"
        using nth_totals_update [OF Cons.prems(1) c] by (auto simp: add.assoc)
      then show ?thesis using Cons.IH [OF u cs] True ok unfolding e by auto
    next
      case False
      have "\<not> v ! nat ?c + color_total ?c (t # ts) \<le> max_money ?c" if "list_all (\<lambda>t. 0 \<le> value_of t) ts"
        using color_total_nonneg [OF that, of ?c] False by simp
      then show ?thesis using False c unfolding e by (auto simp: list_all_iff)
    qed
  qed
qed

lemma check_duplicates_correct:
  "check_duplicates ins seen = (if distinct (map prevout ins) \<and> set (map prevout ins) \<inter> set seen = {}
     then Inr () else Inl (Reject 0))"
  by (induction ins arbitrary: seen) auto

text \<open>What a transaction has to satisfy, without the order of the checks.\<close>

definition tx_valid :: "bool \<Rightarrow> int \<Rightarrow> CTransaction \<Rightarrow> bool" where
  "tx_valid fTestNet adjusted_time tx \<longleftrightarrow>
     vin tx \<noteq> [] \<and> vout tx \<noteq> []
     \<and> uint (nTime tx) \<le> FutureDrift fTestNet adjusted_time
     \<and> GetSerializeSize_tx tx \<le> MAX_BLOCK_SIZE
     \<and> (\<not> IsCoinBase tx \<longrightarrow> (\<forall>t \<in> set (vout tx). color_of t \<in> {GetColor tx, FEE_COLOR ! nat (GetColor tx)}))
     \<and> (\<forall>t \<in> set (vout tx). 0 \<le> value_of t \<and> (txout_IsEmpty t \<longrightarrow> DoesMature tx))
     \<and> (\<forall>c. color_ok c \<longrightarrow> color_total c (vout tx) \<le> max_money c)
     \<and> distinct (map prevout (vin tx))
     \<and> (if IsCoinBase tx then length (scriptSig (vin tx ! 0)) \<in> {2..100}
        else \<forall>i \<in> set (vin tx). \<not> outpoint_IsNull (prevout i))
     \<and> length (strTxComment tx) \<le> MAX_TX_COMMENT_LEN"

lemma check_colors_correct:
  assumes "colors_ok (vout tx)" "vout tx \<noteq> []"
  shows "check_colors tx = (if IsCoinBase tx \<or> (\<forall>t \<in> set (vout tx). color_of t \<in> {GetColor tx, FEE_COLOR ! nat (GetColor tx)})
    then Inr () else Inl (Reject 100))"
proof -
  obtain t ts where v: "vout tx = t # ts" using assms(2) by (cases "vout tx") auto
  then have "at FEE_COLOR (GetColor tx) = Inr (FEE_COLOR ! nat (GetColor tx))"
    using assms(1) by (simp add: at_color GetColor_def)
  then show ?thesis using v by (auto simp: check_colors_def list_ex_iff GetColor_def)
qed

lemma CheckTransaction_decides:
  assumes "colors_ok (vout tx)"
  shows "if tx_valid fTestNet adjusted_time tx then CheckTransaction fTestNet adjusted_time tx = Inr ()
    else \<exists>score. CheckTransaction fTestNet adjusted_time tx = Inl (Reject score)"
proof (cases "vin tx = [] \<or> vout tx = []")
  case False
  define A where "A \<longleftrightarrow> (\<not> IsCoinBase tx \<longrightarrow> (\<forall>t \<in> set (vout tx). color_of t \<in> {GetColor tx, FEE_COLOR ! nat (GetColor tx)}))"
  define B where "B \<longleftrightarrow> (\<forall>t \<in> set (vout tx). 0 \<le> value_of t \<and> (txout_IsEmpty t \<longrightarrow> DoesMature tx))
    \<and> (\<forall>c. color_ok c \<longrightarrow> color_total c (vout tx) \<le> max_money c)"
  define D where "D \<longleftrightarrow> distinct (map prevout (vin tx))"
  define E where "E \<longleftrightarrow> (if IsCoinBase tx then length (scriptSig (vin tx ! 0)) \<in> {2..100}
    else \<forall>i \<in> set (vin tx). \<not> outpoint_IsNull (prevout i))"
  have "check_colors tx = (if A then Inr () else Inl (Reject 100))"
    using check_colors_correct [OF assms] False by (cases "IsCoinBase tx") (simp_all add: A_def)
  moreover have "(replicate 58 0 ! nat c :: int) = 0" if "color_ok c" for c
    using that by (intro nth_replicate) (simp add: N_COLORS_def nat_less_iff)
  then have "check_values (DoesMature tx) (vout tx) (replicate 58 0) = (if B then Inr () else Inl (Reject 100))"
    unfolding B_def check_values_correct [OF totals_ok_zero assms] list_all_iff by (intro if_cong) auto
  moreover have "check_duplicates (vin tx) [] = (if D then Inr () else Inl (Reject 0))"
    by (simp add: D_def check_duplicates_correct)
  moreover have "check_inputs tx = (if E then Inr () else Inl (Reject (if IsCoinBase tx then 100 else 10)))"
    by (auto simp: E_def check_inputs_def list_ex_iff Let_def)
  moreover have "tx_valid fTestNet adjusted_time tx \<longleftrightarrow> uint (nTime tx) \<le> FutureDrift fTestNet adjusted_time
      \<and> GetSerializeSize_tx tx \<le> MAX_BLOCK_SIZE \<and> A \<and> B \<and> D \<and> E \<and> length (strTxComment tx) \<le> MAX_TX_COMMENT_LEN"
    using False unfolding tx_valid_def A_def B_def D_def E_def by blast
  ultimately show ?thesis using False by (simp add: CheckTransaction_def)
qed (auto simp: CheckTransaction_def tx_valid_def)

lemma sample_tx_valid: "tx_valid False 1465544400 sample_tx" "colors_ok (vout sample_tx)"
proof -
  have "color_total c (vout sample_tx) \<le> max_money c" if "color_ok c" for c
    using max_money_bounds [OF that] by (simp add: sample_tx_def max_money_def MAX_MONEY_def BASE_COIN_def)
  then show "tx_valid False 1465544400 sample_tx"
    by (simp add: tx_valid_def FutureDrift_def MAX_BLOCK_SIZE_def)
      (simp add: sample_tx_def IsCoinBase_def outpoint_IsNull_def txout_IsEmpty_def GetColor_def
        GetSerializeSize_tx_def size_txin_def size_txout_def size_bytes_def GetSizeOfCompactSize_def)
  show "colors_ok (vout sample_tx)" by (simp add: sample_tx_def N_COLORS_def)
qed

lemma sample_tx_accepted: "CheckTransaction False 1465544400 sample_tx = Inr ()"
  using CheckTransaction_decides [OF sample_tx_valid(2), of False 1465544400] sample_tx_valid(1) by simp

text \<open>C7: On a transaction whose outputs have known colors, \<open>CheckTransaction\<close> decides: it accepts exactly
  the transactions that satisfy the rules, among them that for every currency the outputs together
  stay within its money supply, that no output is spent twice, and that outputs are in the
  currency of the transaction or of its fees; otherwise it rejects, and no sum overflows and no table
  is read out of range on the way.\<close>

theorem CheckTransaction_correct:
  assumes "colors_ok (vout tx)"
  shows "if tx_valid fTestNet adjusted_time tx then CheckTransaction fTestNet adjusted_time tx = Inr ()
    else \<exists>score. CheckTransaction fTestNet adjusted_time tx = Inl (Reject score)"
  by (rule CheckTransaction_decides [OF assms])

theorem CheckTransaction_correct_witness:
  "CheckTransaction False 1465544400 sample_tx = Inr ()"
  using CheckTransaction_correct [OF sample_tx_valid(2), of False 1465544400] sample_tx_valid(1) by simp

text \<open>C38: A color outside the tables in the first output of a received transaction is not rejected but
  used as an index: \<open>CheckTransaction\<close> reads past \<open>FEE_COLOR\<close>, which is undefined behaviour.\<close>

theorem CheckTransaction_unchecked_color:
  assumes "\<not> color_ok (GetColor tx)" "\<not> IsCoinBase tx" "vin tx \<noteq> []" "vout tx \<noteq> []"
    and "uint (nTime tx) \<le> FutureDrift fTestNet adjusted_time" "GetSerializeSize_tx tx \<le> MAX_BLOCK_SIZE"
  shows "CheckTransaction fTestNet adjusted_time tx = Inl Undefined"
proof -
  have "at FEE_COLOR (GetColor tx) = Inl Undefined" using assms(1) by (simp add: at_color)
  then show ?thesis using assms(2-) by (simp add: CheckTransaction_def check_colors_def)
qed

theorem CheckTransaction_unchecked_color_witness:
  "CheckTransaction False 1465544400 (sample_tx\<lparr>vout := [\<lparr>nValue = 5000, nColor = 58, scriptPubKey = [0x51]\<rparr>]\<rparr>)
    = Inl Undefined"
  by (rule CheckTransaction_unchecked_color)
    (simp_all add: sample_tx_def GetColor_def N_COLORS_def IsCoinBase_def outpoint_IsNull_def FutureDrift_def
      GetSerializeSize_tx_def size_txin_def size_txout_def size_bytes_def GetSizeOfCompactSize_def MAX_BLOCK_SIZE_def)

text \<open>\<open>GetValueOut\<close> adds up the outputs of a currency.\<close>

lemma int64_Inr: "int64 n = Inr m \<longleftrightarrow> m = n \<and> - (2 ^ 63) \<le> n \<and> n < 2 ^ 63"
  by (auto simp: int64_def)

lemma value_out_loop_total: "value_out_loop color ts a = Inr r \<Longrightarrow> r = a + color_total color ts"
proof (induction ts arbitrary: a)
  case (Cons t ts)
  show ?case
  proof (cases "color_of t = color")
    case True
    then have "value_out_loop color ts (a + value_of t) = Inr r"
      using Cons.prems by (auto simp: ebind_eq_Inr int64_Inr split: if_splits)
    then have "r = a + value_of t + color_total color ts" by (rule Cons.IH)
    then show ?thesis using True by simp
  qed (use Cons in \<open>auto\<close>)
qed simp

lemma GetValueOut_total: "GetValueOut tx color = Inr r \<Longrightarrow> r = color_total color (vout tx)"
  using value_out_loop_total [of color "vout tx" 0 r] by (simp add: GetValueOut_def split: if_splits)

section \<open>Fees of data outputs\<close>

text \<open>C39: The fee that is meant to make an oversized \<open>OP_RETURN\<close> output unpayable, one more than all
  money, is added up in an \<open>int\<close> and loses its upper half: a transaction in BRK whose only output is
  such an output of any size pays the same fixed fee of 15.69 BRK, far within the money supply.\<close>

theorem oversized_op_return_fee:
  assumes "vout tx = [txout]" "color_of txout = BREAKOUT_COLOR_BRK" "IsOpReturn txout"
    and "length (scriptPubKey txout) > MAX_OP_RET_LEN"
  shows "GetOpRetFee tx = Inr 1569325057
    \<and> op_ret_fee BREAKOUT_COLOR_BRK txout = Inr (max_money BREAKOUT_COLOR_BRK + 1)
    \<and> 1569325057 < max_money BREAKOUT_COLOR_BRK"
proof -
  have f: "at FEE_COLOR (GetColor tx) = Inr 2" "max_money 2 = 100000000000000000"
    using assms(1,2) by (simp_all add: at_def GetColor_def FEE_COLOR_def max_money_def MAX_MONEY_def BASE_COIN_def)
  then have "at MAX_MONEY 2 = Inr 100000000000000000" by (simp add: at_def max_money_def)
  then have o: "op_ret_fee 2 txout = Inr 100000000000000001"
    using assms(4) by (simp add: op_ret_fee_def int64_def)
  have t: "to_int 100000000000000001 = 1569325057" by (simp add: to_int_def)
  then show ?thesis using f o assms(1,3) by (simp add: GetOpRetFee_def)
qed

theorem oversized_op_return_fee_witness:
  "GetOpRetFee (sample_tx\<lparr>vout := [\<lparr>nValue = 0, nColor = 2, scriptPubKey = 0x6a # replicate 90 0\<rparr>]\<rparr>)
    = Inr 1569325057"
  using oversized_op_return_fee [of "sample_tx\<lparr>vout := [\<lparr>nValue = 0, nColor = 2, scriptPubKey = 0x6a # replicate 90 0\<rparr>]\<rparr>"
      "\<lparr>nValue = 0, nColor = 2, scriptPubKey = 0x6a # replicate 90 0\<rparr>"]
  by (simp add: IsOpReturn_def GetOp2_def)

end
