(* ===== verification/Connect.thy ===== *)
theory Connect
  imports Tx_Check
begin

text \<open>
  Spending: how the inputs of a transaction are looked up, checked and marked as spent, and how a
  block's transactions are undone (\<open>FetchInputs\<close>, \<open>ConnectInputs\<close>, \<open>DisconnectInputs\<close> of
  src/src/main.cpp). The transaction index of the database is a map from identifiers to the position of
  a transaction on disk with one position per output, that of the spending transaction or null; the
  memory pool and the block files are maps too. A false result of these functions is \<open>Reject\<close> with
  the score given to the peer.
\<close>

record CDiskTxPos =
  nFile :: u32
  nBlockPos :: u32
  nTxPos :: u32

definition null_pos :: CDiskTxPos where
  "null_pos = \<lparr>nFile = - 1, nBlockPos = 0, nTxPos = 0\<rparr>"

definition pos_IsNull :: "CDiskTxPos \<Rightarrow> bool" where
  "pos_IsNull p \<longleftrightarrow> nFile p = - 1"

record CTxIndex =
  pos :: CDiskTxPos
  vSpent :: "CDiskTxPos list"

type_synonym txdb = "uint256 \<rightharpoonup> CTxIndex"
type_synonym MapPrevTx = "uint256 \<rightharpoonup> CTxIndex \<times> CTransaction"

abbreviation out_n :: "COutPoint \<Rightarrow> nat" where
  "out_n p \<equiv> unat (prev_n p)"

section \<open>Undoing a transaction\<close>

fun disconnect_loop :: "CTxIn list \<Rightarrow> txdb \<Rightarrow> txdb checked" where
  "disconnect_loop [] db = Inr db"
| "disconnect_loop (txin # txins) db =
     (let p = prevout txin in
      case db (prev_hash p) of None \<Rightarrow> Inl (Reject 0)
      | Some txindex \<Rightarrow>
        if out_n p \<ge> length (vSpent txindex) then Inl (Reject 0)
        else disconnect_loop txins (db(prev_hash p \<mapsto> txindex\<lparr>vSpent := (vSpent txindex)[out_n p := null_pos]\<rparr>)))"

definition DisconnectInputs :: "crypto \<Rightarrow> txdb \<Rightarrow> CTransaction \<Rightarrow> txdb checked" where
  "DisconnectInputs c db tx = ebind (if IsCoinBase tx then Inr db else disconnect_loop (vin tx) db)
     (\<lambda>db. Inr (db(GetHash c tx := None)))"

section \<open>Looking up the inputs\<close>

record chain_state =
  txdb :: txdb
  mempool :: "uint256 \<rightharpoonup> CTransaction"
  ReadFromDisk :: "CDiskTxPos \<Rightarrow> CTransaction option"
  best_height :: int
  checkpoint_height :: int
  coinbase_maturity :: int

definition fetch_input :: "chain_state \<Rightarrow> txdb \<Rightarrow> bool \<Rightarrow> bool \<Rightarrow> CTxIn \<Rightarrow> MapPrevTx \<Rightarrow> MapPrevTx checked" where
  "fetch_input cs mapTestPool fBlock fMiner txin inputsRet =
     (let h = prev_hash (prevout txin) in
      if inputsRet h \<noteq> None then Inr inputsRet
      else let txindex = (if (fBlock \<or> fMiner) \<and> mapTestPool h \<noteq> None then mapTestPool h else txdb cs h) in
        (case txindex of
           None \<Rightarrow> if fBlock \<or> fMiner then Inl (Reject 0)
             else (case mempool cs h of None \<Rightarrow> Inl (Reject 0)
               | Some txPrev \<Rightarrow> Inr (inputsRet(h \<mapsto>
                   (\<lparr>pos = null_pos, vSpent = replicate (length (vout txPrev)) null_pos\<rparr>, txPrev))))
         | Some txindex \<Rightarrow>
             if pos txindex = \<lparr>nFile = 1, nBlockPos = 1, nTxPos = 1\<rparr>
             then (case mempool cs h of None \<Rightarrow> Inl (Reject 0)
               | Some txPrev \<Rightarrow> Inr (inputsRet(h \<mapsto> (txindex, txPrev))))
             else (case ReadFromDisk cs (pos txindex) of None \<Rightarrow> Inl (Reject 0)
               | Some txPrev \<Rightarrow> Inr (inputsRet(h \<mapsto> (txindex, txPrev))))))"

fun fetch_loop :: "chain_state \<Rightarrow> txdb \<Rightarrow> bool \<Rightarrow> bool \<Rightarrow> CTxIn list \<Rightarrow> MapPrevTx \<Rightarrow> MapPrevTx checked" where
  "fetch_loop cs mapTestPool fBlock fMiner [] inputsRet = Inr inputsRet"
| "fetch_loop cs mapTestPool fBlock fMiner (txin # txins) inputsRet =
     ebind (fetch_input cs mapTestPool fBlock fMiner txin inputsRet) (fetch_loop cs mapTestPool fBlock fMiner txins)"

fun check_prevouts :: "CTxIn list \<Rightarrow> MapPrevTx \<Rightarrow> unit checked" where
  "check_prevouts [] inputs = Inr ()"
| "check_prevouts (txin # txins) inputs =
     (let p = prevout txin in
      case inputs (prev_hash p) of None \<Rightarrow> Inl Undefined
      | Some (txindex, txPrev) \<Rightarrow>
        if out_n p \<ge> length (vout txPrev) \<or> out_n p \<ge> length (vSpent txindex) then Inl (Reject 100)
        else check_prevouts txins inputs)"

definition FetchInputs :: "chain_state \<Rightarrow> txdb \<Rightarrow> bool \<Rightarrow> bool \<Rightarrow> CTransaction \<Rightarrow> MapPrevTx \<Rightarrow> MapPrevTx checked" where
  "FetchInputs cs mapTestPool fBlock fMiner tx inputsRet =
     (if IsCoinBase tx then Inr inputsRet
      else ebind (fetch_loop cs mapTestPool fBlock fMiner (vin tx) inputsRet) (\<lambda>inputsRet.
        ebind (check_prevouts (vin tx) inputsRet) (\<lambda>_. Inr inputsRet)))"

section \<open>Spending the inputs\<close>

record CBlockIndex =
  idx_height :: int
  idx_nFile :: u32
  idx_nBlockPos :: u32

text \<open>The chain from the block back along \<open>pprev\<close>: a previous coinbase or coinstake found within the
  last \<open>nCoinbaseMaturity\<close> blocks is immature.\<close>

definition immature :: "int \<Rightarrow> CBlockIndex list \<Rightarrow> CTxIndex \<Rightarrow> bool" where
  "immature nCoinbaseMaturity chain txindex =
     list_ex (\<lambda>b. idx_nBlockPos b = nBlockPos (pos txindex) \<and> idx_nFile b = nFile (pos txindex))
       (takeWhile (\<lambda>b. idx_height (hd chain) - idx_height b < nCoinbaseMaturity) chain)"

fun connect_values :: "chain_state \<Rightarrow> CBlockIndex list \<Rightarrow> CTransaction \<Rightarrow> MapPrevTx \<Rightarrow> CTxIn list \<Rightarrow> int list \<Rightarrow> int list checked" where
  "connect_values cs chain tx inputs [] vValueIn = Inr vValueIn"
| "connect_values cs chain tx inputs (txin # txins) vValueIn =
     (let p = prevout txin in
      case inputs (prev_hash p) of None \<Rightarrow> Inl Undefined
      | Some (txindex, txPrev) \<Rightarrow>
        if out_n p \<ge> length (vout txPrev) \<or> out_n p \<ge> length (vSpent txindex) then Inl (Reject 100)
        else if DoesMature txPrev \<and> immature (coinbase_maturity cs) chain txindex then Inl (Reject 0)
        else if nTime txPrev > nTime tx then Inl (Reject 100)
        else let txout = vout txPrev ! out_n p in
          if txout_IsEmpty txout then Inl (Reject 1)
          else ebind (at vValueIn (color_of txout)) (\<lambda>t.
            ebind (int64 (t + value_of txout)) (\<lambda>t.
            ebind (MoneyRange (value_of txout) (color_of txout)) (\<lambda>r1.
            ebind (if r1 then MoneyRange t (color_of txout) else Inr False) (\<lambda>r.
              if \<not> r then Inl (Reject 100)
              else connect_values cs chain tx inputs txins (vValueIn[nat (color_of txout) := t]))))))"

text \<open>The second loop, over the inputs with their numbers: double spends, signatures, and the marks in
  the local copy of the index and in the pool of changes.\<close>

fun connect_spend :: "crypto \<Rightarrow> chain_state \<Rightarrow> CTransaction \<Rightarrow> CDiskTxPos \<Rightarrow> bool \<Rightarrow> bool \<Rightarrow> u32 \<Rightarrow> (nat \<times> CTxIn) list
    \<Rightarrow> MapPrevTx \<Rightarrow> txdb \<Rightarrow> (MapPrevTx \<times> txdb) checked" where
  "connect_spend c cs tx posThisTx fBlock fMiner flags [] inputs mapTestPool = Inr (inputs, mapTestPool)"
| "connect_spend c cs tx posThisTx fBlock fMiner flags ((i, txin) # txins) inputs mapTestPool =
     (let p = prevout txin in
      case inputs (prev_hash p) of None \<Rightarrow> Inl Undefined
      | Some (txindex, txPrev) \<Rightarrow>
        if out_n p \<ge> length (vSpent txindex) then Inl Undefined
        else if \<not> pos_IsNull (vSpent txindex ! out_n p) then Inl (Reject 0)
        else ebind (if fBlock \<and> best_height cs < checkpoint_height cs then Inr True
            else VerifySignature c txPrev tx i flags 0) (\<lambda>ok.
          if \<not> ok then Inl (Reject 100)
          else let txindex' = txindex\<lparr>vSpent := (vSpent txindex)[out_n p := posThisTx]\<rparr> in
            connect_spend c cs tx posThisTx fBlock fMiner flags txins (inputs(prev_hash p \<mapsto> (txindex', txPrev)))
              (if fBlock \<or> fMiner then mapTestPool(prev_hash p \<mapsto> txindex') else mapTestPool)))"

fun check_conserved :: "CTransaction \<Rightarrow> int list \<Rightarrow> nat list \<Rightarrow> unit checked" where
  "check_conserved tx vValueIn [] = Inr ()"
| "check_conserved tx vValueIn (i # is) = ebind (GetValueOut tx (int i)) (\<lambda>out.
     if vValueIn ! i < out then Inl (Reject 100) else check_conserved tx vValueIn is)"

text \<open>\<open>FillValuesOut\<close> into a \<open>ColorsMap\<close>.\<close>

fun fill_values_out :: "CTxOut list \<Rightarrow> (int \<rightharpoonup> int) \<Rightarrow> (int \<rightharpoonup> int) checked" where
  "fill_values_out [] m = Inr m"
| "fill_values_out (txout # txouts) m =
     (if value_of txout \<noteq> 0
      then (case m (color_of txout) of None \<Rightarrow> fill_values_out txouts (m(color_of txout \<mapsto> value_of txout))
        | Some v \<Rightarrow> ebind (int64 (v + value_of txout)) (\<lambda>v. fill_values_out txouts (m(color_of txout \<mapsto> v))))
      else fill_values_out txouts m)"

definition ColorsMap_Get :: "(int \<rightharpoonup> int) \<Rightarrow> int \<Rightarrow> int" where
  "ColorsMap_Get m color = (case m color of None \<Rightarrow> 0 | Some v \<Rightarrow> v)"

definition check_fees :: "CTransaction \<Rightarrow> bool \<Rightarrow> int list \<Rightarrow> unit checked" where
  "check_fees tx fBlock vValueIn =
     ebind (at FEE_COLOR (GetColor tx)) (\<lambda>nFeeColor.
     ebind (at vValueIn (GetColor tx)) (\<lambda>vIn.
     ebind (at vValueIn nFeeColor) (\<lambda>vFeeIn.
     ebind (if GetColor tx = nFeeColor
         then ebind (GetValueOut tx (GetColor tx)) (\<lambda>out. ebind (int64 (vIn - out)) (\<lambda>f. Inr (f, 0)))
         else ebind (fill_values_out (vout tx) Map.empty) (\<lambda>m.
           ebind (int64 (vFeeIn - ColorsMap_Get m nFeeColor)) (\<lambda>f.
           ebind (int64 (vIn - ColorsMap_Get m (GetColor tx))) (\<lambda>ch. Inr (f, ch)))))
       (\<lambda>(nTxFee, nTxChangeFee).
     if nTxFee < 0 \<or> nTxChangeFee < 0 then Inl (Reject 100)
     else ebind (GetMinFee tx 1 GMF_BLOCK 0) (\<lambda>nMinFee.
       if nTxFee < nMinFee then Inl (Reject (if fBlock then 100 else 0))
       else ebind (MoneyRange nTxFee nFeeColor) (\<lambda>r1. if \<not> r1 then Inl (Reject 100)
         else ebind (MoneyRange nTxChangeFee (GetColor tx)) (\<lambda>r2. if \<not> r2 then Inl (Reject 100) else Inr ())))))))"

definition ConnectInputs :: "crypto \<Rightarrow> chain_state \<Rightarrow> CBlockIndex list \<Rightarrow> CTransaction \<Rightarrow> MapPrevTx \<Rightarrow> txdb \<Rightarrow> CDiskTxPos
    \<Rightarrow> bool \<Rightarrow> bool \<Rightarrow> u32 \<Rightarrow> (MapPrevTx \<times> txdb) checked" where
  "ConnectInputs c cs chain tx inputs mapTestPool posThisTx fBlock fMiner flags =
     (if IsCoinBase tx then Inr (inputs, mapTestPool)
      else ebind (connect_values cs chain tx inputs (vin tx) (replicate 58 0)) (\<lambda>vValueIn.
        ebind (at FEE_COLOR (GetColor tx)) (\<lambda>_.
        ebind (connect_spend c cs tx posThisTx fBlock fMiner flags (enumerate 0 (vin tx)) inputs mapTestPool) (\<lambda>r.
        ebind (check_conserved tx vValueIn [1..<58]) (\<lambda>_.
        ebind (if IsCoinStake tx then Inr () else check_fees tx fBlock vValueIn) (\<lambda>_. Inr r))))))"

section \<open>What spending does to the index\<close>

text \<open>\<open>mark x ps h vs\<close>: the positions \<open>vs\<close> of transaction \<open>h\<close> with \<open>x\<close> at the outputs among \<open>ps\<close>.\<close>

definition mark :: "CDiskTxPos \<Rightarrow> COutPoint list \<Rightarrow> uint256 \<Rightarrow> CDiskTxPos list \<Rightarrow> CDiskTxPos list" where
  "mark x ps h vs = fold (\<lambda>p vs. if prev_hash p = h then vs[out_n p := x] else vs) ps vs"

lemma mark_simps [simp]:
  "mark x [] h vs = vs"
  "mark x (p # ps) h vs = mark x ps h (if prev_hash p = h then vs[out_n p := x] else vs)"
  by (simp_all add: mark_def)

lemma length_mark [simp]: "length (mark x ps h vs) = length vs"
  by (induction ps arbitrary: vs) auto

lemma nth_mark:
  "k < length vs \<Longrightarrow> mark x ps h vs ! k = (if \<exists>p \<in> set ps. prev_hash p = h \<and> out_n p = k then x else vs ! k)"
  by (induction ps arbitrary: vs) (auto simp: nth_list_update)

lemma mark_mark:
  assumes "\<And>p. p \<in> set ps \<Longrightarrow> prev_hash p = h \<Longrightarrow> out_n p < length vs \<Longrightarrow> vs ! out_n p = y"
  shows "mark y ps h (mark x ps h vs) = vs"
  by (rule nth_equalityI) (use assms in \<open>auto simp: nth_mark\<close>)

definition mark_index :: "CDiskTxPos \<Rightarrow> COutPoint list \<Rightarrow> uint256 \<Rightarrow> CTxIndex \<Rightarrow> CTxIndex" where
  "mark_index x ps h ix = ix\<lparr>vSpent := mark x ps h (vSpent ix)\<rparr>"

lemma mark_index_simps [simp]:
  "mark_index x [] h ix = ix"
  "mark_index x (p # ps) h ix
     = mark_index x ps h (if prev_hash p = h then ix\<lparr>vSpent := (vSpent ix)[out_n p := x]\<rparr> else ix)"
  by (simp_all add: mark_index_def)

lemma mark_index_other [simp]: "prev_hash p \<noteq> h \<Longrightarrow> mark_index x (p # ps) h = mark_index x ps h"
  by (rule ext) simp

lemma mark_index_none: "h \<notin> prev_hash ` set ps \<Longrightarrow> mark_index x ps h ix = ix"
  by (induction ps) auto

text \<open>An output that is spent in the local index cannot be spent by the loop.\<close>

definition spent :: "MapPrevTx \<Rightarrow> COutPoint \<Rightarrow> bool" where
  "spent inputs p \<longleftrightarrow> (case inputs (prev_hash p) of None \<Rightarrow> False
     | Some (ix, _) \<Rightarrow> out_n p < length (vSpent ix) \<and> \<not> pos_IsNull (vSpent ix ! out_n p))"

abbreviation prevouts :: "(nat \<times> CTxIn) list \<Rightarrow> COutPoint list" where
  "prevouts txins \<equiv> map (\<lambda>(i, txin). prevout txin) txins"

lemma connect_spend_Cons:
  assumes "connect_spend c cs tx x fb fm flags ((i, txin) # txins) inputs pool = Inr r"
  obtains ix txPrev where "inputs (prev_hash (prevout txin)) = Some (ix, txPrev)"
    "out_n (prevout txin) < length (vSpent ix)" "pos_IsNull (vSpent ix ! out_n (prevout txin))"
    "fb \<and> best_height cs < checkpoint_height cs \<or> VerifySignature c txPrev tx i flags 0 = Inr True"
    "connect_spend c cs tx x fb fm flags txins
       (inputs(prev_hash (prevout txin) \<mapsto> (ix\<lparr>vSpent := (vSpent ix)[out_n (prevout txin) := x]\<rparr>, txPrev)))
       (if fb \<or> fm then pool(prev_hash (prevout txin) \<mapsto> ix\<lparr>vSpent := (vSpent ix)[out_n (prevout txin) := x]\<rparr>) else pool)
     = Inr r"
  using assms that by (auto simp: Let_def ebind_eq_Inr split: option.splits if_splits)

lemma spent_not_respent:
  "spent inputs p \<Longrightarrow> \<not> pos_IsNull x \<Longrightarrow> p \<in> set (prevouts txins)
     \<Longrightarrow> connect_spend c cs tx x fb fm flags txins inputs pool \<noteq> Inr r"
proof (induction txins arbitrary: inputs pool)
  case (Cons a txins)
  obtain i txin where a: "a = (i, txin)" by (cases a)
  show ?case
  proof
    assume "connect_spend c cs tx x fb fm flags (a # txins) inputs pool = Inr r"
    then have s: "connect_spend c cs tx x fb fm flags ((i, txin) # txins) inputs pool = Inr r" by (simp only: a)
    then show False
    proof (rule connect_spend_Cons)
      fix ix :: CTxIndex and txPrev :: CTransaction
      let ?q = "prevout txin"
      assume q: "inputs (prev_hash ?q) = Some (ix, txPrev)" "out_n ?q < length (vSpent ix)"
        "pos_IsNull (vSpent ix ! out_n ?q)"
        and r: "connect_spend c cs tx x fb fm flags txins
          (inputs(prev_hash ?q \<mapsto> (ix\<lparr>vSpent := (vSpent ix)[out_n ?q := x]\<rparr>, txPrev)))
          (if fb \<or> fm then pool(prev_hash ?q \<mapsto> ix\<lparr>vSpent := (vSpent ix)[out_n ?q := x]\<rparr>) else pool) = Inr r"
      have "spent (inputs(prev_hash ?q \<mapsto> (ix\<lparr>vSpent := (vSpent ix)[out_n ?q := x]\<rparr>, txPrev))) p"
        using Cons.prems(1,2) q by (auto simp: spent_def nth_list_update)
      moreover have "p \<noteq> ?q" using Cons.prems(1) q by (auto simp: spent_def)
      ultimately show False using Cons.IH r Cons.prems(2,3) by (auto simp: a)
    qed
  qed
qed simp

text \<open>The result of the loop: the local index and, for blocks, the pool of changes have the marks.\<close>

definition marked_pool :: "CDiskTxPos \<Rightarrow> COutPoint list \<Rightarrow> MapPrevTx \<Rightarrow> txdb \<Rightarrow> txdb" where
  "marked_pool x ps inputs pool = (\<lambda>h. if h \<in> prev_hash ` set ps then map_option (mark_index x ps h \<circ> fst) (inputs h)
     else pool h)"

lemma connect_spend_result:
  assumes "connect_spend c cs tx x fb fm flags txins inputs pool = Inr (inputs', pool')" "\<not> pos_IsNull x"
  shows "distinct (prevouts txins)
    \<and> (\<forall>(i, txin) \<in> set txins. \<exists>ix txPrev. inputs (prev_hash (prevout txin)) = Some (ix, txPrev)
         \<and> out_n (prevout txin) < length (vSpent ix) \<and> pos_IsNull (vSpent ix ! out_n (prevout txin))
         \<and> (fb \<and> best_height cs < checkpoint_height cs \<or> VerifySignature c txPrev tx i flags 0 = Inr True))
    \<and> inputs' = (\<lambda>h. map_option (map_prod (mark_index x (prevouts txins) h) id) (inputs h))
    \<and> pool' = (if fb \<or> fm then marked_pool x (prevouts txins) inputs pool else pool)"
  using assms
proof (induction txins arbitrary: inputs pool)
  case Nil
  then show ?case by (auto simp: marked_pool_def map_prod_def option.map_ident fun_eq_iff)
next
  case (Cons a txins)
  obtain i txin where a: "a = (i, txin)" by (cases a)
  have "connect_spend c cs tx x fb fm flags ((i, txin) # txins) inputs pool = Inr (inputs', pool')"
    using Cons.prems(1) by (simp only: a)
  then show ?case
  proof (rule connect_spend_Cons)
    fix ix :: CTxIndex and txPrev :: CTransaction
    let ?q = "prevout txin"
    let ?ix = "ix\<lparr>vSpent := (vSpent ix)[out_n ?q := x]\<rparr>"
    let ?in = "inputs(prev_hash ?q \<mapsto> (?ix, txPrev))" and ?pool = "if fb \<or> fm then pool(prev_hash ?q \<mapsto> ?ix) else pool"
    assume q: "inputs (prev_hash ?q) = Some (ix, txPrev)" "out_n ?q < length (vSpent ix)"
      "pos_IsNull (vSpent ix ! out_n ?q)"
      and v: "fb \<and> best_height cs < checkpoint_height cs \<or> VerifySignature c txPrev tx i flags 0 = Inr True"
      and r: "connect_spend c cs tx x fb fm flags txins ?in ?pool = Inr (inputs', pool')"
    note IH = Cons.IH [OF r Cons.prems(2)]
    then have i': "inputs' = (\<lambda>h. map_option (map_prod (mark_index x (prevouts txins) h) id) (?in h))"
      and p': "pool' = (if fb \<or> fm then marked_pool x (prevouts txins) ?in ?pool else ?pool)"
      and d: "distinct (prevouts txins)" by blast+
    have "spent ?in ?q" using q Cons.prems(2) by (simp add: spent_def)
    then have n: "?q \<notin> set (prevouts txins)" using spent_not_respent [OF _ Cons.prems(2)] r by metis
    have ri: "inputs' = (\<lambda>h. map_option (map_prod (mark_index x (prevouts (a # txins)) h) id) (inputs h))"
      using q unfolding i' by (simp add: a fun_eq_iff)
    have rp: "pool' = (if fb \<or> fm then marked_pool x (prevouts (a # txins)) inputs pool else pool)"
      using q mark_index_none [of "prev_hash ?q" "prevouts txins" x ?ix]
      unfolding p' by (simp add: a marked_pool_def fun_eq_iff)
    have o: "\<exists>ix' t. inputs (prev_hash (prevout txin')) = Some (ix', t) \<and> out_n (prevout txin') < length (vSpent ix')
        \<and> pos_IsNull (vSpent ix' ! out_n (prevout txin'))
        \<and> (fb \<and> best_height cs < checkpoint_height cs \<or> VerifySignature c t tx j flags 0 = Inr True)"
      if "(j, txin') \<in> set txins" for j txin'
    proof -
      have "prevout txin' \<noteq> ?q" using n that by force
      then show ?thesis using conjunct1 [OF conjunct2 [OF IH], THEN bspec, OF that] q
        by (auto simp: nth_list_update split: if_splits)
    qed
    show ?case
    proof (intro conjI)
      show "distinct (prevouts (a # txins))" using d n by (simp add: a)
      show "\<forall>(j, txin') \<in> set (a # txins). \<exists>ix txPrev. inputs (prev_hash (prevout txin')) = Some (ix, txPrev)
         \<and> out_n (prevout txin') < length (vSpent ix) \<and> pos_IsNull (vSpent ix ! out_n (prevout txin'))
         \<and> (fb \<and> best_height cs < checkpoint_height cs \<or> VerifySignature c txPrev tx j flags 0 = Inr True)"
        unfolding a list.set ball_simps using o q v by blast
    qed (fact ri rp)+
  qed
qed

section \<open>Conservation of every currency\<close>

text \<open>The outputs that inputs spend.\<close>

definition spent_output :: "MapPrevTx \<Rightarrow> CTxIn \<Rightarrow> CTxOut" where
  "spent_output inputs txin = vout (snd (the (inputs (prev_hash (prevout txin))))) ! out_n (prevout txin)"

lemma at_Inr: "at t i = Inr v \<longleftrightarrow> 0 \<le> i \<and> i < int (length t) \<and> v = t ! nat i"
  by (auto simp: at_def)

lemma MoneyRange_Inr_True: "MoneyRange v c = Inr True \<Longrightarrow> color_ok c \<and> 0 \<le> v"
  by (auto simp: MoneyRange_def ebind_eq_Inr at_color split: if_splits)

lemma connect_values_total:
  "connect_values cs chain tx inputs txins v = Inr v' \<Longrightarrow> length v = 58 \<Longrightarrow>
     length v' = 58
     \<and> list_all (\<lambda>t. color_ok (color_of t) \<and> 0 \<le> value_of t) (map (spent_output inputs) txins)
     \<and> (\<forall>c. color_ok c \<longrightarrow> v' ! nat c = v ! nat c + color_total c (map (spent_output inputs) txins))"
proof (induction txins arbitrary: v)
  case (Cons txin txins)
  let ?t = "spent_output inputs txin"
  have "color_ok (color_of ?t)" "0 \<le> value_of ?t"
    and r: "connect_values cs chain tx inputs txins (v[nat (color_of ?t) := v ! nat (color_of ?t) + value_of ?t]) = Inr v'"
    using Cons.prems by (auto simp: Let_def ebind_eq_Inr at_Inr int64_Inr spent_output_def
        split: option.splits if_splits dest: MoneyRange_Inr_True)
  moreover have "v[nat (color_of ?t) := a] ! nat c = (if c = color_of ?t then a else v ! nat c)"
    if "color_ok c" "color_ok (color_of ?t)" for a c
    using that Cons.prems(2) by (cases "c = color_of ?t") (auto simp: nth_list_update N_COLORS_def nat_eq_iff)
  ultimately show ?case using Cons.IH [OF r] Cons.prems(2) by simp
qed simp

lemma check_conserved_total:
  "check_conserved tx v is = Inr () \<Longrightarrow> \<forall>i \<in> set is. color_total (int i) (vout tx) \<le> v ! i"
  by (induction "is") (auto simp: ebind_eq_Inr dest: GetValueOut_total split: if_splits)

lemma color_total_none: "list_all (\<lambda>t. color_of t \<noteq> c) ts \<Longrightarrow> color_total c ts = 0"
  by (induction ts) auto

lemma connect_conserves:
  assumes "connect_values cs chain tx inputs (vin tx) (replicate 58 0) = Inr v"
    and "check_conserved tx v [1..<58] = Inr ()" "colors_ok (vout tx)" "color_total 0 (vout tx) \<le> 0"
  shows "color_total c (vout tx) \<le> color_total c (map (spent_output inputs) (vin tx))"
proof (cases "color_ok c")
  case True
  note v = connect_values_total [OF assms(1), simplified]
  have n: "list_all (\<lambda>t. 0 \<le> value_of t) (map (spent_output inputs) (vin tx))" using v by (auto simp: list_all_iff)
  have e: "v ! nat c = color_total c (map (spent_output inputs) (vin tx))"
    using v True nth_replicate [of "nat c" 58 "0 :: int"] by (simp add: N_COLORS_def nat_less_iff)
  show ?thesis
  proof (cases "c = 0")
    case True
    then show ?thesis using assms(4) color_total_nonneg [OF n, of c] by simp
  next
    case False
    then have "nat c \<in> set [1..<58]" using True by (auto simp: N_COLORS_def)
    then show ?thesis using check_conserved_total [OF assms(2)] e True by force
  qed
next
  case False
  then have "list_all (\<lambda>t. color_of t \<noteq> c) (vout tx)" using assms(3) by (auto simp: list_all_iff)
  moreover have "list_all (\<lambda>t. color_of t \<noteq> c) (map (spent_output inputs) (vin tx))"
    using connect_values_total [OF assms(1)] False by (auto simp: list_all_iff)
  ultimately show ?thesis by (simp add: color_total_none del: map_map)
qed

lemma prevouts_enumerate: "prevouts (enumerate k txins) = map prevout txins"
  by (induction txins arbitrary: k) auto


definition sample_prev :: CTransaction where
  "sample_prev = sample_tx\<lparr>nTime := 1465544399, vin := [],
     vout := [\<lparr>nValue = 3000000, nColor = 2, scriptPubKey = [0x51]\<rparr>]\<rparr>"

definition sample_index :: CTxIndex where
  "sample_index = \<lparr>pos = \<lparr>nFile = 1, nBlockPos = 80, nTxPos = 161\<rparr>, vSpent = [null_pos]\<rparr>"

definition sample_chain :: chain_state where
  "sample_chain = \<lparr>txdb = [7 \<mapsto> sample_index], mempool = Map.empty, ReadFromDisk = (\<lambda>_. Some sample_prev),
     best_height = 5, checkpoint_height = 10, coinbase_maturity = 240\<rparr>"

abbreviation sample_pos :: CDiskTxPos where
  "sample_pos \<equiv> \<lparr>nFile = 1, nBlockPos = 500, nTxPos = 581\<rparr>"

definition spent_index :: CTxIndex where
  "spent_index = sample_index\<lparr>vSpent := [sample_pos]\<rparr>"

lemma sample_fetch:
  "FetchInputs sample_chain Map.empty True False sample_tx Map.empty = Inr [7 \<mapsto> (sample_index, sample_prev)]"
  by (simp add: FetchInputs_def IsCoinBase_def outpoint_IsNull_def sample_tx_def fetch_input_def sample_chain_def
      sample_index_def sample_prev_def)

lemma sample_values:
  "connect_values sample_chain [] sample_tx [7 \<mapsto> (sample_index, sample_prev)] (vin sample_tx) (replicate 58 0)
    = Inr ((replicate 58 0)[2 := 3000000])"
  by (simp add: sample_tx_def sample_prev_def sample_index_def DoesMature_def IsCoinBase_def IsCoinStake_def
      txout_IsEmpty_def at_def int64_def MoneyRange_def MAX_MONEY_def BASE_COIN_def nth_replicate)

lemma sample_conserved: "check_conserved sample_tx ((replicate 58 0)[2 := 3000000]) [1..<58] = Inr ()"
proof -
  let ?v = "(replicate 58 0)[2 := 3000000] :: int list"
  have o: "GetValueOut sample_tx (int i) = Inr (if i = 2 then 5000 else 0)" if "i \<in> set [1..<58]" for i
    using that by (auto simp: GetValueOut_def IsCoinBase_def outpoint_IsNull_def CheckColor_def N_COLORS_def
        sample_tx_def int64_def MoneyRange_def at_def MAX_MONEY_def BASE_COIN_def)
  moreover have "?v ! i = (if i = 2 then 3000000 else 0)" if "i \<in> set [1..<58]" for i
    using that by (auto simp: nth_list_update nth_replicate)
  ultimately have "set xs \<subseteq> set [1..<58] \<Longrightarrow> check_conserved sample_tx ?v xs = Inr ()" for xs
    by (induction xs) (auto split: if_splits)
  then show ?thesis by blast
qed

lemma sample_fees: "check_fees sample_tx True ((replicate 58 0)[2 := 3000000]) = Inr ()"
proof -
  have f: "at FEE_COLOR 2 = Inr 2" "at MIN_TX_FEE 2 = Inr 1000000" "at CENT 2 = Inr 1000000"
    "at MAX_MONEY 2 = Inr 100000000000000000"
    by (simp_all add: at_def FEE_COLOR_def MIN_TX_FEE_def CENT_def MAX_MONEY_def BASE_COIN_def BASE_CENT_def)
  then have r: "MoneyRange 0 2 = Inr True" "MoneyRange 2995000 2 = Inr True" "MoneyRange 5000 2 = Inr True"
    "MoneyRange 1000000 2 = Inr True"
    by (simp_all add: MoneyRange_def)
  have g: "GetColor sample_tx = 2" "\<not> DoesMature sample_tx" "\<not> IsCoinBase sample_tx" "GetFork (uint (nTime sample_tx)) = 0"
    by (simp_all add: GetColor_def sample_tx_def DoesMature_def IsCoinBase_def IsCoinStake_def outpoint_IsNull_def
        txout_IsEmpty_def GetFork_def FORK_TIMES_def)
  then have "GetMinFee sample_tx 1 GMF_BLOCK 0 = Inr 1000000" using f r
    by (simp add: GetMinFee_def extra_fees_def sample_tx_def)
  moreover have "GetValueOut sample_tx 2 = Inr 5000"
    using g r by (simp add: GetValueOut_def CheckColor_def N_COLORS_def sample_tx_def int64_def)
  ultimately show ?thesis using f r g by (simp add: check_fees_def at_def int64_def)
qed

lemma sample_connects:
  "ConnectInputs c sample_chain [] sample_tx [7 \<mapsto> (sample_index, sample_prev)] Map.empty sample_pos True False 0
    = Inr ([7 \<mapsto> (spent_index, sample_prev)], [7 \<mapsto> spent_index])"
proof -
  have "at FEE_COLOR (GetColor sample_tx) = Inr 2" "\<not> IsCoinBase sample_tx" "\<not> IsCoinStake sample_tx"
    by (simp_all add: at_def FEE_COLOR_def GetColor_def sample_tx_def IsCoinBase_def IsCoinStake_def outpoint_IsNull_def
        txout_IsEmpty_def)
  moreover have "connect_spend c sample_chain sample_tx sample_pos True False 0 (enumerate 0 (vin sample_tx))
      [7 \<mapsto> (sample_index, sample_prev)] Map.empty = Inr ([7 \<mapsto> (spent_index, sample_prev)], [7 \<mapsto> spent_index])"
    by (simp add: sample_tx_def sample_index_def spent_index_def pos_IsNull_def null_pos_def sample_chain_def Let_def)
  ultimately show ?thesis
    by (simp add: ConnectInputs_def sample_values sample_conserved [unfolded One_nat_def] sample_fees)
qed


section \<open>Connecting and disconnecting\<close>

lemma disconnect_loop_marks:
  assumes "\<And>p. p \<in> prevout ` set txins \<Longrightarrow> \<exists>ix. db (prev_hash p) = Some ix \<and> out_n p < length (vSpent ix)"
  shows "disconnect_loop txins db = Inr (\<lambda>h. map_option (mark_index null_pos (map prevout txins) h) (db h))"
  using assms
proof (induction txins arbitrary: db)
  case Nil
  then show ?case by (simp add: fun_eq_iff option.map_ident)
next
  case (Cons txin txins)
  let ?q = "prevout txin"
  obtain ix where q: "db (prev_hash ?q) = Some ix" "out_n ?q < length (vSpent ix)"
    using Cons.prems [of ?q] by auto
  let ?db = "db(prev_hash ?q \<mapsto> ix\<lparr>vSpent := (vSpent ix)[out_n ?q := null_pos]\<rparr>)"
  have "disconnect_loop txins ?db = Inr (\<lambda>h. map_option (mark_index null_pos (map prevout txins) h) (?db h))"
  proof (rule Cons.IH)
    fix p
    assume "p \<in> prevout ` set txins"
    then show "\<exists>ix. ?db (prev_hash p) = Some ix \<and> out_n p < length (vSpent ix)"
      using Cons.prems [of p] q by auto
  qed
  moreover have "(\<lambda>h. map_option (mark_index null_pos (map prevout txins) h) (?db h))
      = (\<lambda>h. map_option (mark_index null_pos (map prevout (txin # txins)) h) (db h))"
  proof
    fix h
    show "map_option (mark_index null_pos (map prevout txins) h) (?db h)
        = map_option (mark_index null_pos (map prevout (txin # txins)) h) (db h)"
      using q by (cases "h = prev_hash ?q") simp_all
  qed
  ultimately show ?case using q by (simp add: Let_def del: mark_index_simps mark_index_other)
qed

declare map_add_SomeD [rule del]

text \<open>The index a block sees: the database with the pending changes of the block.\<close>

abbreviation block_view :: "chain_state \<Rightarrow> txdb \<Rightarrow> txdb" where
  "block_view cs pool \<equiv> txdb cs ++ pool"

definition from_view :: "chain_state \<Rightarrow> txdb \<Rightarrow> MapPrevTx \<Rightarrow> bool" where
  "from_view cs pool inputs \<longleftrightarrow> (\<forall>h ix t. inputs h = Some (ix, t) \<longrightarrow> block_view cs pool h = Some ix)"

lemma fetch_input_cases:
  "fetch_input cs pool True fMiner txin inputs = Inr inputs' \<Longrightarrow> inputs' = inputs
     \<or> (\<exists>ix t. block_view cs pool (prev_hash (prevout txin)) = Some ix
         \<and> inputs' = inputs(prev_hash (prevout txin) \<mapsto> (ix, t)))"
  by (auto simp: fetch_input_def Let_def map_add_def split: if_splits option.splits)

lemma from_view_upd: "from_view cs pool inputs \<Longrightarrow> block_view cs pool h = Some ix \<Longrightarrow> from_view cs pool (inputs(h \<mapsto> (ix, t)))"
  by (simp add: from_view_def)

lemma fetch_input_view:
  assumes "fetch_input cs pool True fMiner txin inputs = Inr inputs'" "from_view cs pool inputs"
  shows "from_view cs pool inputs'"
  using fetch_input_cases [OF assms(1)]
proof
  assume "\<exists>ix t. block_view cs pool (prev_hash (prevout txin)) = Some ix
    \<and> inputs' = inputs(prev_hash (prevout txin) \<mapsto> (ix, t))"
  then obtain ix t where "block_view cs pool (prev_hash (prevout txin)) = Some ix"
    "inputs' = inputs(prev_hash (prevout txin) \<mapsto> (ix, t))" by blast
  then show ?thesis using from_view_upd [OF assms(2)] by simp
qed (use assms(2) in simp)

lemma fetch_loop_view:
  "fetch_loop cs pool True fMiner txins inputs = Inr inputs' \<Longrightarrow> from_view cs pool inputs \<Longrightarrow> from_view cs pool inputs'"
proof (induction txins arbitrary: inputs)
  case (Cons txin txins)
  then obtain i where "fetch_input cs pool True fMiner txin inputs = Inr i" "fetch_loop cs pool True fMiner txins i = Inr inputs'"
    by (auto simp: ebind_eq_Inr)
  then show ?case using Cons.IH fetch_input_view Cons.prems(2) by blast
qed simp

lemma FetchInputs_view:
  assumes "FetchInputs cs pool True fMiner tx Map.empty = Inr inputs"
  shows "from_view cs pool inputs"
proof (cases "IsCoinBase tx")
  case False
  then have "fetch_loop cs pool True fMiner (vin tx) Map.empty = Inr inputs"
    using assms by (auto simp: FetchInputs_def ebind_eq_Inr)
  then show ?thesis by (rule fetch_loop_view) (simp add: from_view_def)
qed (use assms in \<open>auto simp: FetchInputs_def from_view_def\<close>)

lemma connected_view:
  assumes "from_view cs pool inputs" "\<forall>p \<in> set ps. inputs (prev_hash p) \<noteq> None"
  shows "block_view cs (marked_pool x ps inputs pool) = (\<lambda>h. map_option (mark_index x ps h) (block_view cs pool h))"
proof
  fix h
  show "block_view cs (marked_pool x ps inputs pool) h = map_option (mark_index x ps h) (block_view cs pool h)"
  proof (cases "h \<in> prev_hash ` set ps")
    case True
    then obtain ix t where "inputs h = Some (ix, t)" using assms(2) by auto
    moreover from this have "block_view cs pool h = Some ix" using assms(1) unfolding from_view_def by blast
    ultimately show ?thesis using True by (simp add: marked_pool_def map_add_def)
  next
    case False
    then show ?thesis
      by (cases "pool h"; cases "txdb cs h") (simp_all add: marked_pool_def map_add_def mark_index_none)
  qed
qed

lemma disconnect_marked:
  assumes ok: "\<And>p. p \<in> prevout ` set txins \<Longrightarrow> \<exists>ix. view (prev_hash p) = Some ix \<and> out_n p < length (vSpent ix)
      \<and> vSpent ix ! out_n p = null_pos" and none: "view h0 = None"
    and db: "db = (\<lambda>h. map_option (mark_index x (map prevout txins) h) (view h))"
  shows "\<exists>db'. disconnect_loop txins (db(h0 \<mapsto> own)) = Inr db' \<and> db'(h0 := None) = view"
proof -
  let ?ps = "map prevout txins"
  have "disconnect_loop txins (db(h0 \<mapsto> own)) = Inr (\<lambda>h. map_option (mark_index null_pos ?ps h) ((db(h0 \<mapsto> own)) h))"
  proof (rule disconnect_loop_marks)
    fix p
    assume "p \<in> prevout ` set txins"
    then obtain ix where "view (prev_hash p) = Some ix" "out_n p < length (vSpent ix)" using ok [of p] by auto
    then show "\<exists>ix. (db(h0 \<mapsto> own)) (prev_hash p) = Some ix \<and> out_n p < length (vSpent ix)"
      using none by (auto simp: db mark_index_def)
  qed
  moreover have "mark_index null_pos ?ps h (mark_index x ?ps h ix) = ix" if v: "view h = Some ix" for h ix
  proof -
    have "mark null_pos ?ps h (mark x ?ps h (vSpent ix)) = vSpent ix"
    proof (rule mark_mark)
      fix p
      assume "p \<in> set ?ps" "prev_hash p = h"
      then show "vSpent ix ! out_n p = null_pos" using ok [of p] v by auto
    qed
    then show ?thesis by (simp add: mark_index_def)
  qed
  then have "map_option (mark_index null_pos ?ps h) (db h) = view h" for h by (cases "view h") (simp_all add: db)
  then have "(\<lambda>h. map_option (mark_index null_pos ?ps h) ((db(h0 \<mapsto> own)) h))(h0 := None) = view"
    using none by (simp add: fun_eq_iff)
  ultimately show ?thesis by blast
qed

text \<open>C3: Disconnecting undoes connecting. When a transaction of a block that is not a coinbase was looked
  up and connected, then with its own entry written to the index, \<open>DisconnectInputs\<close> gives back the
  index as it was before, the database with the earlier changes of the block.\<close>

theorem connect_disconnect:
  assumes "FetchInputs cs pool True False tx Map.empty = Inr inputs"
    and "ConnectInputs c cs chain tx inputs pool posThisTx True False flags = Inr (inputs', pool')"
    and "\<not> IsCoinBase tx" "\<not> pos_IsNull posThisTx" "block_view cs pool (GetHash c tx) = None"
    and "\<forall>h ix. block_view cs pool h = Some ix \<longrightarrow> list_all (\<lambda>p. pos_IsNull p \<longrightarrow> p = null_pos) (vSpent ix)"
  shows "DisconnectInputs c ((block_view cs pool')(GetHash c tx \<mapsto>
      \<lparr>pos = posThisTx, vSpent = replicate (length (vout tx)) null_pos\<rparr>)) tx = Inr (block_view cs pool)"
proof -
  let ?ps = "map prevout (vin tx)" and ?view = "block_view cs pool"
  have view: "from_view cs pool inputs" by (rule FetchInputs_view [OF assms(1)])
  obtain s: "connect_spend c cs tx posThisTx True False flags (enumerate 0 (vin tx)) inputs pool = Inr (inputs', pool')"
    using assms(2,3) by (auto simp: ConnectInputs_def ebind_eq_Inr)
  note r = connect_spend_result [OF s assms(4), unfolded prevouts_enumerate, simplified]
  have ok: "\<exists>ix t. inputs (prev_hash p) = Some (ix, t) \<and> ?view (prev_hash p) = Some ix \<and> out_n p < length (vSpent ix)
      \<and> vSpent ix ! out_n p = null_pos" if p: "p \<in> set ?ps" for p
  proof -
    obtain k where "k < length (vin tx)" "p = prevout (vin tx ! k)" using p by (auto simp: in_set_conv_nth)
    moreover from this have "(k, vin tx ! k) \<in> set (enumerate 0 (vin tx))" by (simp add: in_set_enumerate_eq)
    ultimately obtain ix t where ix: "inputs (prev_hash p) = Some (ix, t)" "out_n p < length (vSpent ix)"
      "pos_IsNull (vSpent ix ! out_n p)"
      using r by fastforce
    then have "?view (prev_hash p) = Some ix" using view unfolding from_view_def by blast
    then show ?thesis using ix assms(6) by (auto simp: list_all_length)
  qed
  then have "\<forall>p \<in> set ?ps. inputs (prev_hash p) \<noteq> None" by fastforce
  moreover have "pool' = marked_pool posThisTx ?ps inputs pool" using r by blast
  ultimately have "block_view cs pool' = (\<lambda>h. map_option (mark_index posThisTx ?ps h) (?view h))"
    using connected_view [OF view] by simp
  moreover have "\<exists>ix. ?view (prev_hash p) = Some ix \<and> out_n p < length (vSpent ix) \<and> vSpent ix ! out_n p = null_pos"
    if p: "p \<in> prevout ` set (vin tx)" for p
    using ok [of p] p by fastforce
  ultimately obtain db' where "disconnect_loop (vin tx) ((block_view cs pool')(GetHash c tx \<mapsto>
      \<lparr>pos = posThisTx, vSpent = replicate (length (vout tx)) null_pos\<rparr>)) = Inr db'" "db'(GetHash c tx := None) = ?view"
    using disconnect_marked [of "vin tx" ?view, OF _ assms(5)] by meson
  then show ?thesis using assms(3) by (simp add: DisconnectInputs_def)
qed
theorem connect_disconnect_witness:
  "DisconnectInputs (sample_crypto\<lparr>sha256 := \<lambda>_. replicate 32 0\<rparr>) [7 \<mapsto> spent_index,
      0 \<mapsto> \<lparr>pos = sample_pos, vSpent = [null_pos]\<rparr>] sample_tx = Inr [7 \<mapsto> sample_index]"
proof -
  let ?c = "sample_crypto\<lparr>sha256 := \<lambda>_. replicate 32 0\<rparr>"
  have "le_nat (replicate k 0) = 0" for k by (induction k) simp_all
  then have h: "GetHash ?c sample_tx = 0" by (simp add: GetHash_def Hash_c_def)
  have n: "list_all (\<lambda>p. pos_IsNull p \<longrightarrow> p = null_pos) (vSpent sample_index)" by (simp add: sample_index_def)
  have v: "block_view sample_chain Map.empty = [7 \<mapsto> sample_index]"
    "block_view sample_chain [7 \<mapsto> spent_index] = [7 \<mapsto> spent_index]"
    by (simp_all add: sample_chain_def)
  have "length (vout sample_tx) = 1" by (simp add: sample_tx_def)
  then show ?thesis
    using connect_disconnect [OF sample_fetch sample_connects [of ?c] sample_tx_ok(2)] n
    unfolding v h by (simp add: pos_IsNull_def split: if_splits)
qed

end
