(* ===== verification/Spend.thy ===== *)
theory Spend
  imports Script_Verify Connect
begin

text \<open>
  The interpreter with the signature check of the node: what it takes to spend an output that pays to
  the hash of a public key, from the script of the output down to the elliptic curve.
\<close>

lemma Hash160_tx_env: "Hash160 (tx_env c tx nIn) pub = ripemd160 c (sha256 c pub)"
  by (simp add: Hash160_def tx_env_def)

lemma sig_ok_tx_env:
  "sig_ok (tx_env c tx nIn) flags 0 code sig pub \<longleftrightarrow> CheckSignatureEncoding sig flags \<and> CheckPubKeyEncoding pub
     \<and> sig \<noteq> [] \<and> CPubKey pub = Some pub
     \<and> pubkey_Verify c pub (SignatureHash c code tx nIn (int (unat (last sig)))) (butlast sig)"
  by (auto simp: sig_ok_def tx_env_def CheckSig_plain_def CPubKey_def Let_def split: option.split if_splits)

text \<open>C2: An output that pays to a key hash is spent exactly by the owner of the key. \<open>VerifySignature\<close>
  accepts the input that spends it with a signature and a public key if and only if the key hashes
  to the one in the output, both are well encoded, and the signature, without its last byte, verifies for
  the key and the hash of the spending transaction of the type in that byte.\<close>

theorem spend_p2pkh_correct:
  assumes "nIn < length (vin tx)" "prevout (vin tx ! nIn) = p" "out_n p < length (vout txFrom)"
    and "prev_hash p = GetHash c txFrom" "scriptPubKey (vout txFrom ! out_n p) = GetScriptForKeyID h"
    and "scriptSig (vin tx ! nIn) = PushAll [sig, pub]" "length h = 20"
    and "25 \<le> length sig" "length sig \<le> MAX_SCRIPT_ELEMENT_SIZE" "length pub \<le> MAX_SCRIPT_ELEMENT_SIZE"
  shows "VerifySignature c txFrom tx nIn flags 0 = Inr (ripemd160 c (sha256 c pub) = h
    \<and> CheckSignatureEncoding sig flags \<and> CheckPubKeyEncoding pub \<and> CPubKey pub = Some pub
    \<and> pubkey_Verify c pub (SignatureHash c (GetScriptForKeyID h) tx nIn (int (unat (last sig)))) (butlast sig))"
proof -
  have "sig \<noteq> []" using assms(8) by auto
  then show ?thesis
    using assms p2pkh_decides [OF assms(7-10), of "tx_env c tx nIn" flags 0]
    by (simp add: VerifySignature_def Hash160_tx_env sig_ok_tx_env)
qed

definition p2pkh_prev :: CTransaction where
  "p2pkh_prev = sample_tx\<lparr>vout := [\<lparr>nValue = 5000, nColor = 2, scriptPubKey = GetScriptForKeyID (replicate 20 2)\<rparr>]\<rparr>"

definition p2pkh_spend :: CTransaction where
  "p2pkh_spend = sample_tx\<lparr>vin := [\<lparr>prevout = \<lparr>prev_hash = GetHash sample_crypto p2pkh_prev, prev_n = 0\<rparr>,
     scriptSig = PushAll [replicate 70 0x30, replicate 33 2], nSequence = - 1\<rparr>]\<rparr>"

theorem spend_p2pkh_correct_witness:
  "VerifySignature sample_crypto p2pkh_prev p2pkh_spend 0 8 0
    = Inr (ripemd160 sample_crypto (sha256 sample_crypto (replicate 33 2)) = replicate 20 2
      \<and> CheckSignatureEncoding (replicate 70 0x30) 8 \<and> CheckPubKeyEncoding (replicate 33 2)
      \<and> CPubKey (replicate 33 2) = Some (replicate 33 2)
      \<and> pubkey_Verify sample_crypto (replicate 33 2) (SignatureHash sample_crypto (GetScriptForKeyID (replicate 20 2))
          p2pkh_spend 0 (int (unat (last (replicate 70 0x30 :: byte list))))) (butlast (replicate 70 0x30)))"
  by (rule spend_p2pkh_correct [of _ _ "\<lparr>prev_hash = GetHash sample_crypto p2pkh_prev, prev_n = 0\<rparr>"])
    (simp_all add: p2pkh_spend_def p2pkh_prev_def)

end
