(* ===== verification/Spec2Isabelle.thy ===== *)
theory Spec2Isabelle
  imports Keccak XXHash Int_Math Token_Bucket Parse_Int Ctype C_String Protover Consdiff Conflux
    Script_Solver Script_Compress Spend
begin

text \<open>
  \<^bold>\<open>Verification of the Breakout Chain client.\<close>

  The program is a cryptocurrency node and wallet. Its parts, under src/: the C++ node (main.cpp,
  script.cpp, kernel.cpp, wallet.cpp, net.cpp and the RPC files), the hash functions of its proof
  of work (ethash, with its own Keccak in C), the secure messaging module (smessage.cpp, with
  xxHash checksums of message buckets), vendored storage (leveldb, lz4), the Qt interface, and a
  complete embedded Tor client (tor/) that the node uses as its network layer. The development
  models the parts whose correctness is algorithmic, in the language's terms: a struct is a record, a
  w-bit integer a word or an integer with the wrap-around written out, a failed assertion or an
  undefined operation is None, an error return a branch of the result.

  \<^bold>\<open>Theories and what they model.\<close>

  \<^item> Prelude: machine types, rotations, little-endian words, and the locale \<open>refinement\<close>, the
    contract between a representation and its abstract value with its lift to runs of operations.
  \<^item> Keccak (src/ethash/lib/keccak): the two unrolled permutations, transcribed line by line, and the
    sponge. Shown equal to the permutations and the sponge of the Keccak specification, for messages
    of every length.
  \<^item> XXHash (src/xxhash): one-shot and streaming hashes of both widths on both byte orders; the
    locale \<open>stripe_reader\<close> carries the streaming proof for both widths. Streaming equals one-shot,
    and the result does not depend on the machine.
  \<^item> Int_Math (tor/lib/addsub.c, bits.c, muldiv.c): saturating arithmetic, logarithm, rounding,
    fractions.
  \<^item> Token_Bucket (tor/lib/token_bucket.c): the rate limiters of connections; invariant over all
    operation sequences, exact refill without overflow, and the bound on what a client can spend.
  \<^item> Parse_Int (tor/lib/parse_int.c with the strtol family), Ctype (compat_ctype.c), C_String
    (splitting, joining, stripping, base16): round trips and table equivalences.
  \<^item> Protover (tor/core/protover.c): subprotocol version lists, their parser and printer, the vote of
    the directory authorities and the check of a consensus against the supported versions.
  \<^item> Smartlist (tor/lib/smartlist_core.c, smartlist.c): the growable array under most of Tor's
    containers; every sequence of operations refines the same sequence on lists.
  \<^item> Pqueue (the heap of smartlist.c): the locale \<open>comparator\<close> is what the queue needs of a
    comparison, the locale \<open>priority_queue\<close> what it promises its users.
  \<^item> Conflux (tor/core/conflux.c, with the callers in relay.c): multipath circuits. A transition
    system of sender, receiver and one FIFO channel per leg; the queue of Pqueue holds the cells
    that arrive early. Delivery is in order, exactly once, and complete.
  \<^item> Consdiff (tor/feature/consdiff.c): generating and applying diffs of consensus documents, whole,
    with the line and digest checks. A generated diff gives back the target; applying a diff is
    authenticated by the digests, which are a parameter.
  \<^item> Bignum (bignum.h): the conversions of big numbers over the documented MPI format of OpenSSL, the
    locale \<open>openssl_bn\<close>; the compact form of a target.
  \<^item> Serialize (serialize.h): compact sizes and variable length integers.
  \<^item> Script (script.h and the scanning functions of script.cpp): building and reading scripts, the
    counts and syntactic checks over them.
  \<^item> Script_Eval (script.cpp): the interpreter, one definition per group of operations, its errors and
    exceptions as values; the locale \<open>script_values\<close> is what a run keeps of the values on its stacks.
    Script_Verify has its theorems: it always decides, and the two common kinds of output are spent
    exactly by whom they should be; Script_Solver the recognition of standard scripts, and
    Script_Compress their compressed form.
  \<^item> Colors (colors.cpp, colors.h): the tables of the client's 58 currencies, the forks, and the checks on
    colors and amounts. An access out of a table, an overflow of a signed integer and an uncaught exception
    are the values \<open>Undefined\<close> and \<open>Runtime_error\<close>, so that the callers show where they can happen.
  \<^item> Transaction (main.h): transactions and their serialisation; the locale \<open>codec\<close> is the contract of a
    serialised type, interpreted for each of them.
  \<^item> Signature (script.cpp, key.h, key.cpp): identifiers, the hash a signature signs, and the check of a
    signature with its cache. The digests, the curve and the codec of DER signatures are OpenSSL's and
    fields of the record \<open>crypto\<close>. The interpreter runs with the check that has no cache, which
    \<open>signature_cache_transparent\<close> shows to give the same answers.
  \<^item> Tx_Check (main.cpp): the checks of a transaction that need no context, the values of its outputs
    and its fees. Connect: looking up, checking and marking the outputs that a transaction spends, and
    undoing it; the database of transactions, the memory pool and the block files are maps. A connected
    transaction creates no money and marks exactly the outputs it spends; disconnecting it gives
    back the index. Spend joins this with the interpreter.
  \<^item> List_Prelude: facts on subsequences, shared by Consdiff and Script_Eval.

  \<^bold>\<open>Bounds and fuel.\<close> No definition uses fuel: loops are total functions with a measure, or, where the
  C loop could run forever (the doubling loop of a smartlist, the delivery loop of Conflux), partial
  functions whose termination under the invariant is a lemma. The interpreter recurses on
  what is left of its script. A Conflux set is bounded to \<open>INT_MAX\<close>
  cells, which keeps the queue within a smartlist and relative numbers within 32 bits.

  \<^bold>\<open>Not modelled.\<close> Of main.cpp, the acceptance of blocks, the choice of the chain, the rewards and the
  messages of peers; the staking kernel; the wallet, network, RPC, database and user-interface code
  (I/O, threads, Berkeley DB), vendored and generated code (leveldb, lz4, tor/ext, tor/trunnel, the
  hamsi tables), and Tor's event-driven features (connections, circuits, directory, onion services),
  whose behaviour is dominated by the operating system and by cryptography. Hash functions and
  elliptic curves used by modelled code appear as parameters.
\<close>

end
